(* ===== verification/Prelude.thy ===== *)
theory Prelude
  imports Main "HOL-Library.Word" "HOL-Library.Char_ord" "HOL-Library.List_Lexorder"
    "HOL-Library.Product_Lexorder" "HOL-Library.Multiset"
begin

section \<open>Shared types, the Rust standard library in use, and generic lemmas\<close>

text \<open>
  This theory holds what every component shares: the machine integers, the error type of
  \<^verbatim>\<open>parqtel-core/src/error.rs\<close>, the parts of Rust's standard library the sources call on
  slices (\<open>binary_search_by\<close>, \<open>partition_point\<close>, \<open>windows(2)\<close>), the \<^theory_text>\<open>named_theorems\<close>
  collections of the development, and an interface for state machines whose invariants are
  proved once and used by several components.

  A Rust \<open>String\<close> is a sequence of bytes, so a \<^typ>\<open>string\<close> (a list of 8-bit characters) holds
  its UTF-8 encoding; Rust orders strings by bytes, which is the order that
  \<^verbatim>\<open>HOL-Library.Char_ord\<close> and \<^verbatim>\<open>HOL-Library.List_Lexorder\<close> put on \<^typ>\<open>string\<close>.
  A Rust \<open>Result<T, E>\<close> is a value of type \<open>'e + 't\<close> with \<^const>\<open>Inl\<close> for the error.
\<close>

type_synonym u8 = "8 word"
type_synonym u32 = "32 word"
type_synonym u64 = "64 word"
type_synonym byte = "8 word"

text \<open>The error type of \<^verbatim>\<open>parqtel-core/src/error.rs\<close>; the payloads that come from other
  crates (I/O, JSON, Parquet) are kept as their message.\<close>

datatype error =
    Io string
  | Parquet string
  | Arrow string
  | SchemaMismatch string string
  | InvalidOtlp string
  | Query string
  | Config string
  | Validation string
  | Internal string
  | Serde string

type_synonym 'a result = "error + 'a"

text \<open>The \<open>Display\<close> instance that \<open>thiserror\<close> derives from the attributes.\<close>

primrec error_to_string :: "error \<Rightarrow> string" where
  "error_to_string (Io m) = ''I/O error: '' @ m"
| "error_to_string (Parquet m) = ''Parquet error: '' @ m"
| "error_to_string (Arrow m) = ''Arrow error: '' @ m"
| "error_to_string (SchemaMismatch e f) = ''Schema mismatch: expected '' @ e @ '', found '' @ f"
| "error_to_string (InvalidOtlp m) = ''Invalid OTLP payload: '' @ m"
| "error_to_string (Query m) = ''Query error: '' @ m"
| "error_to_string (Config m) = ''Configuration error: '' @ m"
| "error_to_string (Validation m) = ''Validation error: '' @ m"
| "error_to_string (Internal m) = ''Internal error: '' @ m"
| "error_to_string (Serde m) = ''Serde error: '' @ m"

named_theorems wf_intros \<open>preservation of the components' invariants\<close>
named_theorems abs_simps \<open>what an operation does to the abstraction of its state\<close>
named_theorems step_defs \<open>definitions of the handlers of a state machine\<close>

subsection \<open>Comparison and searching in slices\<close>

datatype ordering = Less | Equal | Greater

definition cmp :: "'a::linorder \<Rightarrow> 'a \<Rightarrow> ordering" where
  "cmp a b = (if a < b then Less else if a = b then Equal else Greater)"

lemma cmp_simps [simp]:
  "cmp a b = Less \<longleftrightarrow> a < b"
  "cmp a b = Equal \<longleftrightarrow> a = b"
  "cmp a b = Greater \<longleftrightarrow> b < a"
  by (auto simp: cmp_def)

lemma case_cmp [simp]:
  "(case cmp a b of Less \<Rightarrow> l | Equal \<Rightarrow> e | Greater \<Rightarrow> g) = (if a < b then l else if a = b then e else g)"
  by (simp add: cmp_def)

text \<open>The outcome of a binary search: the index of a match, or where to insert one.\<close>

datatype search = Found nat | Insert_at nat

text \<open>The loop of \<open>slice::binary_search_by\<close>: halve a window that starts at \<open>base\<close> until one
  element is left.\<close>

function bs_loop :: "('a \<Rightarrow> ordering) \<Rightarrow> 'a list \<Rightarrow> nat \<Rightarrow> nat \<Rightarrow> nat" where
  "bs_loop f xs base sz =
     (if sz \<le> 1 then base
      else let half = sz div 2; mid = base + half
           in bs_loop f xs (if f (xs ! mid) = Greater then base else mid) (sz - half))"
  by pat_completeness auto
termination
  by (relation "measure (\<lambda>(f, xs, base, sz). sz)") auto

declare bs_loop.simps [simp del]

definition binary_search_by :: "('a \<Rightarrow> ordering) \<Rightarrow> 'a list \<Rightarrow> search" where
  "binary_search_by f xs =
     (if xs = [] then Insert_at 0
      else let base = bs_loop f xs 0 (length xs)
           in case f (xs ! base) of
                Equal \<Rightarrow> Found base
              | Less \<Rightarrow> Insert_at (base + 1)
              | Greater \<Rightarrow> Insert_at base)"

definition partition_point :: "('a \<Rightarrow> bool) \<Rightarrow> 'a list \<Rightarrow> nat" where
  "partition_point p xs =
     (case binary_search_by (\<lambda>x. if p x then Less else Greater) xs of
        Found i \<Rightarrow> i | Insert_at i \<Rightarrow> i)"

text \<open>A slice is ordered for a probe when the probe's answers go from \<^const>\<open>Less\<close> over
  \<^const>\<open>Equal\<close> to \<^const>\<open>Greater\<close>.\<close>

definition probe_sorted :: "('a \<Rightarrow> ordering) \<Rightarrow> 'a list \<Rightarrow> bool" where
  "probe_sorted f xs \<longleftrightarrow>
     (\<forall>i j. i < j \<longrightarrow> j < length xs \<longrightarrow>
        (f (xs ! j) = Less \<longrightarrow> f (xs ! i) = Less) \<and>
        (f (xs ! i) = Greater \<longrightarrow> f (xs ! j) = Greater))"

lemma bs_loop_spec:
  assumes "probe_sorted f xs" and "1 \<le> sz" and "base + sz \<le> length xs"
    and "base = 0 \<or> f (xs ! base) \<noteq> Greater"
    and "\<forall>j. base + sz \<le> j \<longrightarrow> j < length xs \<longrightarrow> f (xs ! j) = Greater"
  shows "bs_loop f xs base sz < length xs
    \<and> (bs_loop f xs base sz = 0 \<or> f (xs ! bs_loop f xs base sz) \<noteq> Greater)
    \<and> (\<forall>j. bs_loop f xs base sz < j \<longrightarrow> j < length xs \<longrightarrow> f (xs ! j) = Greater)"
  using assms
proof (induction f xs base sz rule: bs_loop.induct)
  case (1 f xs base sz)
  show ?case
  proof (cases "sz \<le> 1")
    case True
    then have "bs_loop f xs base sz = base" by (subst bs_loop.simps) simp
    with True 1(3-6) show ?thesis by auto
  next
    case False
    let ?half = "sz div 2"
    let ?mid = "base + ?half"
    let ?base = "if f (xs ! ?mid) = Greater then base else ?mid"
    from False have half: "0 < ?half" "?half < sz" by auto
    have mid: "?mid < length xs" using 1(4) half by simp
    have tail: "\<forall>j. ?base + (sz - ?half) \<le> j \<longrightarrow> j < length xs \<longrightarrow> f (xs ! j) = Greater"
    proof (intro allI impI)
      fix j assume j: "?base + (sz - ?half) \<le> j" "j < length xs"
      show "f (xs ! j) = Greater"
      proof (cases "f (xs ! ?mid) = Greater")
        case True
        with j half have "?mid \<le> j" by (simp split: if_splits)
        then consider "?mid = j" | "?mid < j" by linarith
        then show ?thesis
          using True j(2) 1(2) by cases (auto simp: probe_sorted_def)
      next
        case no: False
        with j half have "base + sz \<le> j" by simp
        with 1(6) j show ?thesis by blast
      qed
    qed
    have IH: "bs_loop f xs ?base (sz - ?half) < length xs
      \<and> (bs_loop f xs ?base (sz - ?half) = 0
          \<or> f (xs ! bs_loop f xs ?base (sz - ?half)) \<noteq> Greater)
      \<and> (\<forall>j. bs_loop f xs ?base (sz - ?half) < j \<longrightarrow> j < length xs \<longrightarrow> f (xs ! j) = Greater)"
      by (rule 1(1) [OF False refl refl 1(2) _ _ _ tail]) (use 1(4,5) half mid in auto)
    have eq: "bs_loop f xs base sz = bs_loop f xs ?base (sz - ?half)"
      using False by (subst bs_loop.simps) (simp add: Let_def)
    show ?thesis unfolding eq by (rule IH)
  qed
qed

lemma binary_search_by_spec:
  assumes sorted: "probe_sorted f xs"
  shows "case binary_search_by f xs of
      Found i \<Rightarrow> i < length xs \<and> f (xs ! i) = Equal
    | Insert_at i \<Rightarrow> i \<le> length xs \<and> (\<forall>j<i. f (xs ! j) = Less)
        \<and> (\<forall>j. i \<le> j \<longrightarrow> j < length xs \<longrightarrow> f (xs ! j) = Greater)"
proof (cases "xs = []")
  case True
  then show ?thesis by (simp add: binary_search_by_def)
next
  case False
  define b where "b = bs_loop f xs 0 (length xs)"
  have b: "b < length xs" "b = 0 \<or> f (xs ! b) \<noteq> Greater"
    "\<forall>j. b < j \<longrightarrow> j < length xs \<longrightarrow> f (xs ! j) = Greater"
    using bs_loop_spec [OF sorted, of "length xs" 0] False
    by (auto simp: b_def Suc_le_eq)
  show ?thesis
  proof (cases "f (xs ! b)")
    case Less
    have "\<forall>j<b + 1. f (xs ! j) = Less"
      using Less b(1) sorted by (metis Suc_eq_plus1 less_Suc_eq probe_sorted_def)
    with Less b False show ?thesis
      by (auto simp: binary_search_by_def b_def [symmetric] Let_def)
  next
    case Equal
    with b False show ?thesis by (simp add: binary_search_by_def b_def [symmetric] Let_def)
  next
    case Greater
    with b have "b = 0" by simp
    with Greater b(3) have "\<forall>j<length xs. f (xs ! j) = Greater"
      by (metis gr_zeroI)
    with Greater \<open>b = 0\<close> False show ?thesis
      by (simp add: binary_search_by_def b_def [symmetric] Let_def)
  qed
qed

text \<open>On a slice its predicate partitions, \<^const>\<open>partition_point\<close> is the length of the
  longest prefix that satisfies the predicate; on any other slice it is only bounded.\<close>

lemma partition_point_eq:
  assumes "\<forall>i j. i < j \<longrightarrow> j < length xs \<longrightarrow> p (xs ! j) \<longrightarrow> p (xs ! i)"
  shows "partition_point p xs = length (takeWhile p xs)"
proof -
  let ?f = "\<lambda>x. if p x then Less else Greater"
  have "probe_sorted ?f xs"
    using assms by (auto simp: probe_sorted_def)
  from binary_search_by_spec [OF this]
  obtain i where i: "binary_search_by ?f xs = Insert_at i" "i \<le> length xs"
    "\<forall>j<i. p (xs ! j)" "\<forall>j. i \<le> j \<longrightarrow> j < length xs \<longrightarrow> \<not> p (xs ! j)"
    by (cases "binary_search_by ?f xs") (auto split: if_splits)
  have "length (takeWhile p xs) = i"
  proof (rule antisym)
    show "length (takeWhile p xs) \<le> i"
    proof (rule ccontr)
      assume "\<not> length (takeWhile p xs) \<le> i"
      then have "i < length (takeWhile p xs)" by simp
      then have "p (xs ! i)" "i < length xs"
        using set_takeWhileD [of "takeWhile p xs ! i" p xs] length_takeWhile_le [of p xs]
        by (auto simp: takeWhile_nth [symmetric])
      with i(4) show False by blast
    qed
    show "i \<le> length (takeWhile p xs)"
      using i(2,3) by (metis linorder_not_less nth_length_takeWhile order_less_le_trans)
  qed
  with i(1) show ?thesis by (simp add: partition_point_def)
qed

subsection \<open>Generic list facts\<close>

text \<open>\<open>windows(2)\<close> of a slice: the pairs of neighbours.\<close>

fun windows2 :: "'a list \<Rightarrow> ('a \<times> 'a) list" where
  "windows2 (x # y # xs) = (x, y) # windows2 (y # xs)"
| "windows2 xs = []"

lemma windows2_sorted_wrt:
  assumes "transp R"
  shows "(\<forall>w \<in> set (windows2 xs). R (fst w) (snd w)) \<longleftrightarrow> sorted_wrt R xs"
proof (induction xs rule: windows2.induct)
  case (1 x y xs)
  then show ?case using assms by (auto simp: transp_def)
qed auto

lemma windows2_map: "windows2 (map f xs) = map (map_prod f f) (windows2 xs)"
  by (induction xs rule: windows2.induct) auto

lemma sorted_distinct_windows2:
  "sorted xs \<Longrightarrow> (\<exists>w \<in> set (windows2 xs). fst w = snd w) \<longleftrightarrow> \<not> distinct (xs::'a::linorder list)"
proof (induction xs rule: windows2.induct)
  case (1 x y xs)
  then show ?case by (cases "x = y") (auto simp: dual_order.antisym)
qed auto

lemma distinct_count_list: "distinct xs \<Longrightarrow> count_list xs x = (if x \<in> set xs then 1 else 0)"
  by (induction xs) auto

text \<open>Association lists with strictly increasing keys.\<close>

abbreviation strict_keys :: "('k::linorder \<times> 'v) list \<Rightarrow> bool" where
  "strict_keys es \<equiv> sorted_wrt (<) (map fst es)"

lemma strict_keys_distinct: "strict_keys es \<Longrightarrow> distinct (map fst es)"
  by (simp add: strict_sorted_iff)

lemma strict_keys_sorted: "strict_keys es \<Longrightarrow> sorted (map fst es)"
  by (simp add: strict_sorted_iff)

lemma strict_keys_filter: "strict_keys es \<Longrightarrow> strict_keys (filter p es)"
  by (induction es) auto

lemma map_of_middle:
  "k \<notin> fst ` set xs \<Longrightarrow> map_of (xs @ (k, v) # ys) = (map_of (xs @ ys))(k \<mapsto> v)"
  by (induction xs) (auto simp: fun_upd_twist)

lemma strict_keys_unique:
  assumes "strict_keys es" "strict_keys es'" "map_of es = map_of es'"
  shows "es = es'"
proof -
  have eq: "set es = set es'"
    using assms by (metis map_of_inject_set strict_keys_distinct)
  have "inj_on fst (set es \<union> set es')"
    using strict_keys_distinct [OF assms(1)] eq by (simp add: distinct_map)
  then show ?thesis
    using assms(1,2) eq
    by (blast intro: map_sorted_distinct_set_unique strict_keys_distinct strict_keys_sorted)
qed

lemma strict_keys_snoc:
  "strict_keys (es @ [e]) \<longleftrightarrow> strict_keys es \<and> (es = [] \<or> fst (last es) < fst e)"
proof (cases es rule: rev_cases)
  case (snoc ys y)
  then show ?thesis by (auto simp: sorted_wrt_append)
qed simp

text \<open>A stable sort by key keeps which entry of a key comes first.\<close>

lemma map_of_filter_key: "map_of xs k = map_of (filter (\<lambda>e. fst e = k) xs) k"
  by (induction xs) auto

lemma map_of_sort_key_fst [simp]: "map_of (sort_key fst xs) = map_of xs"
proof
  fix k
  have "map_of (sort_key fst xs) k = map_of (filter (\<lambda>e. fst e = k) (sort_key fst xs)) k"
    by (rule map_of_filter_key)
  also have "\<dots> = map_of (filter (\<lambda>e. fst e = k) xs) k"
    by (simp add: sort_key_stable)
  also have "\<dots> = map_of xs k" by (rule map_of_filter_key [symmetric])
  finally show "map_of (sort_key fst xs) k = map_of xs k" .
qed

lemma fold_max_ge: "(x :: 'a :: linorder) \<in> insert a (set xs) \<Longrightarrow> x \<le> fold max xs a"
proof (induction xs arbitrary: a x)
  case (Cons y ys)
  then show ?case
  proof (cases "x \<in> set ys")
    case False
    with Cons.prems have "x \<le> max y a" by auto
    also have "\<dots> \<le> fold max ys (max y a)" by (rule Cons.IH) simp
    finally show ?thesis by simp
  qed simp
qed simp

lemma fold_max_in: "fold max xs (a :: 'a :: linorder) \<in> insert a (set xs)"
  by (induction xs arbitrary: a) (auto simp: max_def)

lemma u64_lt [simp]: "unat (w :: u64) < 2 ^ 64"
  using unsigned_less [where ?'a = nat and w = w] by simp

lemma u32_lt [simp]: "unat (w :: u32) < 2 ^ 32"
  using unsigned_less [where ?'a = nat and w = w] by simp

subsection \<open>Finite maps as an interface\<close>

text \<open>What the clients of a keyed container rely on: lookup after an update, a join in which
  the right operand wins, and a restriction.\<close>

locale finite_map_api =
  fixes wf :: "'m \<Rightarrow> bool"
    and look :: "'m \<Rightarrow> 'k \<Rightarrow> 'v option"
    and put :: "'m \<Rightarrow> 'k \<Rightarrow> 'v \<Rightarrow> 'm"
    and join :: "'m \<Rightarrow> 'm \<Rightarrow> 'm"
    and restrict :: "('k \<Rightarrow> 'v \<Rightarrow> bool) \<Rightarrow> 'm \<Rightarrow> 'm"
  assumes wf_put: "wf m \<Longrightarrow> wf (put m k v)"
    and wf_join: "wf m \<Longrightarrow> wf n \<Longrightarrow> wf (join m n)"
    and wf_restrict: "wf m \<Longrightarrow> wf (restrict p m)"
    and look_put: "wf m \<Longrightarrow> look (put m k v) = (look m)(k \<mapsto> v)"
    and look_join: "wf m \<Longrightarrow> wf n \<Longrightarrow> look (join m n) = look m ++ look n"
    and look_restrict: "wf m \<Longrightarrow> look (restrict p m) k =
      (case look m k of None \<Rightarrow> None | Some v \<Rightarrow> if p k v then Some v else None)"
begin

lemmas wfs = wf_put wf_join wf_restrict
lemmas looks = look_put look_join look_restrict

lemma put_put: "wf m \<Longrightarrow> look (put (put m k v) k w) = look (put m k w)"
  by (simp add: wfs looks)

lemma put_join: "wf m \<Longrightarrow> wf n \<Longrightarrow> look (join m (put n k v)) = look (put (join m n) k v)"
  by (simp add: wfs looks)

lemma join_assoc:
  "wf l \<Longrightarrow> wf m \<Longrightarrow> wf n \<Longrightarrow> look (join (join l m) n) = look (join l (join m n))"
  by (simp add: wfs looks)

lemma restrict_join:
  "wf m \<Longrightarrow> wf n \<Longrightarrow> (\<forall>k v w. p k v = p k w) \<Longrightarrow>
     look (restrict p (join m n)) k = look (join (restrict p m) (restrict p n)) k"
  by (auto simp: wfs looks map_add_def split: option.splits)

end

text \<open>A canonical representation: equality of the values is equality of the maps.\<close>

locale canonical_map_api = finite_map_api +
  fixes same :: "'a \<Rightarrow> 'a \<Rightarrow> bool"
  assumes same_iff: "wf m \<Longrightarrow> wf n \<Longrightarrow> same m n \<longleftrightarrow> look m = look n"
begin

lemma put_swap: "wf m \<Longrightarrow> k \<noteq> l \<Longrightarrow> same (put (put m k v) l w) (put (put m l w) k v)"
  by (simp add: same_iff wfs looks fun_upd_twist)

lemma put_overwrites: "wf m \<Longrightarrow> same (put (put m k v) k w) (put m k w)"
  by (simp add: same_iff wfs looks)

lemma join_assoc_same:
  "wf l \<Longrightarrow> wf m \<Longrightarrow> wf n \<Longrightarrow> same (join (join l m) n) (join l (join m n))"
  by (simp add: same_iff wfs looks)

end

subsection \<open>State machines and their invariants\<close>

text \<open>A machine is a set of initial states and a step relation; the interface asks that a
  predicate holds initially and is kept by every step.\<close>

locale state_machine =
  fixes init :: "'s \<Rightarrow> bool"
    and step :: "'s \<Rightarrow> 's \<Rightarrow> bool"
    and inv :: "'s \<Rightarrow> bool"
  assumes inv_init: "init s \<Longrightarrow> inv s"
    and inv_step: "inv s \<Longrightarrow> step s t \<Longrightarrow> inv t"
begin

lemma inv_steps: "inv s \<Longrightarrow> step\<^sup>*\<^sup>* s t \<Longrightarrow> inv t"
  by (rotate_tac 1, induction rule: rtranclp_induct) (auto intro: inv_step)

lemma inv_reachable: "init s \<Longrightarrow> step\<^sup>*\<^sup>* s t \<Longrightarrow> inv t"
  by (blast intro: inv_init inv_steps)

end

subsection \<open>Grouping\<close>

text \<open>Summing group by group is summing over all.\<close>

lemma sum_list_groups:
  fixes m :: "'b \<Rightarrow> 'c :: comm_monoid_add"
  assumes "distinct ks" "\<And>b. b \<in> set bs \<Longrightarrow> key b \<in> set ks"
  shows "(\<Sum>k\<leftarrow>ks. \<Sum>b\<leftarrow>filter (\<lambda>b. key b = k) bs. m b) = (\<Sum>b\<leftarrow>bs. m b)"
  using assms (2)
proof (induction bs)
  case (Cons b bs)
  have one: "(\<Sum>k\<leftarrow>ks. if key b = k then m b else 0) = m b"
    using Cons.prems assms (1) by (simp add: sum_list_distinct_conv_sum_set)
  have "(\<Sum>k\<leftarrow>ks. \<Sum>b\<leftarrow>filter (\<lambda>b. key b = k) (b # bs). m b) =
      (\<Sum>k\<leftarrow>ks. (if key b = k then m b else 0) + (\<Sum>b\<leftarrow>filter (\<lambda>b. key b = k) bs. m b))"
    by (intro arg_cong [where f = sum_list] map_cong) auto
  also have "\<dots> = m b + (\<Sum>b\<leftarrow>bs. m b)" using Cons one by (simp add: sum_list_addf)
  finally show ?case by simp
qed simp

lemma mset_concat_sum: "mset (concat xss) = (\<Sum>xs\<leftarrow>xss. mset xs)"
  by (induction xss) auto

end
