(* ===== verification/Labels.thy ===== *)
theory Labels
  imports Prelude
begin

unbundle bit_operations_syntax

section \<open>Label sets and their interner\<close>

text \<open>
  The model of \<^verbatim>\<open>parqtel-core/src/models/labels.rs\<close>. A \<open>LabelSet\<close> is an \<open>Arc\<close> around an
  immutable list of entries that is sorted by key with unique keys. The identity of the
  \<open>Arc\<close> is observable (\<open>addr\<close>, \<open>ptr_eq\<close>), so the record keeps it next to the entries; every
  operation that allocates a new set takes the address the allocator hands out as its first
  argument. The fingerprint and the JSON text are cached by the source in a \<open>OnceLock\<close>: they
  are functions of the immutable entries, so the model computes them.

  The theory shows that the sorted-list operations implement a finite map (lookup, update,
  merge, restriction), that two sets are equal exactly when they are equal as maps, that a
  set does not depend on the order its pairs arrive in, that reading a JSON object keeps the
  last of repeated keys, and that the interner is a cache: it never changes a result and its
  size is bounded.
\<close>

type_synonym entries = "(string \<times> string) list"

record label_set =
  ls_addr :: nat
  ls_entries :: entries

subsection \<open>Construction and reading\<close>

definition from_sorted_unique :: "nat \<Rightarrow> entries \<Rightarrow> label_set" where
  "from_sorted_unique a es = \<lparr>ls_addr = a, ls_entries = es\<rparr>"

text \<open>\<open>LabelSet::default()\<close>: the one shared empty set, whose storage is allocated first.\<close>

definition default_labels :: label_set where
  "default_labels = from_sorted_unique 0 []"

definition try_from_iter :: "nat \<Rightarrow> entries \<Rightarrow> label_set result" where
  "try_from_iter a pairs =
     (if list_all (\<lambda>w. fst (fst w) < fst (snd w)) (windows2 pairs)
      then Inr (from_sorted_unique a pairs)
      else let es = sort_key fst pairs
           in case List.find (\<lambda>w. fst (fst w) = fst (snd w)) (windows2 es) of
                Some w \<Rightarrow>
                  Inl (Validation (''Duplicate key found in label set: '' @ fst (fst w)))
              | None \<Rightarrow> Inr (from_sorted_unique a es))"

definition ls_len :: "label_set \<Rightarrow> nat" where
  "ls_len s = length (ls_entries s)"

definition ls_is_empty :: "label_set \<Rightarrow> bool" where
  "ls_is_empty s \<longleftrightarrow> ls_entries s = []"

definition ls_get :: "label_set \<Rightarrow> string \<Rightarrow> string option" where
  "ls_get s key =
     (case binary_search_by (\<lambda>e. cmp (fst e) key) (ls_entries s) of
        Found i \<Rightarrow> Some (snd (ls_entries s ! i))
      | Insert_at i \<Rightarrow> None)"

definition ls_iter :: "label_set \<Rightarrow> entries" where
  "ls_iter s = map (\<lambda>e. (fst e, snd e)) (ls_entries s)"

definition ls_keys :: "label_set \<Rightarrow> string list" where
  "ls_keys s = map fst (ls_entries s)"

definition ptr_eq :: "label_set \<Rightarrow> label_set \<Rightarrow> bool" where
  "ptr_eq s t \<longleftrightarrow> ls_addr s = ls_addr t"

text \<open>The fingerprint: FNV-1a over length-prefixed keys and values, then the splitmix64
  finaliser. All arithmetic wraps at 64 bits.\<close>

definition u64_le_bytes :: "u64 \<Rightarrow> byte list" where
  "u64_le_bytes w = map (\<lambda>i. ucast (drop_bit (8 * i) w)) [0..<8]"

definition as_bytes :: "string \<Rightarrow> byte list" where
  "as_bytes s = map of_char s"

definition fnv_step :: "u64 \<Rightarrow> byte \<Rightarrow> u64" where
  "fnv_step h b = (h XOR ucast b) * 0x100000001b3"

definition fnv_eat :: "u64 \<Rightarrow> byte list \<Rightarrow> u64" where
  "fnv_eat h bytes = foldl fnv_step h (u64_le_bytes (of_nat (length bytes)) @ bytes)"

definition splitmix_final :: "u64 \<Rightarrow> u64" where
  "splitmix_final h0 =
     (let h1 = h0 XOR drop_bit 30 h0;
          h2 = h1 * 0xbf58476d1ce4e5b9;
          h3 = h2 XOR drop_bit 27 h2;
          h4 = h3 * 0x94d049bb133111eb
      in h4 XOR drop_bit 31 h4)"

definition fingerprint :: "label_set \<Rightarrow> u64" where
  "fingerprint s =
     splitmix_final
       (foldl (\<lambda>h e. fnv_eat (fnv_eat h (as_bytes (fst e))) (as_bytes (snd e)))
          0xcbf29ce484222325 (ls_entries s))"

subsection \<open>Operations that build a new set\<close>

text \<open>The two-cursor loop of \<open>merge\<close>: the cursors \<open>i\<close> and \<open>j\<close> are the suffixes still to read.\<close>

fun merge_loop :: "entries \<Rightarrow> entries \<Rightarrow> entries" where
  "merge_loop (x # xs) (y # ys) =
     (case cmp (fst x) (fst y) of
        Less \<Rightarrow> x # merge_loop xs (y # ys)
      | Greater \<Rightarrow> y # merge_loop (x # xs) ys
      | Equal \<Rightarrow> y # merge_loop xs ys)"
| "merge_loop xs [] = xs"
| "merge_loop [] ys = ys"

definition ls_merge :: "nat \<Rightarrow> label_set \<Rightarrow> label_set \<Rightarrow> label_set" where
  "ls_merge a s t =
     (if ls_is_empty t then s
      else from_sorted_unique a (merge_loop (ls_entries s) (ls_entries t)))"

definition ls_filtered :: "nat \<Rightarrow> (string \<Rightarrow> string \<Rightarrow> bool) \<Rightarrow> label_set \<Rightarrow> label_set" where
  "ls_filtered a keep s =
     (let es = filter (\<lambda>e. keep (fst e) (snd e)) (ls_entries s)
      in if length es = length (ls_entries s) then s else from_sorted_unique a es)"

definition ls_with :: "nat \<Rightarrow> label_set \<Rightarrow> string \<Rightarrow> string \<Rightarrow> label_set" where
  "ls_with a s key value =
     (let es = ls_entries s
      in case binary_search_by (\<lambda>e. cmp (fst e) key) es of
           Found i \<Rightarrow> from_sorted_unique a (take i es @ [(key, value)] @ drop (i + 1) es)
         | Insert_at i \<Rightarrow> from_sorted_unique a (take i es @ [(key, value)] @ drop i es))"

subsection \<open>JSON text\<close>

text \<open>\<open>serde_json\<close> escapes a string that needs it; its encoder is the argument \<open>esc\<close>, \<open>None\<close>
  when it reports an error.\<close>

definition quote :: string where
  "quote = [CHR 0x22]"

definition needs_escape :: "string \<Rightarrow> bool" where
  "needs_escape s \<longleftrightarrow>
     list_ex (\<lambda>c. (of_char c :: nat) < 0x20 \<or> c = CHR 0x22 \<or> c = CHR 0x5c) s"

definition push_json_string :: "(string \<Rightarrow> string option) \<Rightarrow> string \<Rightarrow> string \<Rightarrow> string" where
  "push_json_string esc out s =
     (if \<not> needs_escape s then out @ quote @ s @ quote
      else case esc s of Some e \<Rightarrow> out @ e | None \<Rightarrow> out @ quote @ quote)"

fun json_loop :: "(string \<Rightarrow> string option) \<Rightarrow> nat \<Rightarrow> string \<Rightarrow> entries \<Rightarrow> string" where
  "json_loop esc i out [] = out"
| "json_loop esc i out (e # es) =
     (let out1 = (if 0 < i then out @ '','' else out);
          out2 = push_json_string esc out1 (fst e) @ '':''
      in json_loop esc (i + 1) (push_json_string esc out2 (snd e)) es)"

definition json_str :: "(string \<Rightarrow> string option) \<Rightarrow> label_set \<Rightarrow> string" where
  "json_str esc s = json_loop esc 0 ''{'' (ls_entries s) @ ''}''"

text \<open>Reading a map: the visitor sees the entries in document order, each of which the JSON
  reader may fail to deliver.\<close>

fun visit_loop :: "entries \<Rightarrow> bool \<Rightarrow> (error + string \<times> string) list \<Rightarrow> (entries \<times> bool) result" where
  "visit_loop es srt [] = Inr (es, srt)"
| "visit_loop es srt (Inl e # access) = Inl e"
| "visit_loop es srt (Inr kv # access) =
     (let srt' = (if es \<noteq> [] \<and> fst (last es) \<ge> fst kv then False else srt)
      in visit_loop (es @ [kv]) srt' access)"

text \<open>\<open>dedup_by\<close> on neighbouring equal keys keeps the first of each run.\<close>

fun dedup_keys :: "entries \<Rightarrow> entries" where
  "dedup_keys (x # y # xs) =
     (if fst y = fst x then dedup_keys (x # xs) else x # dedup_keys (y # xs))"
| "dedup_keys xs = xs"

definition visit_map :: "nat \<Rightarrow> (error + string \<times> string) list \<Rightarrow> label_set result" where
  "visit_map a access =
     (case visit_loop [] True access of
        Inl e \<Rightarrow> Inl e
      | Inr (es, srt) \<Rightarrow>
          Inr (from_sorted_unique a
            (if srt then es else dedup_keys (sort_key fst (rev es)))))"

subsection \<open>Comparison\<close>

definition ls_eq :: "label_set \<Rightarrow> label_set \<Rightarrow> bool" where
  "ls_eq s t \<longleftrightarrow> ptr_eq s t \<or> ls_entries s = ls_entries t"

definition ls_cmp :: "label_set \<Rightarrow> label_set \<Rightarrow> ordering" where
  "ls_cmp s t = (if ptr_eq s t then Equal else cmp (ls_entries s) (ls_entries t))"

definition ls_hash :: "label_set \<Rightarrow> u64" where
  "ls_hash s = fingerprint s"

subsection \<open>The interner\<close>

definition INTERN_SHARDS :: nat where "INTERN_SHARDS = 16"
definition INTERN_SHARD_CAP :: nat where "INTERN_SHARD_CAP = 16 * 1024"
definition INTERN_MAX_PAIRS :: nat where "INTERN_MAX_PAIRS = 32"

record intern_shard =
  is_buckets :: "u64 \<rightharpoonup> label_set list"
  is_entries :: nat

type_synonym interner = "intern_shard list"

definition interner_new :: interner where
  "interner_new = replicate INTERN_SHARDS \<lparr>is_buckets = Map.empty, is_entries = 0\<rparr>"

text \<open>The per-pair hash is \<open>ahash\<close>'s, the argument \<open>hp\<close>.\<close>

definition hash_pairs :: "(string \<Rightarrow> string \<Rightarrow> u64) \<Rightarrow> entries \<Rightarrow> u64" where
  "hash_pairs hp pairs =
     foldl (\<lambda>acc e. acc + hp (fst e) (snd e)) (of_nat (length pairs)) pairs"

fun has_repeated_key_from :: "entries \<Rightarrow> entries \<Rightarrow> bool" where
  "has_repeated_key_from seen [] = False"
| "has_repeated_key_from seen (e # es) =
     (if list_ex (\<lambda>other. fst other = fst e) seen then True
      else has_repeated_key_from (seen @ [e]) es)"

definition has_repeated_key :: "entries \<Rightarrow> bool" where
  "has_repeated_key pairs = has_repeated_key_from [] pairs"

definition intern_hit :: "entries \<Rightarrow> label_set \<Rightarrow> bool" where
  "intern_hit pairs cand \<longleftrightarrow>
     ls_len cand = length pairs \<and> list_all (\<lambda>e. ls_get cand (fst e) = Some (snd e)) pairs"

definition intern_insert :: "u64 \<Rightarrow> label_set \<Rightarrow> intern_shard \<Rightarrow> intern_shard" where
  "intern_insert h built sh =
     (let sh1 = (if is_entries sh \<ge> INTERN_SHARD_CAP
                 then \<lparr>is_buckets = Map.empty, is_entries = 0\<rparr> else sh);
          bucket = (case is_buckets sh1 h of None \<Rightarrow> [] | Some b \<Rightarrow> b)
      in \<lparr>is_buckets = (is_buckets sh1)(h \<mapsto> bucket @ [built]),
          is_entries = is_entries sh1 + 1\<rparr>)"

definition intern ::
  "(string \<Rightarrow> string \<Rightarrow> u64) \<Rightarrow> nat \<Rightarrow> interner \<Rightarrow> entries \<Rightarrow> label_set result \<times> interner" where
  "intern hp a st pairs =
     (if pairs = [] then (Inr default_labels, st)
      else if length pairs > INTERN_MAX_PAIRS \<or> has_repeated_key pairs
      then (try_from_iter a pairs, st)
      else let h = hash_pairs hp pairs;
               i = unat h mod INTERN_SHARDS;
               bucket = (case is_buckets (st ! i) h of None \<Rightarrow> [] | Some b \<Rightarrow> b)
           in case List.find (intern_hit pairs) bucket of
                Some cand \<Rightarrow> (Inr cand, st)
              | None \<Rightarrow>
                  (case try_from_iter a pairs of
                     Inl e \<Rightarrow> (Inl e, st)
                   | Inr built \<Rightarrow>
                       (Inr built, st[i := intern_insert h built (st ! i)])))"

definition intern_with ::
  "(string \<Rightarrow> string \<Rightarrow> u64) \<Rightarrow> nat \<Rightarrow> interner \<Rightarrow> label_set \<Rightarrow> string \<Rightarrow> string
     \<Rightarrow> label_set \<times> interner" where
  "intern_with hp a st base key value =
     (let pairs = filter (\<lambda>e. fst e \<noteq> key) (ls_iter base) @ [(key, value)]
      in case intern hp a st pairs of
           (Inr s, st') \<Rightarrow> (s, st')
         | (Inl e, st') \<Rightarrow> (ls_with a base key value, st'))"

subsection \<open>The invariant, and lookup as a map\<close>

definition wf_labels :: "label_set \<Rightarrow> bool" where
  "wf_labels s \<longleftrightarrow> strict_keys (ls_entries s)"

text \<open>The finite map a label set stands for.\<close>

definition labels_map :: "label_set \<Rightarrow> (string \<rightharpoonup> string)" where
  "labels_map s = map_of (ls_entries s)"

lemma from_sorted_unique_sel [simp]:
  "ls_entries (from_sorted_unique a es) = es" "ls_addr (from_sorted_unique a es) = a"
  by (simp_all add: from_sorted_unique_def)

lemma probe_sorted_key: "strict_keys es \<Longrightarrow> probe_sorted (\<lambda>e. cmp (fst e) k) es"
  by (auto simp: probe_sorted_def sorted_wrt_iff_nth_less)
    (metis dual_order.strict_trans)+

text \<open>What the binary search finds in a well-formed list of entries.\<close>

lemma key_search_Found:
  assumes "strict_keys es" and "binary_search_by (\<lambda>e. cmp (fst e) k) es = Found i"
  shows "i < length es" and "fst (es ! i) = k"
  using binary_search_by_spec [OF probe_sorted_key [OF assms(1), of k]] assms(2) by simp_all

lemma key_search_Insert_at:
  assumes "strict_keys es" and "binary_search_by (\<lambda>e. cmp (fst e) k) es = Insert_at i"
  shows "i \<le> length es" and "\<forall>e \<in> set (take i es). fst e < k"
    and "\<forall>e \<in> set (drop i es). k < fst e"
  using binary_search_by_spec [OF probe_sorted_key [OF assms(1), of k]] assms(2)
  by (simp_all add: all_set_conv_all_nth)

lemma set_take_drop: "set es = set (take i es) \<union> set (drop i es)"
  by (metis append_take_drop_id set_append)

lemma ls_get_map: "wf_labels s \<Longrightarrow> ls_get s k = labels_map s k"
proof -
  assume "wf_labels s"
  then have strict: "strict_keys (ls_entries s)" by (simp add: wf_labels_def)
  show ?thesis
  proof (cases "binary_search_by (\<lambda>e. cmp (fst e) k) (ls_entries s)")
    case (Found i)
    from key_search_Found [OF strict Found]
    have "(k, snd (ls_entries s ! i)) \<in> set (ls_entries s)"
      by (metis nth_mem prod.collapse)
    with Found strict show ?thesis
      by (simp add: ls_get_def labels_map_def strict_keys_distinct)
  next
    case (Insert_at i)
    from key_search_Insert_at [OF strict Insert_at]
    have "\<forall>e \<in> set (ls_entries s). fst e \<noteq> k"
      by (metis UnE less_irrefl set_take_drop)
    then have "map_of (ls_entries s) k = None"
      by (auto simp: map_of_eq_None_iff)
    with Insert_at show ?thesis by (simp add: ls_get_def labels_map_def)
  qed
qed

subsection \<open>Building a set from pairs\<close>

lemma windows2_strict:
  "list_all (\<lambda>w. fst (fst w) < fst (snd w)) (windows2 (es::entries)) \<longleftrightarrow> strict_keys es"
proof -
  have "transp ((<) :: string \<Rightarrow> string \<Rightarrow> bool)" by (simp add: transp_on_less)
  from windows2_sorted_wrt [OF this, of "map fst es"] show ?thesis
    by (auto simp: windows2_map list_all_iff)
qed

lemma find_windows2_dup:
  assumes "sorted (map fst es)"
  shows "case List.find (\<lambda>w. fst (fst w) = fst (snd w)) (windows2 (es::entries)) of
      None \<Rightarrow> strict_keys es
    | Some w \<Rightarrow> \<not> distinct (map fst es) \<and> 2 \<le> count_list (map fst es) (fst (fst w))"
proof (cases "List.find (\<lambda>w. fst (fst w) = fst (snd w)) (windows2 es)")
  case None
  then have "\<not> (\<exists>w \<in> set (windows2 (map fst es)). fst w = snd w)"
    by (auto simp: windows2_map find_None_iff)
  with assms have "distinct (map fst es)" by (simp add: sorted_distinct_windows2)
  with None assms show ?thesis by (simp add: strict_sorted_iff)
next
  case (Some w)
  then have w: "w \<in> set (windows2 es)" "fst (fst w) = fst (snd w)"
    by (auto simp: find_Some_iff)
  have "w \<in> set (windows2 es) \<Longrightarrow> fst (fst w) = fst (snd w)
    \<Longrightarrow> 2 \<le> count_list (map fst es) (fst (fst w))"
    by (induction es rule: windows2.induct) auto
  with w have two: "2 \<le> count_list (map fst es) (fst (fst w))" by blast
  then have "\<not> distinct (map fst es)"
    using distinct_count_list [of "map fst es" "fst (fst w)"] by (auto split: if_splits)
  with Some two show ?thesis by simp
qed

lemma try_from_iter_cases:
  "case try_from_iter a pairs of
     Inr s \<Rightarrow> distinct (map fst pairs) \<and> wf_labels s \<and> mset (ls_entries s) = mset pairs
       \<and> ls_addr s = a
   | Inl e \<Rightarrow> \<not> distinct (map fst pairs)
       \<and> (\<exists>k. e = Validation (''Duplicate key found in label set: '' @ k)
            \<and> 2 \<le> count_list (map fst pairs) k)"
proof (cases "strict_keys pairs")
  case True
  then show ?thesis
    by (simp add: try_from_iter_def windows2_strict wf_labels_def strict_keys_distinct)
next
  case False
  let ?es = "sort_key fst pairs"
  have ms: "mset (map fst ?es) = mset (map fst pairs)" by simp
  then have dist: "distinct (map fst ?es) = distinct (map fst pairs)"
    by (rule mset_eq_imp_distinct_iff)
  have cnt: "count_list (map fst ?es) k = count_list (map fst pairs) k" for k
    using ms by (metis count_mset)
  note dup = find_windows2_dup [of ?es, OF sorted_sort_key]
  show ?thesis
  proof (cases "List.find (\<lambda>w. fst (fst w) = fst (snd w)) (windows2 ?es)")
    case None
    with dup False dist show ?thesis
      by (simp add: try_from_iter_def windows2_strict wf_labels_def Let_def strict_keys_distinct)
  next
    case (Some w)
    with dup False dist cnt show ?thesis
      by (simp add: try_from_iter_def windows2_strict Let_def)
  qed
qed

lemma try_from_iter_Inr:
  assumes "try_from_iter a pairs = Inr s"
  shows "distinct (map fst pairs)" "wf_labels s" "mset (ls_entries s) = mset pairs" "ls_addr s = a"
  using try_from_iter_cases [where a = a and pairs = pairs] assms by simp_all

lemma try_from_iter_total:
  assumes "distinct (map fst pairs)"
  obtains s where "try_from_iter a pairs = Inr s"
  using try_from_iter_cases [where a = a and pairs = pairs] assms by (cases "try_from_iter a pairs") auto

text \<open>The entries are determined by the pairs as a multiset, whatever order they came in.\<close>

lemma try_from_iter_perm:
  assumes "mset pairs = mset pairs'" "try_from_iter a pairs = Inr s" "try_from_iter b pairs' = Inr t"
  shows "ls_entries s = ls_entries t"
proof (rule strict_keys_unique)
  show "strict_keys (ls_entries s)" "strict_keys (ls_entries t)"
    using assms(2,3) by (auto dest!: try_from_iter_Inr(2) simp: wf_labels_def)
  then show "map_of (ls_entries s) = map_of (ls_entries t)"
    using assms try_from_iter_Inr(3)
    by (metis map_of_inject_set mset_eq_setD strict_keys_distinct)
qed

lemma labels_map_try_from_iter:
  assumes "try_from_iter a pairs = Inr s"
  shows "labels_map s = map_of pairs"
  using try_from_iter_Inr [OF assms]
  by (metis labels_map_def map_of_inject_set mset_eq_setD strict_keys_distinct wf_labels_def)

subsection \<open>Update, merge and restriction\<close>

lemma wf_labelsI: "strict_keys (ls_entries s) \<Longrightarrow> wf_labels s"
  by (simp add: wf_labels_def)

lemma strict_keys_append:
  "strict_keys (xs @ ys) \<longleftrightarrow>
     strict_keys xs \<and> strict_keys ys \<and> (\<forall>x \<in> set xs. \<forall>y \<in> set ys. fst x < fst y)"
  by (auto simp: sorted_wrt_append)

lemma strict_keys_take_drop:
  assumes "strict_keys es"
  shows "strict_keys (take i es)" "strict_keys (drop i es)"
    "\<forall>x \<in> set (take i es). \<forall>y \<in> set (drop i es). fst x < fst y"
  using assms strict_keys_append [of "take i es" "drop i es"] by simp_all

lemma wf_from_sorted_unique [wf_intros]: "strict_keys es \<Longrightarrow> wf_labels (from_sorted_unique a es)"
  by (simp add: wf_labels_def)

lemma wf_default [wf_intros]: "wf_labels default_labels"
  by (simp add: default_labels_def wf_labels_def)

lemma ls_with_spec:
  assumes "wf_labels s"
  shows "wf_labels (ls_with a s k v) \<and> labels_map (ls_with a s k v) = (labels_map s)(k \<mapsto> v)"
proof -
  let ?es = "ls_entries s"
  from assms have strict: "strict_keys ?es" by (simp add: wf_labels_def)
  show ?thesis
  proof (cases "binary_search_by (\<lambda>e. cmp (fst e) k) ?es")
    case (Found i)
    note i = key_search_Found [OF strict Found]
    have split: "?es = take i ?es @ (k, snd (?es ! i)) # drop (i + 1) ?es"
      using i by (metis Suc_eq_plus1 id_take_nth_drop prod.collapse)
    have strict': "strict_keys (take i ?es @ (k, w) # drop (i + 1) ?es)" for w
      using strict by (subst (asm) split) (auto simp: sorted_wrt_append)
    have notin: "k \<notin> fst ` set (take i ?es)"
      using strict' [of v] by (auto simp: sorted_wrt_append)
    have "map_of ?es = (map_of (take i ?es @ drop (i + 1) ?es))(k \<mapsto> snd (?es ! i))"
      using map_of_middle [OF notin] by (metis split)
    then have "map_of (take i ?es @ (k, v) # drop (i + 1) ?es) = (map_of ?es)(k \<mapsto> v)"
      using map_of_middle [OF notin] by simp
    then show ?thesis
      using Found strict' [of v]
      by (simp add: ls_with_def wf_labels_def labels_map_def Let_def)
  next
    case (Insert_at i)
    note i = key_search_Insert_at [OF strict Insert_at]
    note td = strict_keys_take_drop [OF strict, of i]
    have strict': "strict_keys (take i ?es @ (k, v) # drop i ?es)"
      using i td by (auto simp: sorted_wrt_append)
    have notin: "k \<notin> fst ` set (take i ?es)" using i(2) by auto
    have "map_of (take i ?es @ (k, v) # drop i ?es) = (map_of (take i ?es @ drop i ?es))(k \<mapsto> v)"
      by (rule map_of_middle [OF notin])
    then show ?thesis
      using Insert_at strict'
      by (simp add: ls_with_def wf_labels_def labels_map_def Let_def)
  qed
qed

lemma merge_loop_keys: "z \<in> set (merge_loop xs ys) \<Longrightarrow> z \<in> set xs \<union> set ys"
  by (induction xs ys rule: merge_loop.induct) (auto split: if_splits)

lemma merge_loop_strict:
  "strict_keys xs \<Longrightarrow> strict_keys ys \<Longrightarrow> strict_keys (merge_loop xs ys)"
proof (induction xs ys rule: merge_loop.induct)
  case (1 x xs y ys)
  consider "fst x < fst y" | "fst x = fst y" | "fst y < fst x" by (rule linorder_cases)
  then show ?case
    using 1 by cases (auto dest!: merge_loop_keys, force+)
qed auto

lemma merge_loop_map:
  "strict_keys xs \<Longrightarrow> strict_keys ys \<Longrightarrow> map_of (merge_loop xs ys) = map_of xs ++ map_of ys"
proof (induction xs ys rule: merge_loop.induct)
  case (1 x xs y ys)
  obtain kx vx ky vy where [simp]: "x = (kx, vx)" "y = (ky, vy)" by (cases x, cases y)
  have ys: "kx \<le> ky \<Longrightarrow> map_of ys kx = None"
    using 1(5) by (auto simp: map_of_eq_None_iff)
  have xs: "ky \<le> kx \<Longrightarrow> map_of xs ky = None"
    using 1(4) by (auto simp: map_of_eq_None_iff)
  consider "kx < ky" | "kx = ky" | "ky < kx" by (rule linorder_cases)
  then show ?case
  proof cases
    case 1
    with "1.IH"(1) "1.prems" ys show ?thesis
      by (auto simp: map_add_def fun_eq_iff split: option.splits)
  next
    case 2
    with "1.IH"(2) "1.prems" show ?thesis
      by (auto simp: map_add_def fun_eq_iff split: option.splits)
  next
    case 3
    with "1.IH"(3) "1.prems" xs show ?thesis
      by (auto simp: map_add_def fun_eq_iff split: option.splits)
  qed
qed auto

lemma ls_merge_spec:
  assumes "wf_labels s" "wf_labels t"
  shows "wf_labels (ls_merge a s t) \<and> labels_map (ls_merge a s t) = labels_map s ++ labels_map t"
  using assms
  by (simp add: ls_merge_def ls_is_empty_def wf_labels_def labels_map_def merge_loop_strict
      merge_loop_map)

lemma map_of_filter_restrict:
  "distinct (map fst es) \<Longrightarrow>
     map_of (filter (\<lambda>e. P (fst e) (snd e)) es) k =
       (case map_of es k of None \<Rightarrow> None | Some v \<Rightarrow> if P k v then Some v else None)"
  by (induction es) (auto simp: map_of_eq_None_iff rev_image_eqI split: option.splits)

lemma ls_filtered_spec:
  assumes "wf_labels s"
  shows "wf_labels (ls_filtered a keep s) \<and> labels_map (ls_filtered a keep s) k =
    (case labels_map s k of None \<Rightarrow> None | Some v \<Rightarrow> if keep k v then Some v else None)"
proof -
  let ?es = "filter (\<lambda>e. keep (fst e) (snd e)) (ls_entries s)"
  have "ls_entries (ls_filtered a keep s) = ?es"
    by (auto simp: ls_filtered_def Let_def)
      (metis filter_id_conv length_filter_less order_less_irrefl)
  with assms show ?thesis
    by (simp add: wf_labels_def labels_map_def strict_keys_filter map_of_filter_restrict
        strict_keys_distinct)
qed

text \<open>Label sets provide the finite-map interface, with contents equality as its equality.\<close>

definition same_labels :: "label_set \<Rightarrow> label_set \<Rightarrow> bool" where
  "same_labels s t \<longleftrightarrow> ls_entries s = ls_entries t"

lemma ls_get_labels_map: "wf_labels s \<Longrightarrow> ls_get s = labels_map s"
  by (simp add: fun_eq_iff ls_get_map)

lemma same_labels_iff:
  "wf_labels s \<Longrightarrow> wf_labels t \<Longrightarrow> same_labels s t \<longleftrightarrow> ls_get s = ls_get t"
  by (metis fun_eq_iff labels_map_def ls_get_map same_labels_def strict_keys_unique wf_labels_def)

interpretation lm: canonical_map_api wf_labels ls_get "ls_with a" "ls_merge b" "ls_filtered c"
    same_labels for a b c
  by unfold_locales
    (auto simp: ls_get_labels_map ls_with_spec ls_merge_spec ls_filtered_spec same_labels_iff)

text \<open>The source's own equality first compares the addresses. It is contents equality as long
  as the allocator never gives two live sets with different contents the same address.\<close>

lemma ls_eq_same:
  assumes "ptr_eq s t \<longrightarrow> ls_entries s = ls_entries t"
  shows "ls_eq s t \<longleftrightarrow> same_labels s t"
  using assms by (auto simp: ls_eq_def same_labels_def)

lemma ls_cmp_Equal:
  assumes "ptr_eq s t \<longrightarrow> ls_entries s = ls_entries t"
  shows "ls_cmp s t = Equal \<longleftrightarrow> ls_eq s t"
  using assms by (auto simp: ls_eq_def ls_cmp_def)

lemma fingerprint_entries: "ls_entries s = ls_entries t \<Longrightarrow> fingerprint s = fingerprint t"
  by (simp add: fingerprint_def)

subsection \<open>Reading a map keeps the last of repeated keys\<close>

lemma visit_loop_error:
  "Inl e \<in> set access \<Longrightarrow> \<exists>e'. visit_loop es srt access = Inl e' \<and> Inl e' \<in> set access"
proof (induction access arbitrary: es srt)
  case (Cons x access)
  then show ?case by (cases x) (fastforce simp: Let_def)+
qed simp

lemma visit_loop_ok:
  "srt = strict_keys es \<Longrightarrow>
     visit_loop es srt (map Inr kvs) = Inr (es @ kvs, strict_keys (es @ kvs))"
proof (induction kvs arbitrary: es srt)
  case (Cons kv kvs)
  have "(if es \<noteq> [] \<and> fst (last es) \<ge> fst kv then False else srt) = strict_keys (es @ [kv])"
    using Cons.prems unfolding strict_keys_snoc by auto
  from Cons.IH [OF this] show ?case by (simp add: Let_def)
qed simp

lemma dedup_keys_set: "set (dedup_keys xs) \<subseteq> set xs"
  by (induction xs rule: dedup_keys.induct) auto

lemma dedup_keys_strict: "sorted (map fst xs) \<Longrightarrow> strict_keys (dedup_keys xs)"
proof (induction xs rule: dedup_keys.induct)
  case (1 x y xs)
  show ?case
  proof (cases "fst y = fst x")
    case True
    with 1 show ?thesis by simp
  next
    case False
    with 1 have "fst x < fst y" "\<forall>z \<in> set (y # xs). fst y \<le> fst z" by auto
    then have "\<forall>z \<in> set (dedup_keys (y # xs)). fst x < fst z"
      using dedup_keys_set [of "y # xs"] by (meson order_less_le_trans subsetD)
    with False 1 show ?thesis by simp
  qed
qed auto

lemma dedup_keys_map: "map_of (dedup_keys xs) = map_of xs"
proof (induction xs rule: dedup_keys.induct)
  case (1 x y xs)
  then show ?case by (cases x, cases y) (auto simp: fun_eq_iff)
qed auto

lemma visit_map_ok:
  "\<exists>s. visit_map a (map Inr kvs) = Inr s \<and> wf_labels s \<and> labels_map s = map_of (rev kvs)"
proof (cases "strict_keys kvs")
  case True
  then have "map_of (rev kvs) = map_of kvs"
    by (metis distinct_rev map_of_inject_set rev_map set_rev strict_keys_distinct)
  with True show ?thesis
    by (simp add: visit_map_def visit_loop_ok wf_labels_def labels_map_def)
next
  case False
  then show ?thesis
    by (simp add: visit_map_def visit_loop_ok wf_labels_def labels_map_def dedup_keys_strict
        dedup_keys_map)
qed

subsection \<open>The interner is a bounded cache\<close>

definition wf_shard :: "intern_shard \<Rightarrow> bool" where
  "wf_shard sh \<longleftrightarrow>
     finite (dom (is_buckets sh))
     \<and> is_entries sh = (\<Sum>h \<in> dom (is_buckets sh). length (the (is_buckets sh h)))
     \<and> is_entries sh \<le> INTERN_SHARD_CAP
     \<and> (\<forall>h b. is_buckets sh h = Some b \<longrightarrow> (\<forall>s \<in> set b. wf_labels s))"

definition wf_interner :: "interner \<Rightarrow> bool" where
  "wf_interner st \<longleftrightarrow> length st = INTERN_SHARDS \<and> (\<forall>sh \<in> set st. wf_shard sh)"

lemma wf_interner_new [wf_intros]: "wf_interner interner_new"
  by (simp add: wf_interner_def interner_new_def wf_shard_def)

lemma sum_bucket_push:
  fixes m :: "'h \<rightharpoonup> 'x list"
  assumes "finite (dom m)"
  shows "(\<Sum>k \<in> dom (m(h \<mapsto> (case m h of None \<Rightarrow> [] | Some b \<Rightarrow> b) @ [x])).
            length (the ((m(h \<mapsto> (case m h of None \<Rightarrow> [] | Some b \<Rightarrow> b) @ [x])) k)))
       = (\<Sum>k \<in> dom m. length (the (m k))) + 1"
proof -
  have rest: "(\<Sum>k \<in> dom m - {h}. length (the ((m(h \<mapsto> y)) k)))
    = (\<Sum>k \<in> dom m - {h}. length (the (m k)))" for y
    by (rule sum.cong) auto
  show ?thesis
  proof (cases "m h")
    case None
    then have "h \<notin> dom m" by auto
    with None assms rest show ?thesis by (simp add: sum.insert_remove)
  next
    case (Some b)
    then have "h \<in> dom m" by auto
    with Some assms rest show ?thesis
      by (simp add: sum.insert_remove sum.remove insert_absorb)
  qed
qed

lemma wf_intern_insert [wf_intros]:
  assumes "wf_shard sh" "wf_labels built"
  shows "wf_shard (intern_insert h built sh)"
proof -
  define sh1 where "sh1 = (if is_entries sh \<ge> INTERN_SHARD_CAP
    then \<lparr>is_buckets = Map.empty, is_entries = 0\<rparr> else sh)"
  have sh1: "wf_shard sh1" "is_entries sh1 < INTERN_SHARD_CAP"
    using assms by (auto simp: sh1_def wf_shard_def INTERN_SHARD_CAP_def)
  let ?b = "(case is_buckets sh1 h of None \<Rightarrow> [] | Some b \<Rightarrow> b) @ [built]"
  have eq: "intern_insert h built sh =
    \<lparr>is_buckets = (is_buckets sh1)(h \<mapsto> ?b), is_entries = is_entries sh1 + 1\<rparr>"
    by (simp add: intern_insert_def sh1_def Let_def)
  have fin: "finite (dom (is_buckets sh1))" using sh1(1) by (simp add: wf_shard_def)
  have "\<forall>s \<in> set ?b. wf_labels s"
    using sh1(1) assms(2) by (cases "is_buckets sh1 h") (auto simp: wf_shard_def)
  then show ?thesis
    using sh1 sum_bucket_push [OF fin, of h built]
    by (simp add: eq wf_shard_def)
qed

lemma has_repeated_key_from_iff:
  "has_repeated_key_from seen es \<longleftrightarrow> \<not> distinct (map fst es) \<or> fst ` set seen \<inter> fst ` set es \<noteq> {}"
  by (induction es arbitrary: seen) (auto simp: list_ex_iff rev_image_eqI)

lemma has_repeated_key_iff: "has_repeated_key es \<longleftrightarrow> \<not> distinct (map fst es)"
  by (simp add: has_repeated_key_def has_repeated_key_from_iff)

lemma intern_hit_entries:
  assumes hit: "intern_hit pairs cand" and wf: "wf_labels cand" and dist: "distinct (map fst pairs)"
    and s: "try_from_iter a pairs = Inr s"
  shows "ls_entries cand = ls_entries s"
proof -
  have dist': "distinct (map fst (ls_entries cand))"
    using wf by (simp add: strict_keys_distinct wf_labels_def)
  have "\<forall>e \<in> set pairs. map_of (ls_entries cand) (fst e) = Some (snd e)"
    using hit by (simp add: intern_hit_def ls_get_map [OF wf] labels_map_def list_all_iff)
  then have "set pairs \<subseteq> set (ls_entries cand)"
    by (metis map_of_SomeD prod.collapse subsetI)
  moreover have "card (set pairs) = card (set (ls_entries cand))"
    using hit dist dist'
    by (simp add: intern_hit_def ls_len_def distinct_card distinct_map)
  ultimately have "set pairs = set (ls_entries cand)"
    by (simp add: card_subset_eq)
  then have "map_of (ls_entries cand) = map_of pairs"
    using dist dist' by (metis map_of_inject_set)
  then show ?thesis
    using labels_map_try_from_iter [OF s] wf try_from_iter_Inr(2) [OF s]
    by (metis labels_map_def strict_keys_unique wf_labels_def)
qed

lemma intern_cases:
  assumes wf: "wf_interner st" and res: "intern hp a st pairs = (r, st')"
  shows "wf_interner st' \<and>
    (case try_from_iter a pairs of
       Inl e \<Rightarrow> r = Inl e
     | Inr s \<Rightarrow> (\<exists>t. r = Inr t \<and> wf_labels t \<and> ls_entries t = ls_entries s))"
proof -
  consider (nil) "pairs = []" | (long) "pairs \<noteq> []" "length pairs > INTERN_MAX_PAIRS \<or> has_repeated_key pairs"
    | (tab) "pairs \<noteq> []" "\<not> length pairs > INTERN_MAX_PAIRS" "distinct (map fst pairs)"
    by (auto simp: has_repeated_key_iff)
  then show ?thesis
  proof cases
    case nil
    then have "r = Inr default_labels" "st' = st"
      using res by (simp_all add: intern_def)
    with nil wf show ?thesis
      by (simp add: try_from_iter_def default_labels_def wf_labels_def)
  next
    case long
    then have "r = try_from_iter a pairs" "st' = st"
      using res by (auto simp: intern_def)
    with wf show ?thesis
      by (auto split: sum.splits dest: try_from_iter_Inr(2))
  next
    case tab
    obtain s where s: "try_from_iter a pairs = Inr s"
      by (rule try_from_iter_total [OF tab(3)])
    let ?h = "hash_pairs hp pairs"
    let ?i = "unat ?h mod INTERN_SHARDS"
    let ?b = "case is_buckets (st ! ?i) ?h of None \<Rightarrow> [] | Some b \<Rightarrow> b"
    have i: "?i < length st" using wf by (simp add: wf_interner_def INTERN_SHARDS_def)
    then have sh: "wf_shard (st ! ?i)" using wf by (simp add: wf_interner_def)
    show ?thesis
    proof (cases "List.find (intern_hit pairs) ?b")
      case None
      then have "r = Inr s" "st' = st[?i := intern_insert ?h s (st ! ?i)]"
        using res tab s by (simp_all add: intern_def has_repeated_key_iff Let_def)
      moreover have "wf_interner (st[?i := intern_insert ?h s (st ! ?i)])"
        using wf i wf_intern_insert [OF sh try_from_iter_Inr(2) [OF s]]
        by (auto simp: wf_interner_def dest: set_update_subset_insert [THEN subsetD])
      ultimately show ?thesis using s try_from_iter_Inr(2) [OF s] by simp
    next
      case (Some cand)
      then have "r = Inr cand" "st' = st"
        using res tab s by (simp_all add: intern_def has_repeated_key_iff Let_def)
      moreover have "intern_hit pairs cand" "wf_labels cand"
        using Some sh by (auto simp: find_Some_iff wf_shard_def split: option.splits)
      ultimately show ?thesis
        using wf s intern_hit_entries [OF _ _ tab(3) s] by simp
    qed
  qed
qed

lemma intern_with_cases:
  assumes wf: "wf_interner st" "wf_labels base" and res: "intern_with hp a st base k v = (s, st')"
  shows "wf_interner st' \<and> ls_entries s = ls_entries (ls_with b base k v)"
proof -
  let ?pairs = "filter (\<lambda>e. fst e \<noteq> k) (ls_iter base) @ [(k, v)]"
  have es: "ls_iter base = ls_entries base" by (simp add: ls_iter_def)
  have strict: "strict_keys (ls_entries base)" using wf(2) by (simp add: wf_labels_def)
  have "distinct (map fst ?pairs)"
    using strict_keys_distinct [OF strict] by (auto simp: es distinct_map_filter)
  then obtain t where t: "try_from_iter a ?pairs = Inr t" by (rule try_from_iter_total)
  obtain r st'' where r: "intern hp a st ?pairs = (r, st'')" by fastforce
  from intern_cases [OF wf(1) r] t
  obtain u where u: "r = Inr u" "wf_labels u" "ls_entries u = ls_entries t" "wf_interner st''"
    by auto
  have "s = u" "st' = st''" using res r u(1) by (simp_all add: intern_with_def Let_def)
  have "map_of ?pairs = (map_of (ls_entries base))(k \<mapsto> v)"
    by (auto simp: es fun_eq_iff map_add_def map_of_filter_restrict
        [OF strict_keys_distinct [OF strict], of "\<lambda>x _. x \<noteq> k"] split: option.splits)
  then have "labels_map t = (labels_map base)(k \<mapsto> v)"
    by (metis labels_map_try_from_iter [OF t] labels_map_def)
  then have "ls_entries t = ls_entries (ls_with b base k v)"
    using ls_with_spec [OF wf(2), of b k v] try_from_iter_Inr(2) [OF t]
    by (metis labels_map_def strict_keys_unique wf_labels_def)
  with u \<open>s = u\<close> \<open>st' = st''\<close> show ?thesis by simp
qed

subsection \<open>Properties\<close>

text \<open>C35: Building a label set from pairs succeeds exactly when no key is repeated. It then
  holds a sorted permutation of the pairs and answers lookups as the map of the pairs does;
  otherwise the error names a key that was given at least twice.\<close>

theorem label_set_from_pairs:
  "case try_from_iter a pairs of
     Inr s \<Rightarrow> distinct (map fst pairs) \<and> wf_labels s \<and> mset (ls_entries s) = mset pairs
       \<and> ls_get s = map_of pairs
   | Inl e \<Rightarrow> \<not> distinct (map fst pairs)
       \<and> (\<exists>k. e = Validation (''Duplicate key found in label set: '' @ k)
            \<and> 2 \<le> count_list (map fst pairs) k)"
proof (cases "try_from_iter a pairs")
  case (Inl e)
  with try_from_iter_cases [where a = a and pairs = pairs] show ?thesis by simp
next
  case (Inr s)
  then show ?thesis
    using try_from_iter_Inr [OF Inr] labels_map_try_from_iter [OF Inr]
    by (simp add: ls_get_labels_map)
qed

text \<open>C36: Label sets implement finite maps. On well-formed sets \<open>with\<close> is a map update, \<open>merge\<close>
  is the map union in which the argument wins, \<open>filtered\<close> is a restriction, all three return
  well-formed sets, and two sets have equal contents exactly when they agree on every
  lookup.\<close>

theorem label_set_refines_map:
  assumes "wf_labels s" "wf_labels t"
  shows "wf_labels (ls_with a s k v) \<and> ls_get (ls_with a s k v) = (ls_get s)(k \<mapsto> v)
    \<and> wf_labels (ls_merge a s t) \<and> ls_get (ls_merge a s t) = ls_get s ++ ls_get t
    \<and> wf_labels (ls_filtered a keep s)
    \<and> ls_get (ls_filtered a keep s) l =
        (case ls_get s l of None \<Rightarrow> None | Some w \<Rightarrow> if keep l w then Some w else None)
    \<and> (ls_entries s = ls_entries t \<longleftrightarrow> ls_get s = ls_get t)"
  using assms
  by (simp only: lm.wfs lm.looks lm.same_iff [unfolded same_labels_def] simp_thms)

lemma label_set_refines_map_witness:
  "ls_get (ls_with 7 (from_sorted_unique 1 [(''a'', ''1''), (''c'', ''3'')]) ''b'' ''9'') ''b'' = Some ''9''
   \<and> ls_get (ls_merge 7 (from_sorted_unique 1 [(''a'', ''1''), (''c'', ''3'')])
        (from_sorted_unique 2 [(''c'', ''x'')])) ''c'' = Some ''x''"
proof -
  let ?s = "from_sorted_unique 1 [(''a'', ''1''), (''c'', ''3'')]"
  let ?t = "from_sorted_unique 2 [(''c'', ''x'')]"
  have wf: "wf_labels ?s" "wf_labels ?t" by (simp_all add: wf_labels_def)
  have "ls_get ?t ''c'' = Some ''x''"
    by (simp add: ls_get_map [OF wf(2)] labels_map_def)
  then show ?thesis
    using label_set_refines_map [OF wf, of 7 "''b''" "''9''"] by simp
qed

text \<open>C37: The contents, the order and the fingerprint of a label set do not depend on the order
  in which its pairs were given nor on the address it was allocated at.\<close>

theorem label_set_order_independent:
  assumes "mset pairs = mset pairs'"
    and "try_from_iter a pairs = Inr s" and "try_from_iter b pairs' = Inr t"
  shows "ls_eq s t \<and> ls_cmp s t = Equal \<and> ls_hash s = ls_hash t \<and> fingerprint s = fingerprint t"
  using try_from_iter_perm [OF assms] fingerprint_entries [OF try_from_iter_perm [OF assms]]
  by (simp add: ls_eq_def ls_cmp_def ls_hash_def)

lemma fnv_eat_pinned:
  "fnv_eat 0xcbf29ce484222325 [97] = 5952155467226901439"
  "fnv_eat 5952155467226901439 [49] = 4740109694566875965"
  "fnv_eat 4740109694566875965 [98] = 4601421125183463226"
  "fnv_eat 4601421125183463226 [50] = 5737741530060053291"
  by (simp_all add: fnv_eat_def u64_le_bytes_def upt_conv_Cons fnv_step_def)

lemma label_set_order_independent_witness:
  "ls_hash (from_sorted_unique 1 [(''a'', ''1''), (''b'', ''2'')]) = 4467025367253129411"
proof -
  have "try_from_iter 1 [(''b'', ''2''), (''a'', ''1'')] =
      Inr (from_sorted_unique 1 [(''a'', ''1''), (''b'', ''2'')])"
    by (simp add: try_from_iter_def)
  moreover have "try_from_iter 2 [(''a'', ''1''), (''b'', ''2'')] =
      Inr (from_sorted_unique 2 [(''a'', ''1''), (''b'', ''2'')])"
    by (simp add: try_from_iter_def)
  ultimately have "ls_hash (from_sorted_unique 1 [(''a'', ''1''), (''b'', ''2'')]) =
      ls_hash (from_sorted_unique 2 [(''a'', ''1''), (''b'', ''2'')])"
    using label_set_order_independent [of "[(''b'', ''2''), (''a'', ''1'')]"
        "[(''a'', ''1''), (''b'', ''2'')]"] by simp
  also have "\<dots> = 4467025367253129411"
    by (simp add: ls_hash_def fingerprint_def as_bytes_def fnv_eat_pinned splitmix_final_def)
  finally show ?thesis .
qed

text \<open>Reading a JSON object whose entries all arrive always succeeds; the set is well-formed,
  and where a key is repeated its last value is kept, whatever the order of the keys.\<close>

theorem label_set_read_last_wins:
  "\<exists>s. visit_map a (map Inr kvs) = Inr s \<and> wf_labels s \<and> ls_get s = map_of (rev kvs)"
  using visit_map_ok [of a kvs] by (auto simp: ls_get_labels_map)

text \<open>C38: The interner is transparent and bounded. Whatever it has cached, resolving pairs gives
  the same contents or the same error as building the set directly, the result is
  well-formed, and every shard keeps at most \<open>INTERN_SHARD_CAP\<close> sets.\<close>

theorem intern_transparent:
  assumes "wf_interner st" and "intern hp a st pairs = (r, st')"
  shows "wf_interner st' \<and> (\<forall>sh. sh \<in> set st' \<longrightarrow> is_entries sh \<le> 16384)
    \<and> (case try_from_iter a pairs of
         Inl e \<Rightarrow> r = Inl e
       | Inr s \<Rightarrow> (\<exists>t. r = Inr t \<and> wf_labels t \<and> ls_entries t = ls_entries s))"
  using intern_cases [OF assms]
  by (auto simp: wf_interner_def wf_shard_def INTERN_SHARD_CAP_def)

lemma intern_transparent_witness:
  "wf_interner (snd (intern (\<lambda>k v. 7) 5 interner_new [(''b'', ''2''), (''a'', ''1'')]))
   \<and> (\<exists>t. fst (intern (\<lambda>k v. 7) 5 interner_new [(''b'', ''2''), (''a'', ''1'')]) = Inr t
        \<and> ls_entries t = [(''a'', ''1''), (''b'', ''2'')])"
proof -
  have "try_from_iter 5 [(''b'', ''2''), (''a'', ''1'')] =
      Inr (from_sorted_unique 5 [(''a'', ''1''), (''b'', ''2'')])"
    by (simp add: try_from_iter_def)
  moreover obtain r st' where r: "intern (\<lambda>k v. 7) 5 interner_new [(''b'', ''2''), (''a'', ''1'')] = (r, st')"
    by (rule prod.exhaust)
  ultimately show ?thesis
    using intern_transparent [OF wf_interner_new r] unfolding r by auto
qed

end
