(* ===== verification/Text_Search.thy ===== *)
theory Text_Search
  imports Prelude "HOL-Library.Sublist"
begin

section \<open>Case-insensitive substring search\<close>

text \<open>
  The model of \<^verbatim>\<open>parqtel-core/src/text.rs\<close>. Text is a list of bytes. The vectorised byte
  searches come from the \<open>memchr\<close> crate, so they are the arguments \<open>mc\<close> and \<open>mc2\<close>; what the
  code relies on is their documented result, the first position of the byte (or of one of
  two bytes), stated by \<open>is_memchr\<close> and \<open>is_memchr2\<close>. The theory shows that the anchored
  search always ends and is plain substring search on lower-cased text, so the choice of the
  anchor byte never changes an answer.
\<close>

definition to_ascii_lowercase :: "byte \<Rightarrow> byte" where
  "to_ascii_lowercase b = (if 65 \<le> b \<and> b \<le> 90 then b + 32 else b)"

definition to_ascii_uppercase :: "byte \<Rightarrow> byte" where
  "to_ascii_uppercase b = (if 97 \<le> b \<and> b \<le> 122 then b - 32 else b)"

definition commonness :: "byte \<Rightarrow> nat" where
  "commonness b =
     (let c = to_ascii_lowercase b
      in if c = 32 then 255
         else if c = 101 then 250
         else if c = 116 then 240
         else if c = 97 then 235
         else if c = 111 then 230
         else if c = 105 then 225
         else if c = 110 then 220
         else if c = 115 then 215
         else if c = 114 then 210
         else if c \<in> {104, 108, 100} then 190
         else if c \<in> {99, 117, 109} then 170
         else if 48 \<le> c \<and> c \<le> 57 then 150
         else if c \<in> {102, 112, 103, 119, 121} then 140
         else if c \<in> {46, 45, 95, 47, 58, 44} then 120
         else if c \<in> {98, 118, 107} then 100
         else if c \<in> {120, 106, 113, 122} then 40
         else 20)"

text \<open>\<open>min_by_key\<close> returns the first of several minimal elements.\<close>

fun min_by_key :: "('a \<Rightarrow> nat) \<Rightarrow> 'a list \<Rightarrow> 'a option" where
  "min_by_key f [] = None"
| "min_by_key f (x # xs) =
     (case min_by_key f xs of
        None \<Rightarrow> Some x
      | Some y \<Rightarrow> if f y < f x then Some y else Some x)"

definition anchor_of :: "byte list \<Rightarrow> nat" where
  "anchor_of needle =
     (case min_by_key (\<lambda>i. commonness (needle ! i)) [0..<length needle] of
        None \<Rightarrow> 0 | Some i \<Rightarrow> i)"

type_synonym memchr_fn = "byte \<Rightarrow> byte list \<Rightarrow> nat option"
type_synonym memchr2_fn = "byte \<Rightarrow> byte \<Rightarrow> byte list \<Rightarrow> nat option"

definition ci_matches_at :: "byte list \<Rightarrow> byte list \<Rightarrow> nat \<Rightarrow> bool" where
  "ci_matches_at h n start \<longleftrightarrow>
     list_all (\<lambda>(x, y). to_ascii_lowercase x = y) (zip (take (length n) (drop start h)) n)"

definition ci_search :: "memchr_fn \<Rightarrow> memchr2_fn \<Rightarrow> byte \<Rightarrow> byte \<Rightarrow> byte list \<Rightarrow> nat option" where
  "ci_search mc mc2 lo up window = (if lo = up then mc lo window else mc2 lo up window)"

function find_ci_loop ::
  "memchr_fn \<Rightarrow> memchr2_fn \<Rightarrow> byte list \<Rightarrow> byte list \<Rightarrow> nat \<Rightarrow> byte \<Rightarrow> byte \<Rightarrow> nat \<Rightarrow> nat \<Rightarrow> bool" where
  "find_ci_loop mc mc2 h n a lo up lst frm =
     (if frm \<le> lst
      then case ci_search mc mc2 lo up (take (lst + 1 - frm) (drop frm h)) of
             None \<Rightarrow> False
           | Some offset \<Rightarrow>
               (let at = frm + offset; start = at - a
                in if ci_matches_at h n start then True
                   else find_ci_loop mc mc2 h n a lo up lst (at + 1))
      else False)"
  by pat_completeness auto
termination
  by (relation "measure (\<lambda>(mc, mc2, h, n, a, lo, up, lst, frm). lst + 1 - frm)") auto

declare find_ci_loop.simps [simp del]

definition find_ci :: "memchr_fn \<Rightarrow> memchr2_fn \<Rightarrow> byte list \<Rightarrow> byte list \<Rightarrow> nat \<Rightarrow> bool" where
  "find_ci mc mc2 h n anchor =
     (if n = [] then True
      else if length n > length h then False
      else find_ci_loop mc mc2 h n anchor
             (to_ascii_lowercase (n ! anchor)) (to_ascii_uppercase (n ! anchor))
             (length h - (length n - anchor)) anchor)"

record ci_needle =
  cn_lower :: "byte list"
  cn_anchor :: nat

definition ci_needle_new :: "byte list \<Rightarrow> ci_needle" where
  "ci_needle_new needle_lower =
     \<lparr>cn_lower = needle_lower, cn_anchor = anchor_of needle_lower\<rparr>"

definition is_in :: "memchr_fn \<Rightarrow> memchr2_fn \<Rightarrow> ci_needle \<Rightarrow> byte list \<Rightarrow> bool" where
  "is_in mc mc2 cn haystack = find_ci mc mc2 haystack (cn_lower cn) (cn_anchor cn)"

definition contains_ascii_ci :: "memchr_fn \<Rightarrow> memchr2_fn \<Rightarrow> byte list \<Rightarrow> byte list \<Rightarrow> bool" where
  "contains_ascii_ci mc mc2 haystack needle_lower =
     find_ci mc mc2 haystack needle_lower (anchor_of needle_lower)"

subsection \<open>What the byte searches promise\<close>

definition first_index :: "('a \<Rightarrow> bool) \<Rightarrow> 'a list \<Rightarrow> nat option" where
  "first_index p w = (if list_ex p w then Some (length (takeWhile (\<lambda>x. \<not> p x) w)) else None)"

definition is_memchr :: "memchr_fn \<Rightarrow> bool" where
  "is_memchr mc \<longleftrightarrow> (\<forall>b w. mc b w = first_index (\<lambda>x. x = b) w)"

definition is_memchr2 :: "memchr2_fn \<Rightarrow> bool" where
  "is_memchr2 mc2 \<longleftrightarrow> (\<forall>b c w. mc2 b c w = first_index (\<lambda>x. x = b \<or> x = c) w)"

lemma first_index_Some:
  assumes "first_index p w = Some i"
  shows "i < length w" "p (w ! i)" "\<forall>j<i. \<not> p (w ! j)"
proof -
  from assms have ex: "\<exists>x \<in> set w. p x" and i: "i = length (takeWhile (\<lambda>x. \<not> p x) w)"
    by (auto simp: first_index_def list_ex_iff split: if_splits)
  from ex have "takeWhile (\<lambda>x. \<not> p x) w \<noteq> w" by (metis set_takeWhileD)
  then show "i < length w"
    unfolding i by (metis length_takeWhile_le le_neq_implies_less takeWhile_eq_take take_all_iff
        order_refl)
  then show "p (w ! i)" unfolding i using nth_length_takeWhile by blast
  show "\<forall>j<i. \<not> p (w ! j)"
    unfolding i by (metis nth_mem set_takeWhileD takeWhile_nth)
qed

lemma first_index_None: "first_index p w = None \<Longrightarrow> j < length w \<Longrightarrow> \<not> p (w ! j)"
  by (auto simp: first_index_def list_ex_iff split: if_splits)

lemma ci_search_first:
  assumes "is_memchr mc" "is_memchr2 mc2"
  shows "ci_search mc mc2 lo up w = first_index (\<lambda>x. x = lo \<or> x = up) w"
  using assms by (simp add: ci_search_def is_memchr_def is_memchr2_def)

lemma lower_cases:
  "to_ascii_lowercase x = y \<Longrightarrow> x = to_ascii_lowercase y \<or> x = to_ascii_uppercase y"
  unfolding to_ascii_lowercase_def to_ascii_uppercase_def
  by (auto simp: word_le_nat_alt unat_word_ariths split: if_splits)

subsection \<open>The loop searches every admissible position\<close>

lemma ci_matches_at_iff:
  assumes "start + length n \<le> length h"
  shows "ci_matches_at h n start \<longleftrightarrow>
    take (length n) (drop start (map to_ascii_lowercase h)) = n"
proof -
  have len: "length (take (length n) (drop start h)) = length n" using assms by simp
  have "ci_matches_at h n start \<longleftrightarrow>
      list_all2 (\<lambda>x y. to_ascii_lowercase x = y) (take (length n) (drop start h)) n"
    using len by (auto simp: ci_matches_at_def list_all2_iff list_all_iff)
  also have "\<dots> \<longleftrightarrow> map to_ascii_lowercase (take (length n) (drop start h)) = n"
    by (auto simp: list_all2_conv_all_nth list_eq_iff_nth_eq)
  finally show ?thesis by (simp add: take_map drop_map)
qed

lemma find_ci_loop_iff:
  assumes "is_memchr mc" "is_memchr2 mc2" "a < length n" "length n \<le> length h" "a \<le> frm"
  shows "find_ci_loop mc mc2 h n a (to_ascii_lowercase (n ! a)) (to_ascii_uppercase (n ! a))
      (length h - (length n - a)) frm \<longleftrightarrow>
    (\<exists>start. frm \<le> start + a \<and> start + length n \<le> length h \<and> ci_matches_at h n start)"
    (is "?loop frm \<longleftrightarrow> ?ex frm")
  using assms(5)
proof (induction "length h - (length n - a) + 1 - frm" arbitrary: frm rule: less_induct)
  case less
  let ?last = "length h - (length n - a)"
  let ?p = "\<lambda>x. x = to_ascii_lowercase (n ! a) \<or> x = to_ascii_uppercase (n ! a)"
  let ?w = "take (?last + 1 - frm) (drop frm h)"
  have hit: "?p (h ! (start + a))"
    if "start + length n \<le> length h" "ci_matches_at h n start" for start
  proof -
    have "take (length n) (drop start (map to_ascii_lowercase h)) ! a = n ! a"
      using that ci_matches_at_iff by metis
    then have "to_ascii_lowercase (h ! (start + a)) = n ! a"
      using that(1) assms(3) by simp
    then show ?thesis by (rule lower_cases)
  qed
  have last_less: "?last < length h" using assms(3,4) by simp
  have wlen: "frm \<le> ?last \<Longrightarrow> length ?w = ?last + 1 - frm" using last_less by simp
  have wnth: "j < length ?w \<Longrightarrow> ?w ! j = h ! (frm + j)" for j by (auto simp: nth_drop)
  have inwin: "frm \<le> i \<Longrightarrow> i \<le> ?last \<Longrightarrow> i - frm < length ?w \<and> ?w ! (i - frm) = h ! i" for i
  proof -
    assume i: "frm \<le> i" "i \<le> ?last"
    then have "i - frm < length ?w" using wlen by linarith
    moreover have "?w ! (i - frm) = h ! i" using wnth [OF calculation] i by simp
    ultimately show ?thesis by blast
  qed
  show ?case
  proof (cases "frm \<le> ?last")
    case False
    have "\<not> ?ex frm" using False assms(3,4) by auto
    with False show ?thesis by (simp add: find_ci_loop.simps)
  next
    case True
    note search = ci_search_first [OF assms(1,2), of "to_ascii_lowercase (n ! a)"
        "to_ascii_uppercase (n ! a)" ?w]
    show ?thesis
    proof (cases "first_index ?p ?w")
      case None
      have "\<not> ?ex frm"
      proof
        assume "?ex frm"
        then obtain start where st: "frm \<le> start + a" "start + length n \<le> length h"
          "ci_matches_at h n start" by blast
        then have "start + a \<le> ?last" using assms(3) by simp
        with inwin [OF st(1)] first_index_None [OF None] hit [OF st(2,3)] show False by metis
      qed
      with True None search show ?thesis by (simp add: find_ci_loop.simps)
    next
      case (Some offset)
      let ?at = "frm + offset"
      note fi = first_index_Some [OF Some]
      have at: "?at \<le> ?last" using fi(1) wlen True by linarith
      have fits: "?at - a + length n \<le> length h" "?at - a + a = ?at"
        using at less.prems assms(3,4) by auto
      have skip: "frm \<le> start + a \<Longrightarrow> start + length n \<le> length h \<Longrightarrow> ci_matches_at h n start
          \<Longrightarrow> ?at \<le> start + a" for start
      proof (rule ccontr)
        assume st: "frm \<le> start + a" "start + length n \<le> length h" "ci_matches_at h n start"
          and "\<not> ?at \<le> start + a"
        then have "start + a - frm < offset" "start + a \<le> ?last" using at by auto
        with fi(3) inwin [OF st(1)] hit [OF st(2,3)] show False by metis
      qed
      have IH: "?loop (?at + 1) \<longleftrightarrow> ?ex (?at + 1)"
        by (rule less.hyps) (use at less.prems in auto)
      have unf: "?loop frm \<longleftrightarrow> ci_matches_at h n (?at - a) \<or> ?loop (?at + 1)"
        using True Some search by (subst find_ci_loop.simps) (simp add: Let_def)
      have "?ex frm \<longleftrightarrow> ci_matches_at h n (?at - a) \<or> ?ex (?at + 1)"
      proof
        assume "?ex frm"
        then obtain start where st: "frm \<le> start + a" "start + length n \<le> length h"
          "ci_matches_at h n start" by blast
        show "ci_matches_at h n (?at - a) \<or> ?ex (?at + 1)"
        proof (cases "start + a = ?at")
          case True
          then have "start = ?at - a" by simp
          with st show ?thesis by simp
        next
          case False
          with skip [OF st] have "?at + 1 \<le> start + a" by simp
          with st show ?thesis by blast
        qed
      next
        assume "ci_matches_at h n (?at - a) \<or> ?ex (?at + 1)"
        then show "?ex frm"
        proof
          assume "ci_matches_at h n (?at - a)"
          with fits show ?thesis by (intro exI [of _ "?at - a"]) simp
        next
          assume "?ex (?at + 1)"
          then show ?thesis by (meson add_leD1 le_add1 order_trans)
        qed
      qed
      with unf IH show ?thesis by simp
    qed
  qed
qed

lemma sublist_iff_at:
  "sublist n xs \<longleftrightarrow> (\<exists>i. i + length n \<le> length xs \<and> take (length n) (drop i xs) = n)"
proof
  assume "sublist n xs"
  then obtain ps ss where "xs = ps @ n @ ss" by (auto simp: sublist_def)
  then show "\<exists>i. i + length n \<le> length xs \<and> take (length n) (drop i xs) = n"
    by (intro exI [of _ "length ps"]) simp
next
  assume "\<exists>i. i + length n \<le> length xs \<and> take (length n) (drop i xs) = n"
  then obtain i where "take (length n) (drop i xs) = n" by blast
  then have "xs = take i xs @ n @ drop (length n) (drop i xs)"
    by (metis append_take_drop_id)
  then show "sublist n xs" by (metis sublist_appendI)
qed

lemma min_by_key_mem: "min_by_key f xs = Some x \<Longrightarrow> x \<in> set xs"
  by (induction xs arbitrary: x) (auto split: option.splits if_splits)

lemma min_by_key_None: "min_by_key f xs = None \<longleftrightarrow> xs = []"
  by (cases xs) (auto split: option.splits)

lemma anchor_of_less: "n \<noteq> [] \<Longrightarrow> anchor_of n < length n"
  by (auto simp: anchor_of_def min_by_key_None split: option.splits dest!: min_by_key_mem)

lemma find_ci_sublist:
  assumes "is_memchr mc" "is_memchr2 mc2" "n = [] \<or> anchor < length n"
  shows "find_ci mc mc2 h n anchor \<longleftrightarrow> sublist n (map to_ascii_lowercase h)"
proof -
  consider "n = []" | "n \<noteq> []" "length h < length n" | "anchor < length n" "length n \<le> length h"
    using assms(3) by fastforce
  then show ?thesis
  proof cases
    case 1
    then show ?thesis by (simp add: find_ci_def)
  next
    case 2
    then show ?thesis by (auto simp: find_ci_def sublist_iff_at)
  next
    case 3
    then have "n \<noteq> []" by auto
    with 3 show ?thesis
      using find_ci_loop_iff [OF assms(1,2) 3 order_refl] ci_matches_at_iff [of _ n h]
      by (auto simp: find_ci_def sublist_iff_at)
  qed
qed

subsection \<open>Properties\<close>

text \<open>The anchored search is substring search on lower-cased text: for every haystack and
  needle, a prepared needle and the one-shot test both answer whether the needle occurs in
  the haystack with its ASCII letters lowered.\<close>

theorem ci_search_is_substring:
  assumes "is_memchr mc" and "is_memchr2 mc2"
  shows "contains_ascii_ci mc mc2 h n = sublist n (map to_ascii_lowercase h)
    \<and> is_in mc mc2 (ci_needle_new n) h = sublist n (map to_ascii_lowercase h)"
  using find_ci_sublist [OF assms, of n "anchor_of n" h] anchor_of_less [of n]
  by (auto simp: contains_ascii_ci_def is_in_def ci_needle_new_def)

lemma ci_search_is_substring_witness:
  "contains_ascii_ci (\<lambda>b. first_index (\<lambda>x. x = b)) (\<lambda>b c. first_index (\<lambda>x. x = b \<or> x = c))
     [84, 73, 77, 69] [105, 109]"
proof -
  have mc: "is_memchr (\<lambda>b. first_index (\<lambda>x. x = b))"
    "is_memchr2 (\<lambda>b c. first_index (\<lambda>x. x = b \<or> x = c))"
    by (simp_all add: is_memchr_def is_memchr2_def)
  have "map to_ascii_lowercase [84, 73, 77, 69] = [116] @ [105, 109] @ [101]"
    by (simp add: to_ascii_lowercase_def)
  then have "sublist [105, 109] (map to_ascii_lowercase [84, 73, 77, 69])"
    by (metis sublist_appendI)
  with ci_search_is_substring [OF mc, of "[84, 73, 77, 69]" "[105, 109]"]
  show ?thesis by simp
qed

end
