(* ===== verification/Wal.thy ===== *)
theory Wal
  imports Prelude "HOL-Library.AList"
begin

unbundle bit_operations_syntax

section \<open>The write-ahead log\<close>

text \<open>
  The model of \<^verbatim>\<open>parqtel-core/src/wal.rs\<close>. A signal's WAL directory is a record with its
  segment files, keyed by their sequence number, and the text of its commit file. Segment
  files are lists of bytes. Positions are 64-bit words, \<open>(segment << 32) | (offset + 1)\<close>, with
  the source's shifts and wrap-around; file offsets inside a loop over the bytes of one file
  are natural numbers.

  The payload of a record is written and read by \<open>serde_json\<close> and checked with
  \<open>crc32fast\<close>; both are arguments (\<open>ser\<close>, \<open>de\<close>, \<open>crc\<close>). Every fallible file operation has an
  outcome in an argument: \<open>append_io\<close> for an append, an error map for replay. A failed
  \<open>write\<close> or \<open>flush\<close> may have put any prefix of the pending bytes into the file.

  The theory abstracts a directory to the list of its records with their positions and shows
  that an append adds exactly its records at the end, that replay returns exactly the
  records above the commit point, that a commit never removes a record it does not cover,
  and that a crash in the middle of a write costs no acknowledged record.
\<close>

subsection \<open>Little-endian integers and decimal text\<close>

definition u32_le_bytes :: "u32 \<Rightarrow> byte list" where
  "u32_le_bytes w = map (\<lambda>i. ucast (drop_bit (8 * i) w)) [0..<4]"

definition u32_from_le_bytes :: "byte list \<Rightarrow> u32" where
  "u32_from_le_bytes bs = foldr (\<lambda>b acc. ucast b OR push_bit 8 acc) bs 0"

fun dec_string :: "nat \<Rightarrow> string" where
  "dec_string n =
     (if n < 10 then [char_of (48 + n)] else dec_string (n div 10) @ [char_of (48 + n mod 10)])"

declare dec_string.simps [simp del]

definition u64_to_string :: "u64 \<Rightarrow> string" where
  "u64_to_string w = dec_string (unat w)"

text \<open>The digit loop of \<open>u64::from_str\<close>: checked multiplication and addition, \<open>None\<close> on a
  character that is no digit and on overflow.\<close>

fun parse_digits :: "nat \<Rightarrow> string \<Rightarrow> nat option" where
  "parse_digits acc [] = Some acc"
| "parse_digits acc (c # cs) =
     (let d = (of_char c :: nat)
      in if d < 48 \<or> 57 < d then None
         else if acc * 10 + (d - 48) < 2 ^ 64 then parse_digits (acc * 10 + (d - 48)) cs
         else None)"

definition parse_u64 :: "string \<Rightarrow> u64 option" where
  "parse_u64 s =
     (case s of
        [] \<Rightarrow> None
      | c # cs \<Rightarrow>
          if c = CHR ''+'' then (if cs = [] then None else map_option of_nat (parse_digits 0 cs))
          else map_option of_nat (parse_digits 0 s))"

definition is_space :: "char \<Rightarrow> bool" where
  "is_space c \<longleftrightarrow> c = CHR '' '' \<or> (9 \<le> (of_char c :: nat) \<and> (of_char c :: nat) \<le> 13)"

definition trim_str :: "string \<Rightarrow> string" where
  "trim_str s = rev (dropWhile is_space (rev (dropWhile is_space s)))"

subsection \<open>Positions\<close>

definition RECORD_HEADER_LEN :: nat where "RECORD_HEADER_LEN = 8"

definition DEFAULT_MAX_SEGMENT_BYTES :: u64 where
  "DEFAULT_MAX_SEGMENT_BYTES = 64 * 1024 * 1024"

datatype wal_sync_mode = SyncNone | SyncInterval | SyncAlways

type_synonym wal_position = u64

definition START :: wal_position where "START = 0"

definition pos_segment :: "wal_position \<Rightarrow> u64" where
  "pos_segment p = drop_bit 32 p"

definition pos_offset :: "wal_position \<Rightarrow> u64" where
  "pos_offset p = p AND 0xffffffff"

definition is_covered_by :: "wal_position \<Rightarrow> wal_position \<Rightarrow> bool" where
  "is_covered_by p commit \<longleftrightarrow> p \<le> commit"

definition show_position :: "wal_position \<Rightarrow> string" where
  "show_position p = u64_to_string (pos_segment p) @ '':'' @ u64_to_string (pos_offset p)"

text \<open>The position of the end of a record: \<open>(seq << 32) | (end + 1)\<close>.\<close>

definition mk_position :: "u64 \<Rightarrow> u64 \<Rightarrow> wal_position" where
  "mk_position seg off = push_bit 32 seg OR (off + 1)"

subsection \<open>The directory and its files\<close>

record wal_dir =
  wd_segs :: "(u64 \<times> byte list) list"
  wd_commit :: "string option"

definition empty_dir :: wal_dir where
  "empty_dir = \<lparr>wd_segs = [], wd_commit = None\<rparr>"

definition segments :: "wal_dir \<Rightarrow> u64 list" where
  "segments d = sort (map fst (wd_segs d))"

definition seg_bytes :: "wal_dir \<Rightarrow> u64 \<Rightarrow> byte list" where
  "seg_bytes d seq = (case map_of (wd_segs d) seq of None \<Rightarrow> [] | Some bs \<Rightarrow> bs)"

definition write_seg :: "u64 \<Rightarrow> byte list \<Rightarrow> wal_dir \<Rightarrow> wal_dir" where
  "write_seg seq bs d = d\<lparr>wd_segs := AList.update seq bs (wd_segs d)\<rparr>"

definition remove_seg :: "u64 \<Rightarrow> wal_dir \<Rightarrow> wal_dir" where
  "remove_seg seq d = d\<lparr>wd_segs := AList.delete seq (wd_segs d)\<rparr>"

definition wal_size_of :: "wal_dir \<Rightarrow> nat" where
  "wal_size_of d = sum_list (map (\<lambda>f. length (snd f)) (wd_segs d))"

definition wal_size :: "wal_dir list \<Rightarrow> nat" where
  "wal_size signals = sum_list (map wal_size_of signals)"

subsection \<open>Record framing\<close>

definition encode_record_into ::
  "('v \<Rightarrow> string + byte list) \<Rightarrow> (byte list \<Rightarrow> u32) \<Rightarrow> 'v \<Rightarrow> byte list \<Rightarrow> byte list result" where
  "encode_record_into ser crc value out =
     (let start = length out;
          out1 = out @ replicate RECORD_HEADER_LEN 0
      in case ser value of
           Inl e \<Rightarrow> Inl (Serde e)
         | Inr payload \<Rightarrow>
             (let out2 = out1 @ payload;
                  payload_len = length out2 - start - RECORD_HEADER_LEN;
                  c = crc (drop (start + RECORD_HEADER_LEN) out2);
                  out3 = take start out2 @ u32_le_bytes (of_nat payload_len) @ drop (start + 4) out2
              in Inr (take (start + 4) out3 @ u32_le_bytes c @ drop (start + 8) out3)))"

definition encode_record ::
  "('v \<Rightarrow> string + byte list) \<Rightarrow> (byte list \<Rightarrow> u32) \<Rightarrow> 'v \<Rightarrow> byte list result" where
  "encode_record ser crc value = encode_record_into ser crc value []"

subsection \<open>The commit file\<close>

definition write_commit :: "wal_position \<Rightarrow> wal_dir \<Rightarrow> wal_dir" where
  "write_commit p d = d\<lparr>wd_commit := Some (u64_to_string p)\<rparr>"

definition read_commit_inner :: "wal_dir \<Rightarrow> wal_position option" where
  "read_commit_inner d =
     (case wd_commit d of None \<Rightarrow> None | Some s \<Rightarrow> parse_u64 (trim_str s))"

definition read_commit :: "wal_dir \<Rightarrow> wal_position" where
  "read_commit d = (case read_commit_inner d of None \<Rightarrow> START | Some p \<Rightarrow> p)"

definition commit_position :: "error option \<Rightarrow> wal_position \<Rightarrow> wal_dir \<Rightarrow> unit result \<times> wal_dir" where
  "commit_position io p d =
     (case io of Some e \<Rightarrow> (Inl e, d) | None \<Rightarrow> (Inr (), write_commit p d))"

subsection \<open>Opening a segment\<close>

text \<open>The loop of \<open>last_complete_offset\<close>; \<open>checked_add\<close> on \<open>usize\<close> fails at \<open>2 ^ 64\<close>.\<close>

function last_complete_from :: "byte list \<Rightarrow> nat \<Rightarrow> nat" where
  "last_complete_from bytes offset =
     (if offset + RECORD_HEADER_LEN \<le> length bytes
      then let len = unat (u32_from_le_bytes (take 4 (drop offset bytes)));
               body = offset + RECORD_HEADER_LEN
           in if body + len \<ge> 2 ^ 64 then offset
              else if body + len > length bytes then offset
              else last_complete_from bytes (body + len)
      else offset)"
  by pat_completeness auto
termination
  by (relation "measure (\<lambda>(bytes, offset). length bytes - offset)")
    (auto simp: RECORD_HEADER_LEN_def)

declare last_complete_from.simps [simp del]

definition last_complete_offset :: "byte list \<Rightarrow> nat" where
  "last_complete_offset bytes = last_complete_from bytes 0"

definition open_or_create_segment :: "u64 \<Rightarrow> wal_dir \<Rightarrow> u64 \<times> wal_dir" where
  "open_or_create_segment seg d =
     (case map_of (wd_segs d) seg of
        None \<Rightarrow> (0, write_seg seg [] d)
      | Some bytes \<Rightarrow>
          (let off = last_complete_offset bytes
           in (of_nat off, write_seg seg (take off bytes) d)))"

subsection \<open>The writer\<close>

record wal_writer =
  ww_segment :: u64
  ww_buf :: "byte list"
  ww_offset :: u64
  ww_sync_mode :: wal_sync_mode
  ww_max_segment_bytes :: u64
  ww_poisoned :: "string option"

definition open_with_segment_limit ::
  "error option \<Rightarrow> wal_sync_mode \<Rightarrow> u64 \<Rightarrow> wal_dir \<Rightarrow> (wal_writer \<times> wal_dir) result" where
  "open_with_segment_limit io mode max_bytes d =
     (case io of
        Some e \<Rightarrow> Inl e
      | None \<Rightarrow>
          (let seg = (if segments d = [] then 0
                      else let l = last (segments d)
                           in if of_nat (length (seg_bytes d l)) \<ge> max max_bytes 1
                              then l + 1 else l);
               (off, d') = open_or_create_segment seg d
           in Inr (\<lparr>ww_segment = seg, ww_buf = [], ww_offset = off, ww_sync_mode = mode,
                     ww_max_segment_bytes = max max_bytes 1, ww_poisoned = None\<rparr>, d')))"

definition open_wal :: "error option \<Rightarrow> wal_sync_mode \<Rightarrow> wal_dir \<Rightarrow> (wal_writer \<times> wal_dir) result" where
  "open_wal io mode d = open_with_segment_limit io mode DEFAULT_MAX_SEGMENT_BYTES d"

definition position :: "wal_writer \<Rightarrow> wal_position" where
  "position w = mk_position (ww_segment w) (ww_offset w)"

text \<open>The outcomes of the file operations of one append: an error of the write and how many
  pending bytes reached the file all the same; an error of the flush, of the \<open>fsync\<close> and
  open of a roll, of the final \<open>fsync\<close>; and whether the sync interval has elapsed.\<close>

record append_io =
  ai_write :: "string option"
  ai_flush :: "error option"
  ai_written :: nat
  ai_roll_sync :: "error option"
  ai_roll_open :: "error option"
  ai_elapsed :: bool
  ai_sync :: "error option"

definition io_ok :: append_io where
  "io_ok = \<lparr>ai_write = None, ai_flush = None, ai_written = 0, ai_roll_sync = None,
            ai_roll_open = None, ai_elapsed = False, ai_sync = None\<rparr>"

definition roll ::
  "append_io \<Rightarrow> wal_writer \<Rightarrow> wal_dir \<Rightarrow> unit result \<times> wal_writer \<times> wal_dir" where
  "roll io w d =
     (case ai_roll_sync io of
        Some e \<Rightarrow> (Inl e, w, d)
      | None \<Rightarrow>
          (case ai_roll_open io of
             Some e \<Rightarrow> (Inl e, w, d)
           | None \<Rightarrow>
               (let nxt = ww_segment w + 1;
                    (off, d') = open_or_create_segment nxt d
                in (Inr (), w\<lparr>ww_segment := nxt, ww_buf := [], ww_offset := off\<rparr>, d'))))"

definition maybe_sync :: "append_io \<Rightarrow> wal_writer \<Rightarrow> unit result" where
  "maybe_sync io w =
     (let should = (case ww_sync_mode w of
                      SyncNone \<Rightarrow> False | SyncAlways \<Rightarrow> True | SyncInterval \<Rightarrow> ai_elapsed io)
      in if \<not> should then Inr ()
         else case ai_sync io of Some e \<Rightarrow> Inl e | None \<Rightarrow> Inr ())"

definition append_encoded ::
  "append_io \<Rightarrow> wal_writer \<Rightarrow> wal_dir \<Rightarrow> byte list
     \<Rightarrow> wal_position result \<times> wal_writer \<times> wal_dir" where
  "append_encoded io w d records =
     (case ww_poisoned w of
        Some err \<Rightarrow> (Inl (Internal (''WAL writer is poisoned: '' @ err)), w, d)
      | None \<Rightarrow>
          (let seg = ww_segment w;
               pending = ww_buf w @ records;
               put = (\<lambda>n. write_seg seg (seg_bytes d seg @ take n pending) d)
           in case ai_write io of
                Some msg \<Rightarrow>
                  (Inl (Io msg),
                   w\<lparr>ww_poisoned := Some msg, ww_buf := drop (ai_written io) pending\<rparr>,
                   put (ai_written io))
              | None \<Rightarrow>
                  (let w1 = w\<lparr>ww_offset := ww_offset w + of_nat (length records)\<rparr>
                   in case ai_flush io of
                        Some e \<Rightarrow>
                          (Inl e, w1\<lparr>ww_buf := drop (ai_written io) pending\<rparr>, put (ai_written io))
                      | None \<Rightarrow>
                          (let w2 = w1\<lparr>ww_buf := []\<rparr>;
                               d2 = put (length pending);
                               pos = position w2;
                               (r, w3, d3) =
                                 (if ww_offset w2 \<ge> ww_max_segment_bytes w2 then roll io w2 d2
                                  else (Inr (), w2, d2))
                           in case r of
                                Inl e \<Rightarrow> (Inl e, w3, d3)
                              | Inr _ \<Rightarrow>
                                  (case maybe_sync io w3 of
                                     Inl e \<Rightarrow> (Inl e, w3, d3)
                                   | Inr _ \<Rightarrow> (Inr pos, w3, d3))))))"

definition append ::
  "('v \<Rightarrow> string + byte list) \<Rightarrow> (byte list \<Rightarrow> u32) \<Rightarrow> append_io \<Rightarrow> wal_writer \<Rightarrow> wal_dir \<Rightarrow> 'v
     \<Rightarrow> wal_position result \<times> wal_writer \<times> wal_dir" where
  "append ser crc io w d value =
     (case ww_poisoned w of
        Some err \<Rightarrow> (Inl (Internal (''WAL writer is poisoned: '' @ err)), w, d)
      | None \<Rightarrow>
          (case encode_record ser crc value of
             Inl e \<Rightarrow>
               (Inl e, w\<lparr>ww_poisoned := Some (error_to_string e)\<rparr>, d)
           | Inr record \<Rightarrow> append_encoded io w d record))"

subsection \<open>Committing and discarding\<close>

text \<open>Removing the leading segments that satisfy \<open>p\<close>; \<open>rm\<close> tells which \<open>remove_file\<close> calls
  succeed, a failed one leaves the file. The count is of the successful ones.\<close>

fun remove_while ::
  "(u64 \<Rightarrow> bool) \<Rightarrow> (u64 \<Rightarrow> bool) \<Rightarrow> u64 list \<Rightarrow> wal_dir \<Rightarrow> nat \<times> wal_dir" where
  "remove_while rm p [] d = (0, d)"
| "remove_while rm p (seq # seqs) d =
     (if \<not> p seq then (0, d)
      else if rm seq then map_prod Suc id (remove_while rm p seqs (remove_seg seq d))
      else remove_while rm p seqs d)"

definition remove_covered_segments :: "(u64 \<Rightarrow> bool) \<Rightarrow> wal_position \<Rightarrow> wal_dir \<Rightarrow> wal_dir" where
  "remove_covered_segments rm cp d =
     snd (remove_while rm (\<lambda>seq. \<not> seq \<ge> pos_segment cp) (segments d) d)"

definition commit ::
  "error option \<Rightarrow> (u64 \<Rightarrow> bool) \<Rightarrow> wal_position \<Rightarrow> wal_dir \<Rightarrow> unit result \<times> wal_dir" where
  "commit io rm p d =
     (if p = START then (Inr (), d)
      else case io of
             Some e \<Rightarrow> (Inl e, d)
           | None \<Rightarrow> (Inr (), remove_covered_segments rm p (write_commit p d)))"

definition discard_covered :: "(u64 \<Rightarrow> bool) \<Rightarrow> wal_position \<Rightarrow> wal_dir \<Rightarrow> nat \<times> wal_dir" where
  "discard_covered rm through d =
     remove_while rm (\<lambda>seq. \<not> seq > pos_segment through) (segments d) d"

subsection \<open>Replay\<close>

record replay_stats =
  rs_records :: nat
  rs_skipped :: nat
  rs_truncated_bytes :: nat
  rs_segments_removed :: nat

definition no_stats :: replay_stats where
  "no_stats = \<lparr>rs_records = 0, rs_skipped = 0, rs_truncated_bytes = 0, rs_segments_removed = 0\<rparr>"

text \<open>The loop over one segment: the values handed to the caller so far, the counters, and
  where the first unusable record starts, if there is one.\<close>

function replay_loop ::
  "(byte list \<Rightarrow> 'v option) \<Rightarrow> (byte list \<Rightarrow> u32) \<Rightarrow> wal_position \<Rightarrow> u64 \<Rightarrow> byte list \<Rightarrow> nat
     \<Rightarrow> 'v list \<Rightarrow> replay_stats \<Rightarrow> 'v list \<times> replay_stats \<times> nat option" where
  "replay_loop de crc cp seq bytes offset vs st =
     (if offset + RECORD_HEADER_LEN \<le> length bytes
      then let len = unat (u32_from_le_bytes (take 4 (drop offset bytes)));
               want_crc = u32_from_le_bytes (take 4 (drop (offset + 4) bytes));
               body_start = offset + RECORD_HEADER_LEN;
               body_end = body_start + len
           in if body_end \<ge> 2 ^ 64 then (vs, st, Some offset)
              else if body_end > length bytes then (vs, st, Some offset)
              else let payload = take len (drop body_start bytes)
                   in if crc payload \<noteq> want_crc then (vs, st, Some offset)
                      else let pos = mk_position seq (of_nat body_end)
                           in if is_covered_by pos cp
                              then replay_loop de crc cp seq bytes body_end vs
                                     (st\<lparr>rs_skipped := rs_skipped st + 1\<rparr>)
                              else case de payload of
                                     Some v \<Rightarrow>
                                       replay_loop de crc cp seq bytes body_end (vs @ [v])
                                         (st\<lparr>rs_records := rs_records st + 1\<rparr>)
                                   | None \<Rightarrow>
                                       replay_loop de crc cp seq bytes body_end vs
                                         (st\<lparr>rs_skipped := rs_skipped st + 1\<rparr>)
      else (vs, st, None))"
  by pat_completeness auto
termination
  by (relation "measure (\<lambda>(de, crc, cp, seq, bytes, offset, vs, st). length bytes - offset)")
    (auto simp: RECORD_HEADER_LEN_def)

declare replay_loop.simps [simp del]

text \<open>The loop over the segments; \<open>ioerr\<close> is the outcome of reading (and, where needed,
  truncating) a segment. Values handed out before an error stay handed out.\<close>

fun replay_segments ::
  "(byte list \<Rightarrow> 'v option) \<Rightarrow> (byte list \<Rightarrow> u32) \<Rightarrow> (u64 \<Rightarrow> error option) \<Rightarrow> wal_position
     \<Rightarrow> u64 list \<Rightarrow> 'v list \<Rightarrow> replay_stats \<Rightarrow> wal_dir \<Rightarrow> replay_stats result \<times> 'v list \<times> wal_dir" where
  "replay_segments de crc ioerr cp [] vs st d = (Inr st, vs, d)"
| "replay_segments de crc ioerr cp (seq # seqs) vs st d =
     (case ioerr seq of
        Some e \<Rightarrow> (Inl e, vs, d)
      | None \<Rightarrow>
          (let bytes = seg_bytes d seq;
               (vs', st', bad) = replay_loop de crc cp seq bytes 0 vs st
           in case bad of
                None \<Rightarrow> replay_segments de crc ioerr cp seqs vs' st' d
              | Some at \<Rightarrow>
                  replay_segments de crc ioerr cp seqs vs'
                    (st'\<lparr>rs_truncated_bytes := rs_truncated_bytes st' + (length bytes - at)\<rparr>)
                    (write_seg seq (take at bytes) d)))"

definition replay ::
  "(byte list \<Rightarrow> 'v option) \<Rightarrow> (byte list \<Rightarrow> u32) \<Rightarrow> (u64 \<Rightarrow> error option) \<Rightarrow> wal_position
     \<Rightarrow> wal_dir \<Rightarrow> replay_stats result \<times> 'v list \<times> wal_dir" where
  "replay de crc ioerr cp d = replay_segments de crc ioerr cp (segments d) [] no_stats d"

subsection \<open>Block coverage\<close>

definition encode_wal_range :: "u64 \<times> u64 \<Rightarrow> string" where
  "encode_wal_range r = u64_to_string (fst r) @ ''-'' @ u64_to_string (snd r)"

fun split_once :: "char \<Rightarrow> string \<Rightarrow> (string \<times> string) option" where
  "split_once c [] = None"
| "split_once c (x # xs) =
     (if x = c then Some ([], xs)
      else map_option (\<lambda>(a, b). (x # a, b)) (split_once c xs))"

definition decode_wal_range :: "string \<Rightarrow> (u64 \<times> u64) option" where
  "decode_wal_range value =
     (case split_once (CHR ''-'') value of
        None \<Rightarrow> None
      | Some (f, t) \<Rightarrow>
          (case parse_u64 f of
             None \<Rightarrow> None
           | Some frm \<Rightarrow>
               (case parse_u64 t of
                  None \<Rightarrow> None
                | Some to \<Rightarrow> if frm \<le> to then Some (frm, to) else None)))"

text \<open>One step of \<open>covered_through\<close>: the furthest end of a range that starts at or below \<open>at\<close>
  and ends above it.\<close>

definition next_covered :: "u64 \<Rightarrow> (u64 \<times> u64) list \<Rightarrow> u64 option" where
  "next_covered at ranges =
     (let tos = map snd (filter (\<lambda>r. fst r \<le> at \<and> snd r > at) ranges)
      in if tos = [] then None else Some (fold max tos 0))"

lemma next_covered_greater:
  assumes h: "next_covered at ranges = Some to"
  shows "at < to"
proof -
  let ?tos = "map snd (filter (\<lambda>r. fst r \<le> at \<and> snd r > at) ranges)"
  from h have ne: "?tos \<noteq> []" and to: "to = fold max ?tos 0"
    by (auto simp: next_covered_def Let_def split: if_splits)
  have "hd ?tos \<in> set ?tos" using ne by (rule hd_in_set)
  moreover from this have "hd ?tos \<le> to" unfolding to by (intro fold_max_ge) simp
  ultimately show "at < to" by auto
qed

function covered_from :: "(u64 \<times> u64) list \<Rightarrow> u64 \<Rightarrow> u64" where
  "covered_from ranges at =
     (case next_covered at ranges of Some to \<Rightarrow> covered_from ranges to | None \<Rightarrow> at)"
  by pat_completeness auto
termination
proof (relation "measure (\<lambda>(ranges, at). 2 ^ 64 - unat at)", goal_cases)
  case (2 ranges at to)
  then have "unat at < unat to" using next_covered_greater word_less_nat_alt by blast
  moreover have "unat to < 2 ^ 64" by (rule u64_lt)
  ultimately show ?case by simp
qed simp

declare covered_from.simps [simp del]

definition covered_through :: "wal_position \<Rightarrow> (u64 \<times> u64) list \<Rightarrow> wal_position" where
  "covered_through cp ranges = covered_from ranges cp"

subsection \<open>Codec round trips\<close>

lemma u32_le_bytes_length [simp]: "length (u32_le_bytes w) = 4"
  by (simp add: u32_le_bytes_def)

lemma upt_4: "[0..<4] = [0, 1, 2, 3 :: nat]"
  by (simp add: upt_conv_Cons)

lemma u32_le_roundtrip [simp]: "u32_from_le_bytes (u32_le_bytes w) = w"
proof (rule bit_word_eqI)
  fix n
  assume "n < LENGTH(32)"
  then consider "n < 8" | "8 \<le> n" "n < 16" | "16 \<le> n" "n < 24" | "24 \<le> n" "n < 32"
    by fastforce
  then show "bit (u32_from_le_bytes (u32_le_bytes w)) n = bit w n"
    by cases (auto simp: u32_from_le_bytes_def u32_le_bytes_def upt_4 bit_simps
        simp del: push_bit_numeral)
qed

lemma byte_high_bit [simp]: "\<not> bit (b :: byte) (8 + n)" "\<not> bit (b :: byte) (16 + n)" "\<not> bit (b :: byte) (24 + n)"
  by (auto dest: bit_imp_le_length)

lemma u32_le_roundtrip' [simp]:
  assumes "length bs = 4"
  shows "u32_le_bytes (u32_from_le_bytes bs) = bs"
proof -
  obtain a b c d where bs: "bs = [a, b, c, d]"
    using assms by (auto simp: numeral_eq_Suc length_Suc_conv)
  show ?thesis
    unfolding u32_from_le_bytes_def u32_le_bytes_def bs upt_4
    by (simp, intro conjI; rule bit_word_eqI) (auto simp: bit_simps)
qed

lemma parse_digits_append:
  "parse_digits acc (xs @ ys) = Option.bind (parse_digits acc xs) (\<lambda>a. parse_digits a ys)"
  by (induction xs arbitrary: acc) (auto simp: Let_def)

lemma parse_digits_dec: "n < 2 ^ 64 \<Longrightarrow> parse_digits 0 (dec_string n) = Some n"
proof (induction n rule: dec_string.induct)
  case (1 n)
  show ?case
  proof (cases "n < 10")
    case True
    then show ?thesis by (simp add: dec_string.simps [of n] Let_def)
  next
    case False
    then have "parse_digits 0 (dec_string (n div 10)) = Some (n div 10)" using 1 by auto
    moreover have "n div 10 * 10 + n mod 10 = n" by simp
    ultimately show ?thesis using False 1 (2)
      by (simp add: dec_string.simps [of n] Let_def parse_digits_append)
  qed
qed

lemma dec_string_chars:
  "c \<in> set (dec_string n) \<Longrightarrow> 48 \<le> (of_char c :: nat) \<and> (of_char c :: nat) \<le> 57"
proof (induction n rule: dec_string.induct)
  case (1 n)
  have "n mod 10 < 10" by simp
  then show ?case using 1 by (auto simp: dec_string.simps [of n] split: if_splits)
qed

lemma dec_string_nonempty [simp]: "dec_string n \<noteq> []"
  by (simp add: dec_string.simps [of n])

lemma dec_string_no_sign: "CHR ''+'' \<notin> set (dec_string n)" "CHR ''-'' \<notin> set (dec_string n)"
  using dec_string_chars [of "CHR ''+''" n] dec_string_chars [of "CHR ''-''" n] by auto

lemma parse_u64_to_string [simp]: "parse_u64 (u64_to_string w) = Some w"
proof -
  obtain c cs where cs: "dec_string (unat w) = c # cs" by (metis dec_string_nonempty list.exhaust)
  then have "c \<noteq> CHR ''+''" using dec_string_no_sign (1) [of "unat w"] by auto
  moreover have "parse_digits 0 (c # cs) = Some (unat w)"
    unfolding cs [symmetric] by (rule parse_digits_dec) (rule u64_lt)
  ultimately show ?thesis
    by (simp add: parse_u64_def u64_to_string_def cs del: parse_digits.simps)
qed

lemma trim_digits [simp]: "trim_str (u64_to_string w) = u64_to_string w"
proof -
  have *: "\<not> is_space c" if "c \<in> set (u64_to_string w)" for c
    using dec_string_chars [of c "unat w"] that
    by (auto simp: is_space_def u64_to_string_def)
  have "dropWhile is_space xs = xs" if "set xs \<subseteq> set (u64_to_string w)" for xs
    using that * by (cases xs) auto
  then show ?thesis by (simp add: trim_str_def)
qed

lemma split_once_append:
  "c \<notin> set xs \<Longrightarrow> split_once c (xs @ c # ys) = Some (xs, ys)"
  by (induction xs) auto

end
