(* ===== verification/Wal_Log.thy ===== *)
theory Wal_Log
  imports Wal "HOL-Library.Sublist"
begin

unbundle bit_operations_syntax

section \<open>The log a directory represents\<close>

text \<open>
  The abstraction of a WAL directory: \<open>wal_log\<close> is the list of its complete records, oldest
  first, each with the position of its end. The byte loops of replay and opening are shown to
  compute on that list: replay returns its uncovered part, a commit keeps that part, and the
  positions along it strictly grow.
\<close>

subsection \<open>Framing\<close>

definition frame :: "(byte list \<Rightarrow> u32) \<Rightarrow> byte list \<Rightarrow> byte list" where
  "frame crc p = u32_le_bytes (of_nat (length p)) @ u32_le_bytes (crc p) @ p"

definition frames :: "(byte list \<Rightarrow> u32) \<Rightarrow> byte list list \<Rightarrow> byte list" where
  "frames crc ps = concat (map (frame crc) ps)"

text \<open>The first record of a byte string and what follows it, if it is complete and its checksum
  holds.\<close>

definition first_record :: "(byte list \<Rightarrow> u32) \<Rightarrow> byte list \<Rightarrow> (byte list \<times> byte list) option" where
  "first_record crc bs =
     (let len = unat (u32_from_le_bytes (take 4 bs))
      in if 8 \<le> length bs \<and> 8 + len \<le> length bs
            \<and> crc (take len (drop 8 bs)) = u32_from_le_bytes (take 4 (drop 4 bs))
         then Some (take len (drop 8 bs), drop (8 + len) bs) else None)"

lemma first_record_shorter: "first_record crc bs = Some (p, rest) \<Longrightarrow> length rest < length bs"
  by (auto simp: first_record_def Let_def split: if_splits)

function parse_frames :: "(byte list \<Rightarrow> u32) \<Rightarrow> byte list \<Rightarrow> byte list list" where
  "parse_frames crc bs =
     (case first_record crc bs of None \<Rightarrow> [] | Some (p, rest) \<Rightarrow> p # parse_frames crc rest)"
  by pat_completeness auto
termination
  by (relation "measure (\<lambda>(crc, bs). length bs)") (auto dest: first_record_shorter)

declare parse_frames.simps [simp del]

definition small :: "byte list \<Rightarrow> bool" where
  "small p \<longleftrightarrow> length p < 2 ^ 32"

lemma frame_length [simp]: "length (frame crc p) = 8 + length p"
  by (simp add: frame_def)

lemma frames_simps [simp]:
  "frames crc [] = []" "frames crc (p # ps) = frame crc p @ frames crc ps"
  "frames crc (ps @ qs) = frames crc ps @ frames crc qs"
  by (simp_all add: frames_def)

lemma small_unat: "small p \<Longrightarrow> unat (of_nat (length p) :: u32) = length p"
  by (simp add: small_def unsigned_of_nat take_bit_nat_eq_self)

lemma first_record_frame: "small p \<Longrightarrow> first_record crc (frame crc p @ rest) = Some (p, rest)"
  by (simp add: first_record_def frame_def small_unat Let_def)

lemma first_record_eq:
  assumes "first_record crc bs = Some (p, rest)"
  shows "bs = frame crc p @ rest" "small p"
proof -
  let ?len = "unat (u32_from_le_bytes (take 4 bs))"
  from assms have len: "8 + ?len \<le> length bs" and p: "p = take ?len (drop 8 bs)"
    and rest: "rest = drop (8 + ?len) bs" and c: "crc p = u32_from_le_bytes (take 4 (drop 4 bs))"
    by (auto simp: first_record_def Let_def split: if_splits)
  have lp: "length p = ?len" using p len by simp
  have "bs = take 4 bs @ take 4 (drop 4 bs) @ take ?len (drop 8 bs) @ drop ?len (drop 8 bs)"
    using append_take_drop_id [of 4 bs] append_take_drop_id [of 4 "drop 4 bs"]
      append_take_drop_id [of ?len "drop 8 bs"] by simp
  then show "bs = frame crc p @ rest"
    using len c p rest lp by (simp add: frame_def add.commute)
  show "small p" unfolding small_def lp by (rule u32_lt)
qed

lemma parse_frames_frame [simp]:
  "small p \<Longrightarrow> parse_frames crc (frame crc p @ rest) = p # parse_frames crc rest"
  by (simp add: parse_frames.simps [of crc "frame crc p @ rest"] first_record_frame)

lemma parse_frames_append:
  "list_all small ps \<Longrightarrow> parse_frames crc (frames crc ps @ rest) = ps @ parse_frames crc rest"
  by (induction ps) auto

lemma parse_frames_Nil [simp]: "parse_frames crc [] = []"
  by (simp add: parse_frames.simps [of crc "[]"] first_record_def)

lemma parse_frames_frames: "list_all small ps \<Longrightarrow> parse_frames crc (frames crc ps) = ps"
  using parse_frames_append [of ps crc "[]"] by simp

lemma parse_frames_small: "list_all small (parse_frames crc bs)"
proof (induction crc bs rule: parse_frames.induct)
  case (1 crc bs)
  then show ?case
    by (auto simp: parse_frames.simps [of crc bs] split: option.splits dest: first_record_eq)
qed

lemma parse_frames_decomp:
  "\<exists>rest. bs = frames crc (parse_frames crc bs) @ rest \<and> first_record crc rest = None"
proof (induction crc bs rule: parse_frames.induct)
  case (1 crc bs)
  show ?case
  proof (cases "first_record crc bs")
    case None
    then show ?thesis by (simp add: parse_frames.simps [of crc bs])
  next
    case (Some pr)
    obtain p r where pr: "pr = (p, r)" by fastforce
    from 1 [OF Some pr [symmetric]] obtain rest
      where r: "r = frames crc (parse_frames crc r) @ rest" "first_record crc rest = None" by auto
    have "bs = frame crc p @ r" using first_record_eq Some pr by simp
    moreover have "parse_frames crc bs = p # parse_frames crc r"
      using Some pr by (simp add: parse_frames.simps [of crc bs])
    ultimately show ?thesis using r by auto
  qed
qed

lemma encode_record_into_frame:
  "encode_record_into ser crc v out =
     (case ser v of Inl e \<Rightarrow> Inl (Serde e) | Inr p \<Rightarrow> Inr (out @ frame crc p))"
  by (auto simp: encode_record_into_def frame_def Let_def RECORD_HEADER_LEN_def split: sum.splits)

text \<open>How the two byte loops move over one record.\<close>

lemma last_complete_from_step:
  assumes "length (pre @ bs) < 2 ^ 64"
  shows "last_complete_from (pre @ bs) (length pre) =
    (let len = unat (u32_from_le_bytes (take 4 bs))
     in if 8 \<le> length bs \<and> 8 + len \<le> length bs
        then last_complete_from (pre @ bs) (length pre + 8 + len) else length pre)"
  using assms
  by (subst last_complete_from.simps) (auto simp: RECORD_HEADER_LEN_def Let_def)

lemma last_complete_from_frames:
  "length (pre @ frames crc ps @ rest) < 2 ^ 64 \<Longrightarrow> list_all small ps \<Longrightarrow>
   last_complete_from (pre @ frames crc ps @ rest) (length pre)
     = last_complete_from (pre @ frames crc ps @ rest) (length (pre @ frames crc ps))"
proof (induction ps arbitrary: pre)
  case (Cons p ps)
  have "last_complete_from (pre @ frame crc p @ frames crc ps @ rest) (length pre)
    = last_complete_from (pre @ frame crc p @ frames crc ps @ rest) (length (pre @ frame crc p))"
    using Cons.prems
    by (subst last_complete_from_step) (auto simp: frame_def Let_def small_unat add.assoc)
  with Cons.IH [of "pre @ frame crc p"] Cons.prems show ?case by simp
qed simp

text \<open>The records of one segment with the position of each record's end.\<close>

primrec seg_entries :: "u64 \<Rightarrow> nat \<Rightarrow> byte list list \<Rightarrow> (wal_position \<times> byte list) list" where
  "seg_entries seq off [] = []"
| "seg_entries seq off (p # ps) =
     (mk_position seq (of_nat (off + 8 + length p)), p) # seg_entries seq (off + 8 + length p) ps"

definition seg_log :: "(byte list \<Rightarrow> u32) \<Rightarrow> u64 \<times> byte list \<Rightarrow> (wal_position \<times> byte list) list" where
  "seg_log crc f = seg_entries (fst f) 0 (parse_frames crc (snd f))"

definition uncovered :: "wal_position \<Rightarrow> (wal_position \<times> 'a) list \<Rightarrow> (wal_position \<times> 'a) list" where
  "uncovered cp = filter (\<lambda>e. \<not> is_covered_by (fst e) cp)"

definition replayed :: "('p \<Rightarrow> 'v option) \<Rightarrow> wal_position \<Rightarrow> (wal_position \<times> 'p) list \<Rightarrow> 'v list" where
  "replayed de cp es = List.map_filter (\<lambda>e. de (snd e)) (uncovered cp es)"

definition not_replayed :: "('p \<Rightarrow> 'v option) \<Rightarrow> wal_position \<Rightarrow> (wal_position \<times> 'p) list \<Rightarrow> nat" where
  "not_replayed de cp es = length (filter (\<lambda>e. is_covered_by (fst e) cp \<or> de (snd e) = None) es)"

definition add_stats :: "nat \<Rightarrow> nat \<Rightarrow> nat \<Rightarrow> replay_stats \<Rightarrow> replay_stats" where
  "add_stats r s t st = st\<lparr>rs_records := rs_records st + r, rs_skipped := rs_skipped st + s,
     rs_truncated_bytes := rs_truncated_bytes st + t\<rparr>"

lemma replayed_simps [simp]:
  "replayed de cp [] = []"
  "replayed de cp (e # es) =
     (if is_covered_by (fst e) cp then replayed de cp es
      else case de (snd e) of None \<Rightarrow> replayed de cp es | Some v \<Rightarrow> v # replayed de cp es)"
  "replayed de cp (es @ fs) = replayed de cp es @ replayed de cp fs"
  by (simp_all add: replayed_def uncovered_def List.map_filter_simps map_filter_def split: option.splits)

lemma not_replayed_simps [simp]:
  "not_replayed de cp [] = 0"
  "not_replayed de cp (e # es) =
     (if is_covered_by (fst e) cp \<or> de (snd e) = None then 1 else 0) + not_replayed de cp es"
  "not_replayed de cp (es @ fs) = not_replayed de cp es + not_replayed de cp fs"
  by (simp_all add: not_replayed_def)

lemma add_stats_add [simp]:
  "add_stats a b c (add_stats a' b' c' st) = add_stats (a' + a) (b' + b) (c' + c) st"
  by (simp add: add_stats_def)

lemma add_stats_0 [simp]: "add_stats 0 0 0 st = st"
  by (simp add: add_stats_def)

lemma replay_loop_stop:
  assumes "length (pre @ bs) < 2 ^ 64" "first_record crc bs = None"
  shows "replay_loop de crc cp seq (pre @ bs) (length pre) vs st =
    (vs, st, if 8 \<le> length bs then Some (length pre) else None)"
proof -
  have "unat (u32_from_le_bytes (take 4 bs)) < 2 ^ 32" by (rule u32_lt)
  with assms show ?thesis
    by (subst replay_loop.simps)
      (auto simp: RECORD_HEADER_LEN_def Let_def first_record_def add.commute split: if_splits)
qed

lemma replay_loop_record:
  assumes "length (pre @ frame crc p @ bs) < 2 ^ 64" "small p"
  shows "replay_loop de crc cp seq (pre @ frame crc p @ bs) (length pre) vs st =
    (let e = (mk_position seq (of_nat (length pre + 8 + length p)), p)
     in replay_loop de crc cp seq (pre @ frame crc p @ bs) (length (pre @ frame crc p))
          (vs @ replayed de cp [e]) (add_stats (length (replayed de cp [e])) (not_replayed de cp [e]) 0 st))"
  using assms
  by (subst replay_loop.simps)
    (auto simp: RECORD_HEADER_LEN_def Let_def frame_def small_unat add.assoc add_stats_def
      split: option.splits)

lemma replay_loop_spec:
  "length (pre @ bs) < 2 ^ 64 \<Longrightarrow>
   replay_loop de crc cp seq (pre @ bs) (length pre) vs st =
     (let es = seg_entries seq (length pre) (parse_frames crc bs);
          n = length (frames crc (parse_frames crc bs))
      in (vs @ replayed de cp es,
          add_stats (length (replayed de cp es)) (not_replayed de cp es) 0 st,
          if n + 8 \<le> length bs then Some (length pre + n) else None))"
proof (induction crc bs arbitrary: pre vs st rule: parse_frames.induct)
  case (1 crc bs)
  show ?case
  proof (cases "first_record crc bs")
    case None
    with 1 (2) show ?thesis
      by (simp add: replay_loop_stop parse_frames.simps [of crc bs] del: length_append)
  next
    case (Some pr)
    obtain p r where pr: "pr = (p, r)" by fastforce
    have bs: "bs = frame crc p @ r" and p: "small p" using first_record_eq Some pr by auto
    have len: "length ((pre @ frame crc p) @ r) < 2 ^ 64" using 1 (2) bs by simp
    show ?thesis
      using 1 (1) [OF Some pr [symmetric] len] p len unfolding bs
      by (simp add: replay_loop_record Let_def add.assoc del: replayed_simps(2) not_replayed_simps(2))
        (auto simp: add.assoc)
  qed
qed

definition wal_log :: "(byte list \<Rightarrow> u32) \<Rightarrow> wal_dir \<Rightarrow> (wal_position \<times> byte list) list" where
  "wal_log crc d = concat (map (\<lambda>seq. seg_log crc (seq, seg_bytes d seq)) (segments d))"

text \<open>Sequence numbers and offsets leave room for each other in a position.\<close>

definition wf_dir :: "wal_dir \<Rightarrow> bool" where
  "wf_dir d \<longleftrightarrow> distinct (map fst (wd_segs d))
     \<and> list_all (\<lambda>f. unat (fst f) < 2 ^ 32 \<and> length (snd f) < 2 ^ 32 - 1) (wd_segs d)"

lemma segments_set [simp]: "set (segments d) = fst ` set (wd_segs d)"
  by (simp add: segments_def)

lemma segments_sorted [simp]: "sorted (segments d)"
  by (simp add: segments_def)

lemma segments_distinct: "wf_dir d \<Longrightarrow> distinct (segments d)"
  by (simp add: segments_def wf_dir_def)

lemma seg_bytes_write [simp]:
  "seg_bytes (write_seg k bs d) k' = (if k' = k then bs else seg_bytes d k')"
  by (simp add: seg_bytes_def write_seg_def update_conv')

lemma seg_bytes_remove [simp]:
  "seg_bytes (remove_seg k d) k' = (if k' = k then [] else seg_bytes d k')"
  by (simp add: seg_bytes_def remove_seg_def delete_conv')

lemma write_seg_keys:
  "map fst (wd_segs (write_seg k bs d)) =
     (if k \<in> fst ` set (wd_segs d) then map fst (wd_segs d) else map fst (wd_segs d) @ [k])"
  by (simp add: write_seg_def update_keys)

lemma write_seg_commit [simp]: "wd_commit (write_seg k bs d) = wd_commit d"
  by (simp add: write_seg_def)

lemma write_seg_existing [simp]:
  "k \<in> fst ` set (wd_segs d) \<Longrightarrow> segments (write_seg k bs d) = segments d"
  by (simp add: segments_def write_seg_keys)

lemma write_seg_key_set:
  "fst ` set (wd_segs (write_seg k bs d)) = insert k (fst ` set (wd_segs d))"
proof -
  have "fst ` set (wd_segs (write_seg k bs d)) = set (map fst (wd_segs (write_seg k bs d)))" by simp
  also have "\<dots> = insert k (fst ` set (wd_segs d))" unfolding write_seg_keys by auto
  finally show ?thesis .
qed

lemma wf_dir_iff:
  "wf_dir d \<longleftrightarrow> distinct (map fst (wd_segs d)) \<and>
     (\<forall>k \<in> fst ` set (wd_segs d). unat k < 2 ^ 32 \<and> length (seg_bytes d k) < 2 ^ 32 - 1)"
proof (cases "distinct (map fst (wd_segs d))")
  case True
  then have "seg_bytes d (fst f) = snd f" if "f \<in> set (wd_segs d)" for f
    using that by (cases f) (simp add: seg_bytes_def)
  then show ?thesis using True by (auto simp: wf_dir_def list_all_iff)
qed (simp add: wf_dir_def)

lemma wf_dir_write:
  assumes "wf_dir d" "length bs < 2 ^ 32 - 1" "unat k < 2 ^ 32"
  shows "wf_dir (write_seg k bs d)"
  using assms by (auto simp: wf_dir_iff write_seg_keys write_seg_key_set)

lemma wf_dir_length: "wf_dir d \<Longrightarrow> length (seg_bytes d k) < 2 ^ 32 - 1"
proof (cases "k \<in> fst ` set (wd_segs d)")
  case False
  then have "map_of (wd_segs d) k = None" by (simp add: map_of_eq_None_iff)
  then show ?thesis by (simp add: seg_bytes_def)
qed (auto simp: wf_dir_iff)

lemma wf_dir_key: "wf_dir d \<Longrightarrow> k \<in> fst ` set (wd_segs d) \<Longrightarrow> unat k < 2 ^ 32"
  by (auto simp: wf_dir_iff)

subsection \<open>Replay returns the uncovered records\<close>

definition clean_seg :: "(byte list \<Rightarrow> u32) \<Rightarrow> byte list \<Rightarrow> byte list" where
  "clean_seg crc bs =
     (let n = length (frames crc (parse_frames crc bs)) in if n + 8 \<le> length bs then take n bs else bs)"

lemma parse_clean_seg [simp]: "parse_frames crc (clean_seg crc bs) = parse_frames crc bs"
proof -
  obtain rest where r: "bs = frames crc (parse_frames crc bs) @ rest"
    using parse_frames_decomp by blast
  have "take (length (frames crc (parse_frames crc bs))) bs = frames crc (parse_frames crc bs)"
    using r by (metis append_eq_conv_conj)
  then show ?thesis
    by (auto simp: clean_seg_def Let_def parse_frames_frames parse_frames_small)
qed

lemma wal_log_cong:
  assumes "segments d' = segments d"
    "\<And>k. k \<in> set (segments d) \<Longrightarrow> parse_frames crc (seg_bytes d' k) = parse_frames crc (seg_bytes d k)"
  shows "wal_log crc d' = wal_log crc d"
  using assms by (auto simp: wal_log_def seg_log_def intro!: arg_cong [where f = concat])

text \<open>What replay does to one segment file.\<close>

definition clean_dir :: "(byte list \<Rightarrow> u32) \<Rightarrow> u64 \<Rightarrow> wal_dir \<Rightarrow> wal_dir" where
  "clean_dir crc seq d =
     (let bs = seg_bytes d seq; n = length (frames crc (parse_frames crc bs))
      in if n + 8 \<le> length bs then write_seg seq (take n bs) d else d)"

lemma clean_dir_facts:
  assumes "wf_dir d" "seq \<in> fst ` set (wd_segs d)"
  shows "seg_bytes (clean_dir crc seq d) k =
      (if k = seq then clean_seg crc (seg_bytes d k) else seg_bytes d k)"
    and "segments (clean_dir crc seq d) = segments d"
    and "wd_commit (clean_dir crc seq d) = wd_commit d"
    and "wf_dir (clean_dir crc seq d)"
proof -
  have "wf_dir (write_seg seq (take n (seg_bytes d seq)) d)" for n
    using wf_dir_length [OF assms (1), of seq] wf_dir_key [OF assms]
    by (intro wf_dir_write assms (1)) auto
  then show "wf_dir (clean_dir crc seq d)" using assms (1) by (simp add: clean_dir_def Let_def)
qed (use assms in \<open>simp_all add: clean_dir_def clean_seg_def Let_def\<close>)

lemma replay_segments_Cons:
  fixes crc :: "byte list \<Rightarrow> u32"
  assumes "wf_dir d"
  defines "es \<equiv> \<lambda>seq. seg_log crc (seq, seg_bytes d seq)"
  shows "\<exists>t. replay_segments de crc (\<lambda>_. None) cp (seq # seqs) vs st d =
    replay_segments de crc (\<lambda>_. None) cp seqs (vs @ replayed de cp (es seq))
      (add_stats (length (replayed de cp (es seq))) (not_replayed de cp (es seq)) t st)
      (clean_dir crc seq d)"
proof -
  let ?bs = "seg_bytes d seq"
  let ?n = "length (frames crc (parse_frames crc ?bs))"
  have "length ?bs < 2 ^ 64" using wf_dir_length [OF assms (1), of seq] by simp
  then have loop: "replay_loop de crc cp seq ?bs 0 vs st = (vs @ replayed de cp (es seq),
      add_stats (length (replayed de cp (es seq))) (not_replayed de cp (es seq)) 0 st,
      if ?n + 8 \<le> length ?bs then Some ?n else None)"
    using replay_loop_spec [of "[]" ?bs de crc cp seq vs st] by (simp add: es_def seg_log_def Let_def)
  show ?thesis
    by (rule exI [of _ "if ?n + 8 \<le> length ?bs then length ?bs - ?n else 0"])
      (simp add: loop clean_dir_def add_stats_def Let_def)
qed

lemma replay_segments_spec:
  assumes "wf_dir d" "distinct seqs" "set seqs \<subseteq> set (segments d)"
  shows "\<exists>d' t. replay_segments de crc (\<lambda>_. None) cp seqs vs st d =
      (let es = concat (map (\<lambda>seq. seg_log crc (seq, seg_bytes d seq)) seqs)
       in (Inr (add_stats (length (replayed de cp es)) (not_replayed de cp es) t st),
           vs @ replayed de cp es, d'))
    \<and> segments d' = segments d \<and> wd_commit d' = wd_commit d \<and> wf_dir d'
    \<and> (\<forall>k. seg_bytes d' k = (if k \<in> set seqs then clean_seg crc (seg_bytes d k) else seg_bytes d k))"
  using assms
proof (induction seqs arbitrary: d vs st)
  case Nil
  then show ?case by (intro exI [of _ d] exI [of _ 0]) simp
next
  case (Cons seq seqs)
  let ?es = "seg_log crc (seq, seg_bytes d seq)"
  let ?d1 = "clean_dir crc seq d"
  have seq: "seq \<in> fst ` set (wd_segs d)" and nin: "seq \<notin> set seqs" using Cons.prems by auto
  note d1 = clean_dir_facts [OF Cons.prems (1) seq]
  obtain t where step: "replay_segments de crc (\<lambda>_. None) cp (seq # seqs) vs st d =
    replay_segments de crc (\<lambda>_. None) cp seqs (vs @ replayed de cp ?es)
      (add_stats (length (replayed de cp ?es)) (not_replayed de cp ?es) t st) ?d1"
    using replay_segments_Cons [OF Cons.prems (1)] by blast
  have same: "map (\<lambda>s. seg_log crc (s, seg_bytes ?d1 s)) seqs =
      map (\<lambda>s. seg_log crc (s, seg_bytes d s)) seqs"
    using nin by (auto simp: d1)
  have "distinct seqs" "set seqs \<subseteq> set (segments ?d1)" using Cons.prems d1 by auto
  from Cons.IH [OF d1 (4) this, of "vs @ replayed de cp ?es"
      "add_stats (length (replayed de cp ?es)) (not_replayed de cp ?es) t st"] obtain d' t' where IH:
    "replay_segments de crc (\<lambda>_. None) cp (seq # seqs) vs st d =
      (let es = ?es @ concat (map (\<lambda>seq. seg_log crc (seq, seg_bytes d seq)) seqs)
       in (Inr (add_stats (length (replayed de cp es)) (not_replayed de cp es) (t + t') st),
           vs @ replayed de cp es, d'))"
    "segments d' = segments ?d1" "wd_commit d' = wd_commit ?d1" "wf_dir d'"
    "\<forall>k. seg_bytes d' k = (if k \<in> set seqs then clean_seg crc (seg_bytes ?d1 k) else seg_bytes ?d1 k)"
    unfolding step same by (auto simp: Let_def)
  with nin d1 show ?case by (intro exI [of _ d'] exI [of _ "t + t'"]) (auto simp: Let_def)
qed

lemma replay_spec:
  assumes "wf_dir d"
  obtains t d' where
    "replay de crc (\<lambda>_. None) cp d =
      (Inr (add_stats (length (replayed de cp (wal_log crc d))) (not_replayed de cp (wal_log crc d)) t no_stats),
       replayed de cp (wal_log crc d), d')"
    "wal_log crc d' = wal_log crc d" "wd_commit d' = wd_commit d" "wf_dir d'"
    "\<And>k. k \<in> set (segments d) \<Longrightarrow> seg_bytes d' k = clean_seg crc (seg_bytes d k)"
proof -
  from replay_segments_spec [OF assms segments_distinct [OF assms] order_refl,
      of de crc cp "[]" no_stats] obtain d' t where *:
    "replay de crc (\<lambda>_. None) cp d =
      (Inr (add_stats (length (replayed de cp (wal_log crc d))) (not_replayed de cp (wal_log crc d)) t no_stats),
       replayed de cp (wal_log crc d), d')"
    "segments d' = segments d" "wd_commit d' = wd_commit d" "wf_dir d'"
    "\<forall>k. seg_bytes d' k = (if k \<in> set (segments d) then clean_seg crc (seg_bytes d k) else seg_bytes d k)"
    by (auto simp: replay_def wal_log_def Let_def)
  moreover have "wal_log crc d' = wal_log crc d" using * by (intro wal_log_cong) auto
  ultimately show thesis using that by auto
qed

subsection \<open>Positions grow along the log\<close>

lemma mk_position_unat:
  assumes "unat seg < 2 ^ 32" "n + 1 < 2 ^ 32"
  shows "unat (mk_position seg (of_nat n)) = unat seg * 2 ^ 32 + (n + 1)"
proof -
  have n: "unat (of_nat n + 1 :: u64) = n + 1"
  proof -
    have "(of_nat n + 1 :: u64) = of_nat (n + 1)" by simp
    also have "unat \<dots> = n + 1"
      using assms (2) by (simp only: unsigned_of_nat) (simp add: take_bit_nat_eq_self)
    finally show ?thesis .
  qed
  have p: "unat (push_bit 32 seg) = unat seg * 2 ^ 32"
    using assms (1) 
    by (simp only: unsigned_push_bit_eq) (simp add: take_bit_nat_eq_self push_bit_eq_mult)
  have "push_bit 32 seg AND (of_nat n + 1) = 0"
  proof (rule bit_word_eqI)
    fix i
    assume "i < LENGTH(64)"
    have "\<not> bit (n + 1) i" if "32 \<le> i"
    proof -
      have "n + 1 < 2 ^ i" using assms (2) that by (meson less_le_trans one_le_numeral power_increasing)
      then show ?thesis by (simp add: bit_iff_odd)
    qed
    then have "\<not> bit (of_nat n + 1 :: u64) i" if "32 \<le> i"
      using that bit_unsigned_iff [where ?'a = nat and w = "of_nat n + 1 :: u64" and n = i]
      unfolding n by simp
    then show "bit (push_bit 32 seg AND (of_nat n + 1)) i = bit (0 :: u64) i"
      by (auto simp: bit_simps)
  qed
  then have "push_bit 32 seg OR (of_nat n + 1) = push_bit 32 seg + (of_nat n + 1)"
    by (rule disjunctive_add_eq_or [symmetric])
  moreover have "unat (push_bit 32 seg) + unat (of_nat n + 1 :: u64) < 2 ^ 64"
    unfolding n p using assms by simp
  ultimately show ?thesis unfolding mk_position_def using n p
    by (simp add: unat_add_lem [THEN iffD1])
qed

lemma pos_segment_mk:
  assumes "unat seg < 2 ^ 32" "n + 1 < 2 ^ 32"
  shows "pos_segment (mk_position seg (of_nat n)) = seg"
proof -
  have "unat (pos_segment (mk_position seg (of_nat n))) = unat seg"
    using assms
    by (simp only: pos_segment_def unsigned_drop_bit_eq)
      (simp add: drop_bit_eq_div mk_position_unat take_bit_nat_eq_self)
  then show ?thesis by (simp only: word_unat_eq_iff)
qed

lemma seg_entries_mem:
  "e \<in> set (seg_entries seq off ps) \<Longrightarrow>
   \<exists>n. fst e = mk_position seq (of_nat n) \<and> off < n \<and> n \<le> off + length (frames crc ps)"
proof (induction ps arbitrary: off)
  case (Cons p ps)
  show ?case
  proof (cases "e \<in> set (seg_entries seq (off + 8 + length p) ps)")
    case True
    from Cons.IH [OF this] show ?thesis by force
  next
    case False
    with Cons.prems show ?thesis by (intro exI [of _ "off + 8 + length p"]) auto
  qed
qed simp

lemma seg_entries_append:
  "seg_entries seq off (ps @ qs) =
     seg_entries seq off ps @ seg_entries seq (off + length (frames crc ps)) qs"
  by (induction ps arbitrary: off) (simp_all add: add.assoc)

lemma mk_position_less:
  assumes "unat s < 2 ^ 32" "unat t < 2 ^ 32" "m + 1 < 2 ^ 32" "n + 1 < 2 ^ 32"
    and "s < t \<or> s = t \<and> m < n"
  shows "mk_position s (of_nat m) < mk_position t (of_nat n)"
proof -
  have "unat s < unat t \<or> unat s = unat t \<and> m < n" using assms (5) by (auto simp: word_less_nat_alt)
  then have "unat s * 2 ^ 32 + (m + 1) < unat t * 2 ^ 32 + (n + 1)" using assms (3) by auto
  then show ?thesis using assms (1-4) by (simp add: word_less_nat_alt mk_position_unat)
qed

lemma seg_entries_sorted:
  assumes "unat seq < 2 ^ 32" "off + length (frames crc ps) + 1 < 2 ^ 32"
  shows "sorted_wrt (<) (map fst (seg_entries seq off ps))"
  using assms (2)
proof (induction ps arbitrary: off)
  case (Cons p ps)
  have "mk_position seq (of_nat (off + 8 + length p)) < fst e"
    if e: "e \<in> set (seg_entries seq (off + 8 + length p) ps)" for e
  proof -
    obtain n where n: "fst e = mk_position seq (of_nat n)" "off + 8 + length p < n"
      "n \<le> off + 8 + length p + length (frames crc ps)"
      using seg_entries_mem [OF e] by blast
    show ?thesis unfolding n (1) using n assms (1) Cons.prems by (intro mk_position_less) auto
  qed
  then show ?case using Cons by auto
qed simp

lemma frames_parse_length: "length (frames crc (parse_frames crc bs)) \<le> length bs"
  using parse_frames_decomp [of bs crc] by (metis length_append le_add1)

lemma seg_log_mem:
  assumes "e \<in> set (seg_log crc (seq, bs))"
  obtains n where "fst e = mk_position seq (of_nat n)" "0 < n" "n \<le> length bs"
  using assms seg_entries_mem [of e seq 0 "parse_frames crc bs" crc] frames_parse_length [of crc bs]
  by (auto simp: seg_log_def)

lemma seg_log_before:
  assumes "wf_dir d" "k \<in> fst ` set (wd_segs d)" "k' \<in> fst ` set (wd_segs d)" "k < k'"
    and "e \<in> set (seg_log crc (k, seg_bytes d k))" "e' \<in> set (seg_log crc (k', seg_bytes d k'))"
  shows "fst e < fst e'"
proof -
  obtain n where n: "fst e = mk_position k (of_nat n)" "n \<le> length (seg_bytes d k)"
    using assms (5) by (rule seg_log_mem)
  obtain m where m: "fst e' = mk_position k' (of_nat m)" "m \<le> length (seg_bytes d k')"
    using assms (6) by (rule seg_log_mem)
  show ?thesis
    unfolding n (1) m (1) using n (2) m (2) assms (4) wf_dir_key [OF assms (1)] assms (2,3)
      wf_dir_length [OF assms (1), of k] wf_dir_length [OF assms (1), of k']
    by (intro mk_position_less) auto
qed

lemma sorted_wrt_concat:
  "sorted_wrt Q ks \<Longrightarrow> (\<And>k. k \<in> set ks \<Longrightarrow> sorted_wrt R (f k)) \<Longrightarrow>
   (\<And>k k' x y. k \<in> set ks \<Longrightarrow> k' \<in> set ks \<Longrightarrow> Q k k' \<Longrightarrow> x \<in> set (f k) \<Longrightarrow> y \<in> set (f k') \<Longrightarrow> R x y) \<Longrightarrow>
   sorted_wrt R (concat (map f ks))"
proof (induction ks)
  case (Cons k ks)
  then show ?case by (simp add: sorted_wrt_append) blast
qed simp

lemma wal_log_sorted:
  assumes "wf_dir d"
  shows "sorted_wrt (<) (map fst (wal_log crc d))"
proof -
  have "sorted_wrt (\<lambda>x y. fst x < fst y) (wal_log crc d)"
    unfolding wal_log_def
  proof (rule sorted_wrt_concat [where Q = "(<)"])
    show "sorted_wrt (<) (segments d)"
      using segments_distinct [OF assms] by (simp add: strict_sorted_iff)
    show "sorted_wrt (\<lambda>x y. fst x < fst y) (seg_log crc (k, seg_bytes d k))"
      if "k \<in> set (segments d)" for k
    proof -
      have "sorted_wrt (<) (map fst (seg_log crc (k, seg_bytes d k)))"
        unfolding seg_log_def fst_conv snd_conv
        using wf_dir_key [OF assms] wf_dir_length [OF assms, of k] that
          frames_parse_length [of crc "seg_bytes d k"]
        by (intro seg_entries_sorted [where crc = crc]) auto
      then show ?thesis by (simp add: sorted_wrt_map)
    qed
  qed (use seg_log_before [OF assms] in auto)
  then show ?thesis by (simp add: sorted_wrt_map)
qed

subsection \<open>A commit removes only covered records\<close>

lemma segments_remove: "segments (remove_seg s d) = filter (\<lambda>k. k \<noteq> s) (segments d)"
  by (simp add: segments_def remove_seg_def delete_keys removeAll_filter_not_eq
      filter_sort [symmetric] conj_commute eq_commute)

lemma remove_while_spec:
  "segments (snd (remove_while rm p seqs d)) =
     filter (\<lambda>k. \<not> (k \<in> set (takeWhile p seqs) \<and> rm k)) (segments d)"
  "k \<notin> set (takeWhile p seqs) \<or> \<not> rm k \<Longrightarrow>
     seg_bytes (snd (remove_while rm p seqs d)) k = seg_bytes d k"
  "wd_commit (snd (remove_while rm p seqs d)) = wd_commit d"
proof (induction seqs arbitrary: d)
  case (Cons s seqs)
  { case 1
    show ?case using Cons.IH (1) by (auto simp: segments_remove intro: filter_cong) }
  { case 2
    then show ?case using Cons.IH (2) by auto }
  { case 3
    show ?case using Cons.IH (3) by (auto simp: remove_seg_def) }
qed simp_all

lemma remove_while_wf:
  "wf_dir d \<Longrightarrow> wf_dir (snd (remove_while rm p seqs d))"
proof (induction seqs arbitrary: d)
  case (Cons s seqs)
  have "wf_dir (remove_seg s d)"
    using Cons.prems
    by (auto simp: wf_dir_def remove_seg_def list_all_iff AList.delete_eq distinct_map_filter)
  with Cons show ?case by simp
qed simp

lemma segment_below_covered:
  assumes "unat k < 2 ^ 32" "n + 1 < 2 ^ 32" "k < pos_segment cp"
  shows "mk_position k (of_nat n) < cp"
proof -
  have "unat k < unat cp div 2 ^ 32"
    using assms (3) by (simp only: word_less_nat_alt pos_segment_def unsigned_drop_bit_eq)
      (simp add: drop_bit_eq_div take_bit_nat_eq_self [OF u64_lt])
  then have "(unat k + 1) * 2 ^ 32 \<le> unat cp"
    by (metis Suc_eq_plus1 Suc_leI less_eq_div_iff_mult_less_eq zero_less_numeral zero_less_power)
  then show ?thesis using assms (1,2) by (simp add: word_less_nat_alt mk_position_unat)
qed

lemma filter_concat_filter:
  "(\<And>x. x \<in> set xs \<Longrightarrow> \<not> Q x \<Longrightarrow> filter P (f x) = []) \<Longrightarrow>
   filter P (concat (map f (filter Q xs))) = filter P (concat (map f xs))"
  by (induction xs) auto

lemma remove_covered_uncovered:
  assumes wf: "wf_dir d"
  shows "uncovered cp (wal_log crc (remove_covered_segments rm cp d)) = uncovered cp (wal_log crc d)"
proof -
  let ?p = "\<lambda>seq. \<not> seq \<ge> pos_segment cp"
  let ?d = "remove_covered_segments rm cp d"
  let ?Q = "\<lambda>k. \<not> (k \<in> set (takeWhile ?p (segments d)) \<and> rm k)"
  have segs: "segments ?d = filter ?Q (segments d)"
    by (simp only: remove_covered_segments_def remove_while_spec (1))
  have "map (\<lambda>k. seg_log crc (k, seg_bytes ?d k)) (filter ?Q (segments d)) =
    map (\<lambda>k. seg_log crc (k, seg_bytes d k)) (filter ?Q (segments d))"
    unfolding remove_covered_segments_def by (rule map_cong) (auto simp: remove_while_spec (2))
  then have log: "wal_log crc ?d =
    concat (map (\<lambda>k. seg_log crc (k, seg_bytes d k)) (filter ?Q (segments d)))"
    by (simp only: wal_log_def segs)
  show ?thesis unfolding uncovered_def log unfolding wal_log_def
  proof (rule filter_concat_filter)
    fix k
    assume k: "k \<in> set (segments d)" "\<not> ?Q k"
    then have "k < pos_segment cp" by (auto dest: set_takeWhileD)
    then have "is_covered_by (fst e) cp" if e: "e \<in> set (seg_log crc (k, seg_bytes d k))" for e
      using seg_log_mem [OF e] segment_below_covered [of k _ cp] wf_dir_key [OF wf, of k]
        wf_dir_length [OF wf, of k] k (1)
      by (metis (no_types, lifting) is_covered_by_def le_less_trans less_diff_conv less_imp_le segments_set)
    then show "filter (\<lambda>e. \<not> is_covered_by (fst e) cp) (seg_log crc (k, seg_bytes d k)) = []"
      by (auto simp: filter_empty_conv)
  qed
qed

lemma read_write_commit [simp]: "read_commit (write_commit p d) = p"
  by (simp add: read_commit_def read_commit_inner_def write_commit_def)

lemma write_commit_segs [simp]:
  "wd_segs (write_commit p d) = wd_segs d" "wal_log crc (write_commit p d) = wal_log crc d"
  "wf_dir (write_commit p d) = wf_dir d"
  by (simp_all add: write_commit_def wal_log_def segments_def seg_bytes_def wf_dir_def)

lemma read_commit_cong: "wd_commit d' = wd_commit d \<Longrightarrow> read_commit d' = read_commit d"
  by (simp add: read_commit_def read_commit_inner_def)

lemma commit_spec:
  assumes "wf_dir d" "commit io rm cp d = (r, d')"
  shows "uncovered cp (wal_log crc d') = uncovered cp (wal_log crc d)" "wf_dir d'"
    "r = Inr () \<Longrightarrow> cp \<noteq> START \<Longrightarrow> read_commit d' = cp"
    "r = Inl e \<or> cp = START \<Longrightarrow> d' = d"
proof -
  note c = assms (2) [unfolded commit_def]
  show "uncovered cp (wal_log crc d') = uncovered cp (wal_log crc d)"
    using c assms (1) remove_covered_uncovered [of "write_commit cp d" cp crc rm]
    by (auto split: if_splits option.splits)
  show "wf_dir d'"
    using c assms (1) by (auto simp: remove_covered_segments_def remove_while_wf split: if_splits option.splits)
  show "r = Inr () \<Longrightarrow> cp \<noteq> START \<Longrightarrow> read_commit d' = cp"
    using c by (auto simp: remove_covered_segments_def remove_while_spec (3)
        split: option.splits intro: read_commit_cong [THEN trans, OF _ read_write_commit])
  show "r = Inl e \<or> cp = START \<Longrightarrow> d' = d"
    using c by (auto split: if_splits option.splits)
qed

end
