(* ===== verification/Wal_Recovery.thy ===== *)
theory Wal_Recovery
  imports Wal_Log
begin

unbundle bit_operations_syntax

section \<open>Appending, crashing and recovering\<close>

text \<open>
  The invariant of a WAL writer, that every outcome of an append keeps it, that opening the
  directory a crash left restores it, and the state machine of appends, commits and restarts
  (an instance of \<open>state_machine\<close>) in which no acknowledged record is lost. The properties of
  the write-ahead log are at the end.
\<close>

subsection \<open>The writer's invariant\<close>

text \<open>The bytes the current segment holds once the pending ones are flushed.\<close>

definition current :: "wal_writer \<Rightarrow> wal_dir \<Rightarrow> byte list" where
  "current w d = seg_bytes d (ww_segment w) @ ww_buf w"

definition newest :: "u64 \<Rightarrow> wal_dir \<Rightarrow> bool" where
  "newest seg d \<longleftrightarrow> seg \<in> fst ` set (wd_segs d) \<and> (\<forall>k \<in> fst ` set (wd_segs d). k \<le> seg)"

definition wal_inv :: "(byte list \<Rightarrow> u32) \<Rightarrow> wal_writer \<Rightarrow> wal_dir \<Rightarrow> bool" where
  "wal_inv crc w d \<longleftrightarrow> wf_dir d \<and> newest (ww_segment w) d
     \<and> current w d = frames crc (parse_frames crc (current w d)) \<and> length (current w d) < 2 ^ 32 - 1
     \<and> (ww_poisoned w = None \<longrightarrow> ww_offset w = of_nat (length (current w d)))"

text \<open>Room for an append: the segment's bytes stay below 4 GiB and a next sequence number
  exists below \<open>2 ^ 32\<close>.\<close>

definition fits :: "wal_writer \<Rightarrow> byte list \<Rightarrow> bool" where
  "fits w records \<longleftrightarrow> unat (ww_offset w) + length records < 2 ^ 32 - 1
     \<and> unat (ww_segment w) + 1 < 2 ^ 32"

lemma newest_split:
  assumes "wf_dir d" "newest seg d"
  obtains pre where "segments d = pre @ [seg]" "seg \<notin> set pre"
proof -
  have seg: "seg \<in> set (segments d)" using assms (2) by (simp add: newest_def)
  then have ne: "segments d \<noteq> []" by (metis empty_iff list.set(1))
  have sp: "segments d = butlast (segments d) @ [last (segments d)]" using ne by simp
  have "sorted (butlast (segments d) @ [last (segments d)])" unfolding sp [symmetric] by simp
  moreover have "last (segments d) \<le> seg"
    using assms (2) last_in_set [OF ne] by (auto simp: newest_def)
  moreover have "seg \<in> insert (last (segments d)) (set (butlast (segments d)))"
    using seg sp by (metis Un_insert_right empty_set list.simps(15) set_append sup_bot.right_neutral)
  ultimately have "last (segments d) = seg" by (auto simp: sorted_append)
  moreover have "distinct (butlast (segments d) @ [last (segments d)])"
    unfolding sp [symmetric] by (rule segments_distinct [OF assms (1)])
  ultimately show thesis using sp by (intro that [of "butlast (segments d)"]) auto
qed

lemma seg_log_prefix: "prefix (seg_log crc (k, bs)) (seg_log crc (k, bs @ extra))"
proof -
  let ?ps = "parse_frames crc bs"
  obtain rest where "bs = frames crc ?ps @ rest" using parse_frames_decomp by blast
  then have "parse_frames crc (bs @ extra) = ?ps @ parse_frames crc (rest @ extra)"
    by (metis append.assoc parse_frames_append parse_frames_small)
  then show ?thesis by (simp add: seg_log_def seg_entries_append [where crc = crc])
qed

text \<open>Writing to the newest segment only changes the end of the log.\<close>

lemma wal_log_write_newest:
  assumes "wf_dir d" "newest seg d"
  obtains base where "wal_log crc d = base @ seg_log crc (seg, seg_bytes d seg)"
    "\<And>bs. wal_log crc (write_seg seg bs d) = base @ seg_log crc (seg, bs)"
proof -
  obtain pre where pre: "segments d = pre @ [seg]" "seg \<notin> set pre" using assms by (rule newest_split)
  have seg: "seg \<in> fst ` set (wd_segs d)" using assms (2) by (auto simp: newest_def)
  have "wal_log crc (write_seg seg bs d) =
      concat (map (\<lambda>k. seg_log crc (k, seg_bytes d k)) pre) @ seg_log crc (seg, bs)" for bs
    using seg pre by (auto simp: wal_log_def intro!: arg_cong [where f = concat])
  then show thesis using pre (1) by (intro that) (simp_all add: wal_log_def)
qed

lemma newest_write: "newest seg d \<Longrightarrow> newest seg (write_seg seg bs d)"
  unfolding newest_def write_seg_key_set by auto

lemma wal_log_extend:
  assumes "wf_dir d" "newest seg d"
  shows "prefix (wal_log crc d) (wal_log crc (write_seg seg (seg_bytes d seg @ extra) d))"
proof -
  obtain base where "wal_log crc d = base @ seg_log crc (seg, seg_bytes d seg)"
    "\<And>bs. wal_log crc (write_seg seg bs d) = base @ seg_log crc (seg, bs)"
    using wal_log_write_newest [OF assms, where crc = crc] by blast
  then show ?thesis by (simp add: seg_log_prefix)
qed

text \<open>A new segment starts empty, after all others.\<close>

lemma fresh_segment:
  assumes "wf_dir d" "newest seg d" "unat seg + 1 < 2 ^ 32"
  defines "d' \<equiv> write_seg (seg + 1) [] d"
  shows "open_or_create_segment (seg + 1) d = (0, d')" "wal_log crc d' = wal_log crc d"
    "wf_dir d'" "newest (seg + 1) d'" "seg_bytes d' (seg + 1) = []"
proof -
  have s1: "unat (seg + 1) = unat seg + 1" using assms (3) by (simp add: unat_add_lem [THEN iffD1])
  then have gt: "k < seg + 1" if "k \<in> fst ` set (wd_segs d)" for k
    using that assms (2) by (auto simp: newest_def word_less_nat_alt word_le_nat_alt)
  then have nk: "seg + 1 \<notin> fst ` set (wd_segs d)" by auto
  then show "open_or_create_segment (seg + 1) d = (0, d')"
    by (simp add: open_or_create_segment_def d'_def map_of_eq_None_iff [symmetric])
  have "sorted (segments d @ [seg + 1])" using gt by (auto simp: sorted_append less_imp_le)
  moreover have "mset (segments d @ [seg + 1]) = mset (map fst (wd_segs d'))"
    using nk by (simp only: d'_def write_seg_keys if_False) (simp add: segments_def)
  ultimately have "segments d' = segments d @ [seg + 1]"
    unfolding segments_def [of d'] by (intro properties_for_sort) auto
  moreover have "seg_bytes d' k = seg_bytes d k" if "k \<in> set (segments d)" for k
    using that nk by (metis d'_def seg_bytes_write segments_set)
  then have "map (\<lambda>k. seg_log crc (k, seg_bytes d' k)) (segments d) =
      map (\<lambda>k. seg_log crc (k, seg_bytes d k)) (segments d)" by simp
  moreover have "seg_log crc (seg + 1, seg_bytes d' (seg + 1)) = []"
    by (simp add: d'_def seg_log_def)
  ultimately show "wal_log crc d' = wal_log crc d"
    unfolding wal_log_def by (simp del: map_eq_conv)
  show "wf_dir d'" unfolding d'_def using assms s1 by (intro wf_dir_write) auto
  show "newest (seg + 1) d'"
    unfolding newest_def d'_def write_seg_key_set using gt by (auto simp: less_imp_le)
  show "seg_bytes d' (seg + 1) = []" by (simp add: d'_def)
qed

lemma wal_inv_offset:
  assumes "wal_inv crc w d" "ww_poisoned w = None"
  shows "unat (ww_offset w) = length (current w d)"
proof -
  have "length (current w d) < 2 ^ 64" using assms by (simp add: wal_inv_def)
  then show ?thesis using assms by (simp add: wal_inv_def unsigned_of_nat take_bit_nat_eq_self)
qed

lemma parse_current_append:
  assumes "wal_inv crc w d" "ww_poisoned w = None" "list_all small ps"
  shows "parse_frames crc (current w d @ frames crc ps) = parse_frames crc (current w d) @ ps"
    and "frames crc (parse_frames crc (current w d @ frames crc ps)) = current w d @ frames crc ps"
proof -
  let ?c = "current w d"
  have c: "?c = frames crc (parse_frames crc ?c)" using assms (1,2) by (simp add: wal_inv_def)
  have "parse_frames crc (?c @ frames crc ps) =
      parse_frames crc (frames crc (parse_frames crc ?c) @ frames crc ps)" using c by simp
  also have "\<dots> = parse_frames crc ?c @ ps"
    using assms (3) by (simp add: parse_frames_append parse_frames_small parse_frames_frames)
  finally show p: "parse_frames crc (?c @ frames crc ps) = parse_frames crc ?c @ ps" .
  show "frames crc (parse_frames crc (?c @ frames crc ps)) = ?c @ frames crc ps"
    unfolding p using c by simp
qed

text \<open>The directory after any prefix of the pending bytes has reached the file.\<close>

definition put_pending :: "nat \<Rightarrow> wal_writer \<Rightarrow> wal_dir \<Rightarrow> byte list \<Rightarrow> wal_dir" where
  "put_pending n w d records =
     write_seg (ww_segment w) (seg_bytes d (ww_segment w) @ take n (ww_buf w @ records)) d"

lemma put_pending_spec:
  fixes n :: nat
  assumes inv: "wal_inv crc w d" and np: "ww_poisoned w = None" and fits: "fits w records"
  defines "d' \<equiv> put_pending n w d records"
  shows "wf_dir d'" "newest (ww_segment w) d'" "prefix (wal_log crc d) (wal_log crc d')"
    "wd_commit d' = wd_commit d"
    "seg_bytes d' (ww_segment w) @ drop n (ww_buf w @ records) = current w d @ records"
proof -
  have wf: "wf_dir d" and new: "newest (ww_segment w) d" using inv by (auto simp: wal_inv_def)
  have "length (current w d) + length records < 2 ^ 32 - 1"
    using fits wal_inv_offset [OF inv np] by (simp add: fits_def)
  then have "length (seg_bytes d (ww_segment w) @ take n (ww_buf w @ records)) < 2 ^ 32 - 1"
    by (auto simp: current_def)
  moreover have "unat (ww_segment w) < 2 ^ 32" using fits by (simp add: fits_def)
  ultimately show "wf_dir d'" unfolding d'_def put_pending_def using wf by (intro wf_dir_write)
  show "newest (ww_segment w) d'" unfolding d'_def put_pending_def using new by (rule newest_write)
  show "prefix (wal_log crc d) (wal_log crc d')"
    unfolding d'_def put_pending_def using wf new by (rule wal_log_extend)
  show "wd_commit d' = wd_commit d" by (simp add: d'_def put_pending_def)
  show "seg_bytes d' (ww_segment w) @ drop n (ww_buf w @ records) = current w d @ records"
    using append_take_drop_id [of n "ww_buf w @ records"]
    by (simp add: d'_def put_pending_def current_def del: take_append drop_append)
qed

lemma roll_spec:
  assumes "wal_inv crc w d" "ww_poisoned w = None" "ww_buf w = []" "unat (ww_segment w) + 1 < 2 ^ 32"
    and "roll io w d = (r, w', d')"
  shows "wal_inv crc w' d'" "wal_log crc d' = wal_log crc d" "wd_commit d' = wd_commit d"
    "ww_poisoned w' = None" "ww_buf w' = []"
proof -
  have "wf_dir d" "newest (ww_segment w) d" using assms (1) by (auto simp: wal_inv_def)
  note fresh = fresh_segment [OF this assms (4)]
  have "(w' = w \<and> d' = d) \<or>
      (w' = w\<lparr>ww_segment := ww_segment w + 1, ww_buf := [], ww_offset := 0\<rparr>
        \<and> d' = write_seg (ww_segment w + 1) [] d)"
    using assms (5) by (auto simp: roll_def fresh (1) Let_def split: option.splits)
  then show "wal_inv crc w' d'" "wal_log crc d' = wal_log crc d" "wd_commit d' = wd_commit d"
    "ww_poisoned w' = None" "ww_buf w' = []"
    using assms (1-3) fresh by (auto simp: wal_inv_def current_def)
qed

text \<open>What an append does in every outcome.\<close>

lemma append_encoded_cases:
  assumes "append_encoded io w d records = (r, w', d')"
  obtains (poisoned) "ww_poisoned w \<noteq> None" "w' = w" "d' = d" "\<exists>e. r = Inl e"
  | (write_fails) msg where "ww_poisoned w = None" "ai_write io = Some msg" "r = Inl (Io msg)"
      "w' = w\<lparr>ww_poisoned := Some msg, ww_buf := drop (ai_written io) (ww_buf w @ records)\<rparr>"
      "d' = put_pending (ai_written io) w d records"
  | (flush_fails) e where "ww_poisoned w = None" "r = Inl e"
      "w' = w\<lparr>ww_offset := ww_offset w + of_nat (length records),
              ww_buf := drop (ai_written io) (ww_buf w @ records)\<rparr>"
      "d' = put_pending (ai_written io) w d records"
  | (rolled) r2 w2 d2 where "ww_poisoned w = None"
      "w2 = w\<lparr>ww_offset := ww_offset w + of_nat (length records), ww_buf := []\<rparr>"
      "d2 = put_pending (length (ww_buf w @ records)) w d records"
      "roll io w2 d2 = (r2, w', d')" "\<And>pos. r = Inr pos \<Longrightarrow> pos = position w2"
  | (plain) w2 d2 where "ww_poisoned w = None"
      "w2 = w\<lparr>ww_offset := ww_offset w + of_nat (length records), ww_buf := []\<rparr>"
      "d2 = put_pending (length (ww_buf w @ records)) w d records"
      "w' = w2" "d' = d2" "\<And>pos. r = Inr pos \<Longrightarrow> pos = position w2"
proof (cases "ww_poisoned w")
  case (Some err)
  with assms show ?thesis by (intro poisoned) (auto simp: append_encoded_def)
next
  case None
  note a = assms [unfolded append_encoded_def Let_def None option.case, folded put_pending_def]
  show ?thesis
  proof (cases "ai_write io")
    case (Some msg)
    with a None show ?thesis by (intro write_fails) auto
  next
    case w: None
    show ?thesis
    proof (cases "ai_flush io")
      case (Some e)
      with a w None show ?thesis by (intro flush_fails) auto
    next
      case f: None
      let ?w2 = "w\<lparr>ww_offset := ww_offset w + of_nat (length records), ww_buf := []\<rparr>"
      let ?d2 = "put_pending (length (ww_buf w @ records)) w d records"
      obtain r2 w3 d3 where roll: "roll io ?w2 ?d2 = (r2, w3, d3)" by (metis prod_cases3)
      show ?thesis
      proof (cases "ww_offset ?w2 \<ge> ww_max_segment_bytes ?w2")
        case True
        with a w f roll have "w' = w3" "d' = d3" "\<And>pos. r = Inr pos \<Longrightarrow> pos = position ?w2"
          by (auto split: sum.splits)
        with roll show ?thesis by (intro rolled [OF None refl refl]) auto
      next
        case False
        with a w f None show ?thesis
          by (intro plain) (auto split: sum.splits)
      qed
    qed
  qed
qed

lemma put_pending_inv:
  assumes inv: "wal_inv crc w d" and np: "ww_poisoned w = None" and "fits w (frames crc ps)"
    and "list_all small ps" and w': "ww_segment w' = ww_segment w"
    "ww_buf w' = drop n (ww_buf w @ frames crc ps)"
    "ww_poisoned w' = None \<Longrightarrow> ww_offset w' = ww_offset w + of_nat (length (frames crc ps))"
  shows "wal_inv crc w' (put_pending n w d (frames crc ps))"
proof -
  note spec = put_pending_spec [OF inv np assms (3), where n = n]
  have cur: "current w' (put_pending n w d (frames crc ps)) = current w d @ frames crc ps"
    using spec (5) w' by (simp add: current_def)
  have len: "length (current w d @ frames crc ps) < 2 ^ 32 - 1"
    using assms (3) wal_inv_offset [OF inv np] by (simp add: fits_def)
  have off: "ww_offset w = of_nat (length (current w d))" using inv np by (simp add: wal_inv_def)
  show ?thesis
    unfolding wal_inv_def cur w' (1)
    using spec (1,2) len off w' (3) parse_current_append (2) [OF inv np assms (4)] by simp
qed

lemma flushed_log:
  assumes inv: "wal_inv crc w d" and np: "ww_poisoned w = None" and "list_all small ps"
  obtains log1 where
    "wal_log crc (put_pending (length (ww_buf w @ frames crc ps)) w d (frames crc ps)) =
       log1 @ seg_entries (ww_segment w) (unat (ww_offset w)) ps"
    "prefix (wal_log crc d) log1" "ww_buf w = [] \<Longrightarrow> log1 = wal_log crc d"
proof -
  let ?s = "ww_segment w"
  have "wf_dir d" "newest ?s d" using inv by (auto simp: wal_inv_def)
  then obtain base where base: "wal_log crc d = base @ seg_log crc (?s, seg_bytes d ?s)"
    "\<And>bs. wal_log crc (write_seg ?s bs d) = base @ seg_log crc (?s, bs)"
    using wal_log_write_newest by blast
  have "seg_log crc (?s, current w d @ frames crc ps) =
      seg_log crc (?s, current w d) @ seg_entries ?s (unat (ww_offset w)) ps"
    using inv unfolding seg_log_def fst_conv snd_conv parse_current_append (1) [OF inv np assms (3)]
    by (simp add: seg_entries_append [where crc = crc] wal_inv_offset [OF inv np] wal_inv_def)
  then have "wal_log crc (put_pending (length (ww_buf w @ frames crc ps)) w d (frames crc ps)) =
      (base @ seg_log crc (?s, current w d)) @ seg_entries ?s (unat (ww_offset w)) ps"
    by (simp add: put_pending_def base (2) current_def)
  moreover have "prefix (wal_log crc d) (base @ seg_log crc (?s, current w d))"
    by (simp add: base (1) current_def seg_log_prefix)
  moreover have "ww_buf w = [] \<Longrightarrow> base @ seg_log crc (?s, current w d) = wal_log crc d"
    by (simp add: base (1) current_def)
  ultimately show thesis by (rule that)
qed

text \<open>What an append promises: the invariant, that no record is lost and the commit point
  stays; and, on success, that exactly the new records end the log, the returned position
  being the end of the last.\<close>

definition append_outcome ::
  "(byte list \<Rightarrow> u32) \<Rightarrow> byte list list \<Rightarrow> wal_writer \<Rightarrow> wal_dir \<Rightarrow> wal_position result
     \<Rightarrow> wal_writer \<Rightarrow> wal_dir \<Rightarrow> bool" where
  "append_outcome crc ps w d r w' d' \<longleftrightarrow>
     wal_inv crc w' d' \<and> prefix (wal_log crc d) (wal_log crc d') \<and> wd_commit d' = wd_commit d \<and>
     (\<forall>pos. r = Inr pos \<longrightarrow> ww_poisoned w = None \<and>
       pos = mk_position (ww_segment w) (of_nat (unat (ww_offset w) + length (frames crc ps))) \<and>
       (\<exists>log1. prefix (wal_log crc d) log1 \<and> (ww_buf w = [] \<longrightarrow> log1 = wal_log crc d) \<and>
          wal_log crc d' = log1 @ seg_entries (ww_segment w) (unat (ww_offset w)) ps))"

lemma append_outcome_flushed:
  fixes crc w d ps
  defines "w2 \<equiv> w\<lparr>ww_offset := ww_offset w + of_nat (length (frames crc ps)), ww_buf := []\<rparr>"
    and "d2 \<equiv> put_pending (length (ww_buf w @ frames crc ps)) w d (frames crc ps)"
  assumes inv: "wal_inv crc w d" and np: "ww_poisoned w = None" and fits: "fits w (frames crc ps)"
    and small: "list_all small ps"
    and w'd': "wal_inv crc w' d'" "wal_log crc d' = wal_log crc d2" "wd_commit d' = wd_commit d2"
    and pos: "\<And>pos. r = Inr pos \<Longrightarrow> pos = position w2"
  shows "append_outcome crc ps w d r w' d'"
proof -
  note spec = put_pending_spec [OF inv np fits, where n = "length (ww_buf w @ frames crc ps)", folded d2_def]
  obtain log1 where log1: "wal_log crc d2 = log1 @ seg_entries (ww_segment w) (unat (ww_offset w)) ps"
    "prefix (wal_log crc d) log1" "ww_buf w = [] \<Longrightarrow> log1 = wal_log crc d"
    using flushed_log [OF inv np small] unfolding d2_def by blast
  have "position w2 = mk_position (ww_segment w) (of_nat (unat (ww_offset w) + length (frames crc ps)))"
    by (simp add: position_def w2_def)
  with spec w'd' np pos log1 show ?thesis unfolding append_outcome_def by auto
qed

lemma append_encoded_spec:
  assumes inv: "wal_inv crc w d" and fits: "fits w (frames crc ps)" and small: "list_all small ps"
    and a: "append_encoded io w d (frames crc ps) = (r, w', d')"
  shows "append_outcome crc ps w d r w' d'"
proof -
  have fit: "unat (ww_segment w) + 1 < 2 ^ 32" using fits by (simp add: fits_def)
  from a show ?thesis
  proof (cases rule: append_encoded_cases)
    case poisoned
    then show ?thesis using inv by (auto simp: append_outcome_def)
  next
    case (write_fails msg)
    then show ?thesis
      using put_pending_spec [OF inv write_fails (1) fits, where n = "ai_written io"]
        put_pending_inv [OF inv write_fails (1) fits small, of w' "ai_written io"]
      by (simp add: append_outcome_def)
  next
    case (flush_fails e)
    then show ?thesis
      using put_pending_spec [OF inv flush_fails (1) fits, where n = "ai_written io"]
        put_pending_inv [OF inv flush_fails (1) fits small, of w' "ai_written io"]
      by (simp add: append_outcome_def)
  next
    case (rolled r2 w2 d2)
    have inv2: "wal_inv crc w2 d2"
      unfolding rolled (2,3) by (rule put_pending_inv [OF inv rolled (1) fits small]) simp_all
    have "ww_poisoned w2 = None" "ww_buf w2 = []" "unat (ww_segment w2) + 1 < 2 ^ 32"
      using rolled (1,2) fit by simp_all
    note rs = roll_spec [OF inv2 this rolled (4)]
    show ?thesis
      using rs (1-3) rolled (5) unfolding rolled (2,3)
      by (rule append_outcome_flushed [OF inv rolled (1) fits small])
  next
    case (plain w2 d2)
    have "wal_inv crc w2 d2"
      unfolding plain (2,3) by (rule put_pending_inv [OF inv plain (1) fits small]) simp_all
    with plain show ?thesis by (intro append_outcome_flushed [OF inv _ fits small]) auto
  qed
qed

subsection \<open>Opening after a crash\<close>

definition torn :: "byte list \<Rightarrow> bool" where
  "torn bs \<longleftrightarrow> length bs < 8 \<or> length bs < 8 + unat (u32_from_le_bytes (take 4 bs))"

lemma torn_first_record: "torn bs \<Longrightarrow> first_record crc bs = None"
  by (auto simp: torn_def first_record_def Let_def)

lemma prefix_frames_torn:
  assumes "prefix bs (frames crc qs)" "list_all small qs"
  shows "\<exists>j rest. bs = frames crc (take j qs) @ rest \<and> torn rest"
  using assms
proof (induction qs arbitrary: bs)
  case Nil
  then show ?case by (auto simp: torn_def)
next
  case (Cons q qs)
  show ?case
  proof (cases "prefix (frame crc q) bs")
    case True
    then obtain bs' where bs: "bs = frame crc q @ bs'" by (auto simp: prefix_def)
    from Cons.IH [of bs'] Cons.prems obtain j rest where "bs' = frames crc (take j qs) @ rest" "torn rest"
      by (auto simp: bs)
    then show ?thesis by (intro exI [of _ "Suc j"] exI [of _ rest]) (simp add: bs)
  next
    case False
    with Cons.prems (1) obtain c where c: "frame crc q = bs @ c" "c \<noteq> []"
      by (auto simp: prefix_append) (metis append_Nil2 prefix_def prefix_order.eq_iff)
    have len: "length bs < 8 + length q" using arg_cong [OF c (1), of length] c (2) by simp
    have "take 4 bs = u32_le_bytes (of_nat (length q))" if "8 \<le> length bs"
      using arg_cong [OF c (1), of "take 4"] that by (simp add: frame_def)
    then have "torn bs" using len Cons.prems (2) by (auto simp: torn_def small_unat)
    then show ?thesis by (intro exI [of _ 0] exI [of _ bs]) simp
  qed
qed

text \<open>A crash leaves a prefix of the bytes to be written: the offset found on opening is the
  end of the last complete record.\<close>

lemma last_complete_offset_torn:
  assumes "prefix bs (frames crc qs)" "list_all small qs" "length bs < 2 ^ 64"
  shows "last_complete_offset bs = length (frames crc (parse_frames crc bs))"
    "take (last_complete_offset bs) bs = frames crc (parse_frames crc bs)"
proof -
  obtain j rest where bs: "bs = frames crc (take j qs) @ rest" and t: "torn rest"
    using prefix_frames_torn [OF assms (1,2)] by blast
  have sm: "list_all small (take j qs)" using assms (2) by (auto simp: list_all_iff dest: in_set_takeD)
  have p: "parse_frames crc bs = take j qs"
    unfolding bs using sm torn_first_record [OF t, of crc]
    by (simp add: parse_frames_append parse_frames.simps [of crc rest])
  have "last_complete_from bs 0 = last_complete_from bs (length (frames crc (take j qs)))"
    using last_complete_from_frames [of "[]" crc "take j qs" rest] assms (3) sm by (simp add: bs)
  also have "\<dots> = length (frames crc (take j qs))"
    using last_complete_from_step [of "frames crc (take j qs)" rest] t assms (3)
    by (auto simp: bs torn_def Let_def)
  finally show off: "last_complete_offset bs = length (frames crc (parse_frames crc bs))"
    unfolding p last_complete_offset_def .
  show "take (last_complete_offset bs) bs = frames crc (parse_frames crc bs)"
    unfolding off unfolding p by (simp add: bs)
qed

text \<open>What a crash can leave: the newest segment ends in the middle of a record.\<close>

definition crash_state :: "(byte list \<Rightarrow> u32) \<Rightarrow> wal_dir \<Rightarrow> bool" where
  "crash_state crc d \<longleftrightarrow> wf_dir d \<and>
     (segments d \<noteq> [] \<longrightarrow>
        (\<exists>qs. prefix (seg_bytes d (last (segments d))) (frames crc qs) \<and> list_all small qs)
        \<and> unat (last (segments d)) + 1 < 2 ^ 32)"

lemma last_newest: "wf_dir d \<Longrightarrow> segments d \<noteq> [] \<Longrightarrow> newest (last (segments d)) d"
  unfolding newest_def segments_set [symmetric]
  by (metis last_in_set sorted_wrt_append append_butlast_last_id in_set_conv_decomp_last
      segments_sorted order_refl list.set_intros(1) set_ConsD Un_iff set_append empty_iff list.set(1))

lemma newest_last: "wf_dir d \<Longrightarrow> newest seg d \<Longrightarrow> segments d \<noteq> [] \<and> last (segments d) = seg"
  by (erule (1) newest_split) simp

lemma wal_inv_crash_state:
  assumes "wal_inv crc w d" "unat (ww_segment w) + 1 < 2 ^ 32"
  shows "crash_state crc d"
proof -
  have wf: "wf_dir d" and new: "newest (ww_segment w) d" using assms (1) by (auto simp: wal_inv_def)
  have "prefix (seg_bytes d (ww_segment w)) (frames crc (parse_frames crc (current w d)))"
    using assms (1) by (metis current_def prefixI wal_inv_def)
  then show ?thesis
    unfolding crash_state_def using newest_last [OF wf new] wf assms (2)
    by (auto intro: parse_frames_small)
qed

definition fresh_writer :: "wal_sync_mode \<Rightarrow> u64 \<Rightarrow> u64 \<Rightarrow> u64 \<Rightarrow> wal_writer" where
  "fresh_writer mode mx seg off = \<lparr>ww_segment = seg, ww_buf = [], ww_offset = off,
     ww_sync_mode = mode, ww_max_segment_bytes = mx, ww_poisoned = None\<rparr>"

lemma reopen_newest:
  assumes "crash_state crc d" "segments d \<noteq> []"
  defines "l \<equiv> last (segments d)"
  shows "\<exists>off d'. open_or_create_segment l d = (off, d') \<and> wal_inv crc (fresh_writer mode mx l off) d'
    \<and> wal_log crc d' = wal_log crc d \<and> wd_commit d' = wd_commit d"
proof -
  let ?bs = "seg_bytes d l"
  have wf: "wf_dir d" and u: "unat l + 1 < 2 ^ 32"
    using assms by (auto simp: crash_state_def)
  obtain qs where qs: "prefix ?bs (frames crc qs)" "list_all small qs"
    using assms by (auto simp: crash_state_def)
  have new: "newest l d" unfolding l_def using wf assms (2) by (rule last_newest)
  have len: "length ?bs < 2 ^ 64" using wf_dir_length [OF wf, of l] by simp
  note lc = last_complete_offset_torn [OF qs len]
  let ?d' = "write_seg l (frames crc (parse_frames crc ?bs)) d"
  obtain bs where bs: "map_of (wd_segs d) l = Some bs"
    using new by (metis newest_def map_of_eq_None_iff option.exhaust)
  then have op: "open_or_create_segment l d = (of_nat (last_complete_offset ?bs), ?d')"
    using lc (2) by (simp add: open_or_create_segment_def seg_bytes_def Let_def)
  have n: "newest l ?d'" using new by (rule newest_write)
  have "length (frames crc (parse_frames crc ?bs)) < 2 ^ 32 - 1"
    using frames_parse_length [of crc ?bs] wf_dir_length [OF wf, of l] by linarith
  then have "wal_inv crc (fresh_writer mode mx l (of_nat (last_complete_offset ?bs))) ?d'"
    using wf u n lc (1)
    by (simp add: wal_inv_def fresh_writer_def current_def wf_dir_write parse_frames_frames
        parse_frames_small)
  moreover have "wal_log crc ?d' = wal_log crc d"
    using new by (intro wal_log_cong) (auto simp: newest_def parse_frames_frames parse_frames_small)
  ultimately show ?thesis by (simp add: op)
qed

lemma open_with_segment_limit_spec:
  assumes cs: "crash_state crc d"
    and op: "open_with_segment_limit None mode mx d = Inr (w', d')"
  shows "wal_inv crc w' d'" "wal_log crc d' = wal_log crc d" "wd_commit d' = wd_commit d"
    "ww_poisoned w' = None" "ww_buf w' = []"
proof -
  have wf: "wf_dir d" using cs by (simp add: crash_state_def)
  define seg where "seg = (if segments d = [] then 0
    else if of_nat (length (seg_bytes d (last (segments d)))) \<ge> max mx 1
    then last (segments d) + 1 else last (segments d))"
  obtain off d1 where o: "open_or_create_segment seg d = (off, d1)" by fastforce
  have w': "w' = fresh_writer mode (max mx 1) seg off" "d' = d1"
    using op o unfolding open_with_segment_limit_def seg_def [symmetric] fresh_writer_def
    by (auto simp: Let_def seg_def split: if_splits)
  have "wal_inv crc (fresh_writer mode (max mx 1) seg off) d1 \<and> wal_log crc d1 = wal_log crc d
    \<and> wd_commit d1 = wd_commit d"
  proof (cases "segments d = []")
    case True
    then have e: "wd_segs d = []" using segments_set [of d] by simp
    with o have "off = 0" "d1 = write_seg 0 [] d" by (auto simp: seg_def True open_or_create_segment_def)
    moreover have "seg = 0" by (simp add: seg_def True)
    ultimately show ?thesis using e
      by (auto simp: wal_inv_def wf_dir_def newest_def fresh_writer_def current_def write_seg_def
          wal_log_def segments_def seg_bytes_def seg_log_def)
  next
    case ne: False
    show ?thesis
    proof (cases "of_nat (length (seg_bytes d (last (segments d)))) \<ge> max mx 1")
      case True
      with ne have seg: "seg = last (segments d) + 1" by (simp add: seg_def)
      have "unat (last (segments d)) + 1 < 2 ^ 32" using cs ne by (simp add: crash_state_def)
      note f = fresh_segment [OF wf last_newest [OF wf ne] this, folded seg]
      with o have "off = 0" "d1 = write_seg seg [] d" by auto
      then show ?thesis using f
        by (auto simp: wal_inv_def fresh_writer_def current_def)
    next
      case False
      with ne have "seg = last (segments d)" by (simp add: seg_def)
      then show ?thesis using reopen_newest [OF cs ne] o by auto
    qed
  qed
  with w' show "wal_inv crc w' d'" "wal_log crc d' = wal_log crc d" "wd_commit d' = wd_commit d"
    "ww_poisoned w' = None" "ww_buf w' = []" by (auto simp: fresh_writer_def)
qed

lemma open_with_segment_limit_opens: "\<exists>w' d'. open_with_segment_limit None mode mx d = Inr (w', d')"
  by (simp add: open_with_segment_limit_def Let_def split: prod.splits)

subsection \<open>The log under appends, commits and crashes\<close>

type_synonym wal_state = "wal_writer \<times> wal_dir \<times> (wal_position \<times> byte list) list"

text \<open>The operations of a running log with the records acknowledged so far: an append with any
  outcome of its file operations, a commit at or above the current commit point and within
  the written segments, and a restart, which opens the directory a crash left.\<close>

inductive wal_step :: "(byte list \<Rightarrow> u32) \<Rightarrow> wal_state \<Rightarrow> wal_state \<Rightarrow> bool" for crc where
  step_append: "wal_step crc (w, d, acked) (w', d', case r of Inl e \<Rightarrow> acked
      | Inr pos \<Rightarrow> acked @ seg_entries (ww_segment w) (unat (ww_offset w)) ps)"
  if "fits w (frames crc ps)" "list_all small ps"
    "append_encoded io w d (frames crc ps) = (r, w', d')"
| step_commit: "wal_step crc (w, d, acked) (w, d', acked)"
  if "read_commit d \<le> cp" "pos_segment cp \<le> ww_segment w" "commit io rm cp d = (r, d')"
| step_restart: "wal_step crc (w, d, acked) (w', d', acked)"
  if "unat (ww_segment w) + 1 < 2 ^ 32" "open_with_segment_limit None mode mx d = Inr (w', d')"

definition wal_init :: "wal_state \<Rightarrow> bool" where
  "wal_init s \<longleftrightarrow> (\<exists>mode mx w d. open_with_segment_limit None mode mx empty_dir = Inr (w, d) \<and> s = (w, d, []))"

definition wal_state_inv :: "(byte list \<Rightarrow> u32) \<Rightarrow> wal_state \<Rightarrow> bool" where
  "wal_state_inv crc s = (case s of (w, d, acked) \<Rightarrow>
     wal_inv crc w d \<and> (\<forall>e \<in> set acked. read_commit d < fst e \<longrightarrow> e \<in> set (wal_log crc d)))"

lemma uncovered_set: "set (uncovered cp es) = {e \<in> set es. cp < fst e}"
  by (auto simp: uncovered_def is_covered_by_def)

lemma wal_inv_cong:
  assumes "wal_inv crc w d" "wf_dir d'" "newest (ww_segment w) d'"
    "seg_bytes d' (ww_segment w) = seg_bytes d (ww_segment w)"
  shows "wal_inv crc w d'"
proof -
  have "current w d' = current w d" using assms (4) by (simp add: current_def)
  then show ?thesis using assms (1-3) unfolding wal_inv_def by simp
qed

lemma commit_inv:
  assumes "wal_inv crc w d" "pos_segment cp \<le> ww_segment w" "commit io rm cp d = (r, d')"
  shows "wal_inv crc w d'"
proof -
  have wf: "wf_dir d" and new: "newest (ww_segment w) d" using assms (1) by (auto simp: wal_inv_def)
  let ?p = "\<lambda>seq. \<not> seq \<ge> pos_segment cp"
  let ?d = "write_commit cp d"
  have nw: "ww_segment w \<notin> set (takeWhile ?p (segments ?d))"
    using assms (2) by (auto dest: set_takeWhileD)
  then have b: "seg_bytes (remove_covered_segments rm cp ?d) (ww_segment w) = seg_bytes d (ww_segment w)"
    by (simp add: remove_covered_segments_def remove_while_spec (2)) (simp add: seg_bytes_def)
  have n: "newest (ww_segment w) (remove_covered_segments rm cp ?d)"
    using new nw unfolding newest_def segments_set [symmetric] remove_covered_segments_def
      remove_while_spec (1) by (auto simp: segments_def)
  have f: "wf_dir (remove_covered_segments rm cp ?d)"
    using wf by (simp add: remove_covered_segments_def remove_while_wf)
  have "d' = d \<or> d' = remove_covered_segments rm cp ?d"
    using assms (3) by (auto simp: commit_def split: if_splits option.splits)
  then show ?thesis using assms (1) wal_inv_cong [OF assms (1) f n b] by blast
qed

lemma wal_state_inv_append:
  assumes "wal_state_inv crc (w, d, acked)" "append_outcome crc ps w d r w' d'"
  shows "wal_state_inv crc (w', d', case r of Inl e \<Rightarrow> acked
      | Inr pos \<Rightarrow> acked @ seg_entries (ww_segment w) (unat (ww_offset w)) ps)"
proof -
  have "read_commit d' = read_commit d"
    by (rule read_commit_cong) (use assms (2) in \<open>simp add: append_outcome_def\<close>)
  moreover have "set (wal_log crc d) \<subseteq> set (wal_log crc d')"
    using assms (2) by (simp add: append_outcome_def set_mono_prefix)
  moreover have "set (seg_entries (ww_segment w) (unat (ww_offset w)) ps) \<subseteq> set (wal_log crc d')"
    if "r = Inr pos" for pos
    using assms (2) that unfolding append_outcome_def by auto
  moreover have "wal_inv crc w' d'" using assms (2) by (simp add: append_outcome_def)
  ultimately show ?thesis using assms (1) by (cases r) (auto simp: wal_state_inv_def)
qed

lemma wal_state_inv_commit:
  assumes "wal_state_inv crc (w, d, acked)" "read_commit d \<le> cp" "pos_segment cp \<le> ww_segment w"
    and "commit io rm cp d = (r, d')"
  shows "wal_state_inv crc (w, d', acked)"
proof -
  have inv: "wal_inv crc w d" using assms (1) by (simp add: wal_state_inv_def)
  then have wf: "wf_dir d" by (simp add: wal_inv_def)
  note c = commit_spec (1) [OF wf assms (4), where crc = crc]
  have r: "read_commit d' = cp \<or> d' = d"
    using commit_spec (3,4) [OF wf assms (4)] by (cases r) auto
  have "e \<in> set (wal_log crc d')" if "e \<in> set (wal_log crc d)" "cp < fst e" for e
  proof -
    have "e \<in> set (uncovered cp (wal_log crc d))" using that by (simp add: uncovered_set)
    then show ?thesis unfolding c [symmetric] by (simp add: uncovered_set)
  qed
  with r show ?thesis
    using commit_inv [OF inv assms (3,4)] assms (1,2) by (auto simp: wal_state_inv_def)
qed

lemma wal_state_inv_restart:
  assumes "wal_state_inv crc (w, d, acked)" "unat (ww_segment w) + 1 < 2 ^ 32"
    and op: "open_with_segment_limit None mode mx d = Inr (w', d')"
  shows "wal_state_inv crc (w', d', acked)"
proof -
  have "wal_inv crc w d" using assms (1) by (simp add: wal_state_inv_def)
  then have "crash_state crc d" using assms (2) by (rule wal_inv_crash_state)
  note o = open_with_segment_limit_spec [OF this op]
  show ?thesis using assms (1) o (1,2) read_commit_cong [OF o (3)] by (simp add: wal_state_inv_def)
qed

interpretation wal: state_machine wal_init "wal_step crc" "wal_state_inv crc" for crc
proof
  show "wal_state_inv crc s" if i: "wal_init s" for s
  proof -
    obtain mode mx w d where o: "open_with_segment_limit None mode mx empty_dir = Inr (w, d)"
      and s: "s = (w, d, [])" using i unfolding wal_init_def by blast
    have "crash_state crc empty_dir" by (simp add: crash_state_def empty_dir_def wf_dir_def segments_def)
    from open_with_segment_limit_spec (1) [OF this o] show ?thesis by (simp add: s wal_state_inv_def)
  qed
  show "wal_state_inv crc t" if "wal_state_inv crc s" "wal_step crc s t" for s t
    using that (2)
  proof cases
    case (step_append w ps io d r w' d' acked)
    have inv: "wal_state_inv crc (w, d, acked)" using that (1) step_append (1) by simp
    then have "wal_inv crc w d" by (simp add: wal_state_inv_def)
    from append_encoded_spec [OF this step_append (3-5)] show ?thesis
      unfolding step_append (2) by (rule wal_state_inv_append [OF inv])
  next
    case (step_commit d cp w io rm r d' acked)
    with that (1) show ?thesis by (metis wal_state_inv_commit)
  next
    case (step_restart w mode mx d w' d' acked)
    with that (1) show ?thesis by (metis wal_state_inv_restart)
  qed
qed

lemma next_covered_None: "next_covered at ranges = None \<longleftrightarrow> (\<forall>r \<in> set ranges. fst r \<le> at \<longrightarrow> snd r \<le> at)"
  by (auto simp: next_covered_def Let_def filter_empty_conv not_less)

lemma next_covered_Some:
  assumes "next_covered at ranges = Some to"
  shows "\<exists>r \<in> set ranges. fst r \<le> at \<and> snd r = to"
proof -
  let ?tos = "map snd (filter (\<lambda>r. fst r \<le> at \<and> snd r > at) ranges)"
  from assms have "to = fold max ?tos 0" by (auto simp: next_covered_def Let_def split: if_splits)
  moreover have "to \<noteq> 0" using next_covered_greater [OF assms] by auto
  ultimately show ?thesis using fold_max_in [of ?tos 0] by auto
qed

lemma covered_from_spec:
  "c \<le> covered_from ranges c
   \<and> (\<forall>p. c < p \<and> p \<le> covered_from ranges c \<longrightarrow> (\<exists>r \<in> set ranges. fst r < p \<and> p \<le> snd r))
   \<and> (\<forall>r \<in> set ranges. fst r \<le> covered_from ranges c \<longrightarrow> snd r \<le> covered_from ranges c)"
proof (induction ranges c rule: covered_from.induct)
  case (1 ranges at)
  show ?case
  proof (cases "next_covered at ranges")
    case None
    then have "covered_from ranges at = at" by (simp add: covered_from.simps [of ranges at])
    then show ?thesis using None by (auto simp: next_covered_None)
  next
    case (Some to)
    obtain r where r: "r \<in> set ranges" "fst r \<le> at" "snd r = to" using next_covered_Some [OF Some] by blast
    have "\<exists>r \<in> set ranges. fst r < p \<and> p \<le> snd r" if "at < p" "p \<le> to" for p
      using r that by (intro bexI [of _ r]) auto
    then show ?thesis
      using 1 [OF Some] next_covered_greater [OF Some]
      by (simp add: covered_from.simps [of ranges at] Some) (meson less_imp_le linorder_not_le order_trans)
  qed
qed

lemma replay_values:
  "wf_dir d \<Longrightarrow> fst (snd (replay de crc (\<lambda>_. None) cp d)) = replayed de cp (wal_log crc d)"
  by (metis fst_conv replay_spec snd_conv)



definition sum_crc :: "byte list \<Rightarrow> u32" where
  "sum_crc bs = foldr (\<lambda>b acc. 31 * acc + ucast b) bs 7"

definition dir1 :: wal_dir where
  "dir1 = \<lparr>wd_segs = [(0, frame sum_crc [1, 2] @ frame sum_crc [3] @ [9, 9])], wd_commit = None\<rparr>"

lemma parse_short [simp]: "length bs < 8 \<Longrightarrow> parse_frames crc bs = []"
  by (simp add: parse_frames.simps [of crc bs] first_record_def)

lemma dir1_log: "wf_dir dir1" "wal_log sum_crc dir1 = [(11, [1, 2]), (20, [3])]"
  by (simp_all add: dir1_def wf_dir_def wal_log_def segments_def seg_bytes_def seg_log_def small_def
      mk_position_def)


definition writer0 :: wal_writer where
  "writer0 = \<lparr>ww_segment = 0, ww_buf = [], ww_offset = 0, ww_sync_mode = SyncAlways,
     ww_max_segment_bytes = 1024, ww_poisoned = None\<rparr>"

definition dir0 :: wal_dir where
  "dir0 = \<lparr>wd_segs = [(0, [])], wd_commit = None\<rparr>"

lemma open_empty: "open_with_segment_limit None SyncAlways 1024 empty_dir = Inr (writer0, dir0)"
  by (simp add: open_with_segment_limit_def empty_dir_def segments_def open_or_create_segment_def
      write_seg_def writer0_def dir0_def)

lemma append_one:
  "append_encoded io_ok writer0 dir0 (frames sum_crc [[5]]) =
     (Inr 10, writer0\<lparr>ww_offset := 9\<rparr>, \<lparr>wd_segs = [(0, frame sum_crc [5])], wd_commit = None\<rparr>)"
  by (simp add: append_encoded_def io_ok_def writer0_def dir0_def write_seg_def seg_bytes_def Let_def
      position_def mk_position_def maybe_sync_def)


lemma seg_entries_snd [simp]: "map snd (seg_entries s n qs) = qs"
  by (induction qs arbitrary: n) auto

lemma seg_entries_empty [simp]: "seg_entries s n qs = [] \<longleftrightarrow> qs = []"
  by (cases qs) auto

lemma seg_entries_last:
  "qs \<noteq> [] \<Longrightarrow> fst (last (seg_entries s n qs)) = mk_position s (of_nat (n + length (frames crc qs)))"
proof (induction qs arbitrary: n)
  case (Cons q qs)
  then show ?case by (cases "qs = []") (simp_all add: add.assoc del: of_nat_add)
qed simp





text \<open>C7: A crash in the middle of a write costs nothing: whatever prefix of the pending bytes
  reached the file when an append failed, opening the directory again gives a writer in order
  whose log holds every record from before, and the commit point is unchanged.\<close>

theorem reopen_after_failed_append:
  assumes "wal_inv crc w d" "fits w (frames crc ps)" "list_all small ps"
    and "append_encoded io w d (frames crc ps) = (Inl e, w1, d1)" "unat (ww_segment w1) + 1 < 2 ^ 32"
  shows "\<exists>w2 d2. open_with_segment_limit None mode mx d1 = Inr (w2, d2) \<and> wal_inv crc w2 d2
    \<and> ww_poisoned w2 = None \<and> prefix (wal_log crc d) (wal_log crc d2) \<and> read_commit d2 = read_commit d"
proof -
  have out: "wal_inv crc w1 d1" "prefix (wal_log crc d) (wal_log crc d1)" "wd_commit d1 = wd_commit d"
    using append_encoded_spec [OF assms (1-4)] by (auto simp: append_outcome_def)
  obtain w2 d2 where op: "open_with_segment_limit None mode mx d1 = Inr (w2, d2)"
    using open_with_segment_limit_opens by blast
  note o = open_with_segment_limit_spec [OF wal_inv_crash_state [OF out (1) assms (5)] op]
  have "wd_commit d2 = wd_commit d" using o (3) out (3) by simp
  from read_commit_cong [OF this] show ?thesis using op o out (2) by simp
qed

lemma append_torn:
  "append_encoded (io_ok\<lparr>ai_write := Some ''disk full'', ai_written := 5\<rparr>) writer0 dir0 (frames sum_crc [[5]]) =
     (Inl (Io ''disk full''),
      writer0\<lparr>ww_poisoned := Some ''disk full'', ww_buf := drop 5 (frame sum_crc [5])\<rparr>,
      \<lparr>wd_segs = [(0, take 5 (frame sum_crc [5]))], wd_commit = None\<rparr>)"
  by (simp add: append_encoded_def io_ok_def writer0_def dir0_def write_seg_def seg_bytes_def Let_def)

theorem reopen_after_failed_append_witness:
  "\<exists>w2 d2. open_with_segment_limit None SyncAlways 1024
      \<lparr>wd_segs = [(0, take 5 (frame sum_crc [5]))], wd_commit = None\<rparr> = Inr (w2, d2)
    \<and> wal_inv sum_crc w2 d2 \<and> ww_poisoned w2 = None"
proof -
  have i: "wal_inv sum_crc writer0 dir0"
    by (simp add: wal_inv_def writer0_def dir0_def wf_dir_def newest_def current_def seg_bytes_def)
  have "fits writer0 (frames sum_crc [[5]])" "list_all small [[5]]"
    by (simp_all add: writer0_def fits_def small_def)
  from reopen_after_failed_append [OF i this append_torn, of SyncAlways 1024] show ?thesis
    by (auto simp: writer0_def)
qed

text \<open>A block's WAL coverage survives its footer: decoding an encoded range returns the
  range, and a range that ends before it starts is refused.\<close>

theorem wal_range_roundtrip:
  "decode_wal_range (encode_wal_range r) = (if fst r \<le> snd r then Some r else None)"
  using split_once_append [OF dec_string_no_sign (2), of "unat (fst r)" "u64_to_string (snd r)"]
  by (auto simp: decode_wal_range_def encode_wal_range_def simp flip: u64_to_string_def)

text \<open>C8: The recovery point never skips a gap: every position between the commit point and
  the result lies in the range of a block on disk, and no block on disk that starts at or below
  the result reaches further.\<close>

theorem covered_through_exact:
  "cp \<le> covered_through cp ranges
   \<and> (\<forall>p. cp < p \<and> p \<le> covered_through cp ranges \<longrightarrow> (\<exists>r \<in> set ranges. fst r < p \<and> p \<le> snd r))
   \<and> (\<forall>r \<in> set ranges. fst r \<le> covered_through cp ranges \<longrightarrow> snd r \<le> covered_through cp ranges)"
  unfolding covered_through_def by (rule covered_from_spec)

theorem covered_through_exact_witness:
  "covered_through 5 [(9, 12), (5, 8), (20, 30), (8, 9)] = 12 \<and>
   (\<exists>r \<in> set [(9, 12), (5, 8), (20, 30), (8, 9)]. fst r < (11 :: u64) \<and> (11 :: u64) \<le> snd r)"
proof -
  have "covered_through 5 [(9, 12), (5, 8), (20, 30), (8, 9)] = 12"
    by (simp add: covered_through_def covered_from.simps next_covered_def)
  moreover have "5 < (11 :: u64) \<and> 11 \<le> (12 :: u64)" by simp
  ultimately show ?thesis
    using covered_through_exact [of 5 "[(9, 12), (5, 8), (20, 30), (8, 9)]"] by metis
qed

text \<open>A value is logged before it is acknowledged: when \<open>append\<close> returns a position, the value
  is the last thing a replay from any earlier commit point hands back, after everything a
  replay handed back before.\<close>

theorem append_then_replay:
  assumes "wal_inv crc w d" "ww_buf w = []" "ser v = Inr p" "de p = Some v"
    and "fits w (frame crc p)" "small p"
    and "append ser crc io w d v = (Inr pos, w', d')" "cp < pos"
  shows "fst (snd (replay de crc (\<lambda>_. None) cp d')) = fst (snd (replay de crc (\<lambda>_. None) cp d)) @ [v]"
proof -
  have a: "append_encoded io w d (frames crc [p]) = (Inr pos, w', d')"
    using assms (3,7) by (simp add: append_def encode_record_def encode_record_into_frame split: option.splits)
  have "fits w (frames crc [p])" "list_all small [p]" using assms (5,6) by simp_all
  note out = append_encoded_spec [OF assms (1) this a]
  have wf: "wf_dir d" "wf_dir d'" using assms (1) out by (auto simp: append_outcome_def wal_inv_def)
  have "wal_log crc d' = wal_log crc d @ [(pos, p)]"
    using out assms (2) by (auto simp: append_outcome_def add.assoc)
  then have "replayed de cp (wal_log crc d') = replayed de cp (wal_log crc d) @ [v]"
    using assms (4,8) by (simp add: is_covered_by_def)
  then show ?thesis unfolding wf [THEN replay_values] .
qed

theorem append_then_replay_witness:
  "fst (snd (replay Some sum_crc (\<lambda>_. None) START (snd (snd (append Inr sum_crc io_ok writer0 dir0 [5]))))) =
     fst (snd (replay Some sum_crc (\<lambda>_. None) START dir0)) @ [[5]]"
proof -
  have i: "wal_inv sum_crc writer0 dir0"
    by (simp add: wal_inv_def writer0_def dir0_def wf_dir_def newest_def current_def seg_bytes_def)
  have a: "append Inr sum_crc io_ok writer0 dir0 [5] = (Inr 10, writer0\<lparr>ww_offset := 9\<rparr>,
      \<lparr>wd_segs = [(0, frame sum_crc [5])], wd_commit = None\<rparr>)"
    using append_one by (simp add: append_def encode_record_def encode_record_into_frame writer0_def)
  have "ww_buf writer0 = []" "fits writer0 (frame sum_crc [5])" "small [5]" "START < (10 :: u64)"
    by (simp_all add: writer0_def fits_def small_def START_def)
  with append_then_replay [where ser = Inr and de = Some and v = "[5]" and p = "[5]", OF i _ _ _ _ _ a]
  show ?thesis by (simp add: a)
qed

text \<open>A writer that failed to write refuses everything after: the failed append reports the
  error, and every later append on that writer fails and leaves writer and directory alone.\<close>

theorem failed_write_poisons:
  assumes "ai_write io = Some msg" "append_encoded io w d records = (r, w', d')"
  shows "(\<exists>e. r = Inl e) \<and> (\<forall>io2 d2 more_records. \<exists>e2.
     append_encoded io2 w' d2 more_records = (Inl e2, w', d2))"
proof (cases "ww_poisoned w")
  case None
  then show ?thesis using assms by (auto simp: append_encoded_def Let_def)
next
  case (Some err)
  then show ?thesis using assms by (auto simp: append_encoded_def)
qed

theorem failed_write_poisons_witness:
  "\<exists>e2. append_encoded io_ok (writer0\<lparr>ww_poisoned := Some ''disk full'',
     ww_buf := drop 5 (frame sum_crc [5])\<rparr>) dir0 [] =
   (Inl e2, writer0\<lparr>ww_poisoned := Some ''disk full'', ww_buf := drop 5 (frame sum_crc [5])\<rparr>, dir0)"
proof -
  have "ai_write (io_ok\<lparr>ai_write := Some ''disk full'', ai_written := 5\<rparr>) = Some ''disk full''" by simp
  from failed_write_poisons [OF this append_torn] show ?thesis by blast
qed

text \<open>A record that fails its checksum ends its segment: the records before it are
  replayed, those after it in the same segment are not, and the file is cut at the bad record.\<close>

theorem corrupt_record_ends_segment:
  fixes crc de seq ps p c qs
  defines "bad \<equiv> u32_le_bytes (of_nat (length p)) @ u32_le_bytes c @ p"
  defines "bytes \<equiv> frames crc ps @ bad @ frames crc qs"
  assumes "list_all small ps" "small p" "crc p \<noteq> c" "length bytes < 2 ^ 64"
  shows "replay_loop de crc START seq bytes 0 [] no_stats =
     (replayed de START (seg_entries seq 0 ps),
      add_stats (length (replayed de START (seg_entries seq 0 ps)))
        (not_replayed de START (seg_entries seq 0 ps)) 0 no_stats,
      Some (length (frames crc ps)))"
proof -
  have "first_record crc (bad @ frames crc qs) = None"
    using assms (4,5) by (simp add: first_record_def bad_def small_unat Let_def)
  then have "parse_frames crc bytes = ps"
    unfolding bytes_def using assms (3)
    by (simp add: parse_frames_append parse_frames.simps [of crc "bad @ frames crc qs"])
  moreover have "length (frames crc ps) + 8 \<le> length bytes" by (simp add: bytes_def bad_def)
  ultimately show ?thesis
    using replay_loop_spec [of "[]" bytes de crc START seq "[]" no_stats] assms (6) by (simp add: Let_def)
qed

theorem corrupt_record_ends_segment_witness:
  "replay_loop Some sum_crc START 0
     (frames sum_crc [[1]] @ (u32_le_bytes (of_nat (length [2])) @ u32_le_bytes 0 @ [2]) @ frames sum_crc [[3]])
     0 [] no_stats = ([[1]], no_stats\<lparr>rs_records := 1\<rparr>, Some 9)"
proof -
  have "sum_crc [2] \<noteq> 0" by (simp add: sum_crc_def)
  moreover have "list_all small [[1]]" "small [2]" by (simp_all add: small_def)
  ultimately show ?thesis
    using corrupt_record_ends_segment [of "[[1]]" "[2]" sum_crc 0 "[[3]]" Some 0]
    by (simp add: is_covered_by_def START_def mk_position_def add_stats_def no_stats_def)
qed

text \<open>A segment with one good record and one whose checksum is wrong.\<close>

definition bad_bytes :: "byte list" where
  "bad_bytes = frame sum_crc [1] @ u32_le_bytes 20 @ u32_le_bytes 0 @ replicate 20 0"

definition dir_bad :: wal_dir where
  "dir_bad = \<lparr>wd_segs = [(0, bad_bytes)], wd_commit = None\<rparr>"

lemma sum_crc_zeros: "sum_crc (replicate 20 0) \<noteq> 0"
proof -
  have "replicate 20 (0 :: byte) = [0,0,0,0,0,0,0,0,0,0,0,0,0,0,0,0,0,0,0,0]"
    by (simp add: numeral_eq_Suc)
  then show ?thesis by (simp add: sum_crc_def)
qed

lemma bad_bytes_length [simp]: "length bad_bytes = 37"
  by (simp add: bad_bytes_def)

lemma open_bad: "open_with_segment_limit None SyncAlways 1024 dir_bad =
    Inr (writer0\<lparr>ww_offset := 37\<rparr>, dir_bad)"
proof -
  let ?bad = "u32_le_bytes 20 @ u32_le_bytes 0 @ replicate 20 0"
  have "last_complete_from bad_bytes 0 = last_complete_from bad_bytes 9"
    using last_complete_from_frames [of "[]" sum_crc "[[1]]" ?bad] by (simp add: small_def bad_bytes_def)
  also have "\<dots> = last_complete_from bad_bytes 37"
    using last_complete_from_step [of "frame sum_crc [1]" ?bad] by (simp add: bad_bytes_def)
  also have "\<dots> = 37"
    using last_complete_from_step [of bad_bytes "[]"] by simp
  finally show ?thesis
    by (simp add: open_with_segment_limit_def dir_bad_def segments_def seg_bytes_def writer0_def
        open_or_create_segment_def last_complete_offset_def write_seg_def)
qed

lemma replay_bad: "snd (snd (replay de sum_crc (\<lambda>_. None) START dir_bad)) =
    \<lparr>wd_segs = [(0, frame sum_crc [1])], wd_commit = None\<rparr>"
proof -
  let ?bad = "u32_le_bytes 20 @ u32_le_bytes 0 @ replicate 20 0"
  have "first_record sum_crc ?bad = None"
    using sum_crc_zeros by (simp add: first_record_def)
  then have "parse_frames sum_crc ?bad = []" by (simp add: parse_frames.simps [of sum_crc ?bad])
  then have p: "parse_frames sum_crc bad_bytes = [[1]]"
    unfolding bad_bytes_def by (simp add: small_def)
  have "replay_loop de sum_crc START 0 bad_bytes 0 [] no_stats =
      (replayed de START (seg_entries 0 0 [[1]]),
       add_stats (length (replayed de START (seg_entries 0 0 [[1]])))
         (not_replayed de START (seg_entries 0 0 [[1]])) 0 no_stats, Some 9)"
    using replay_loop_spec [of "[]" bad_bytes de sum_crc START 0 "[]" no_stats] by (simp add: p)
  then show ?thesis
    by (simp add: replay_def dir_bad_def segments_def seg_bytes_def write_seg_def) (simp add: bad_bytes_def)
qed


text \<open>Opening before replaying leaves the writer's offset behind: the writer counts a record
  with a bad checksum that replay then cuts off, so the position it returns for the next
  record lies beyond the ends of later records, and committing that position makes replay skip
  a record that was acknowledged above it.\<close>

theorem stale_offset_loses_acknowledged:
  "\<exists>w d w1 d1 w2 d2. open_with_segment_limit None SyncAlways 1024 dir_bad = Inr (w, d)
     \<and> append Inr sum_crc io_ok w (snd (snd (replay Some sum_crc (\<lambda>_. None) START d))) [2] = (Inr 47, w1, d1)
     \<and> append Inr sum_crc io_ok w1 (snd (commit None (\<lambda>_. True) 47 d1)) [3] = (Inr 56, w2, d2)
     \<and> read_commit d2 = 47
     \<and> fst (snd (replay Some sum_crc (\<lambda>_. None) (read_commit d2) d2)) = []"
proof -
  let ?d2 = "\<lparr>wd_segs = [(0, frames sum_crc [[1], [2], [3]])], wd_commit = Some (u64_to_string 47)\<rparr> :: wal_dir"
  have wf: "wf_dir ?d2" by (simp add: wf_dir_def)
  have log: "wal_log sum_crc ?d2 = [(10, [1]), (19, [2]), (28, [3])]"
    using parse_frames_frames [of "[[1], [2], [3]]" sum_crc]
    by (simp add: wal_log_def segments_def seg_bytes_def seg_log_def small_def mk_position_def)
  have c: "read_commit ?d2 = 47" by (simp add: read_commit_def read_commit_inner_def)
  have "fst (snd (replay Some sum_crc (\<lambda>_. None) 47 ?d2)) = []"
    unfolding replay_values [OF wf] log by (simp add: is_covered_by_def)
  moreover have "append Inr sum_crc io_ok (writer0\<lparr>ww_offset := 37\<rparr>)
      (snd (snd (replay Some sum_crc (\<lambda>_. None) START dir_bad))) [2] =
    (Inr 47, writer0\<lparr>ww_offset := 46\<rparr>, \<lparr>wd_segs = [(0, frames sum_crc [[1], [2]])], wd_commit = None\<rparr>)"
    by (simp add: replay_bad append_def encode_record_def encode_record_into_frame append_encoded_def io_ok_def
        writer0_def write_seg_def seg_bytes_def position_def mk_position_def maybe_sync_def)
  moreover have "append Inr sum_crc io_ok (writer0\<lparr>ww_offset := 46\<rparr>)
      (snd (commit None (\<lambda>_. True) 47 \<lparr>wd_segs = [(0, frames sum_crc [[1], [2]])], wd_commit = None\<rparr>)) [3] =
    (Inr 56, writer0\<lparr>ww_offset := 55\<rparr>, ?d2)"
    by (simp add: commit_def START_def remove_covered_segments_def segments_def pos_segment_def write_commit_def
        append_def encode_record_def encode_record_into_frame append_encoded_def io_ok_def
        writer0_def write_seg_def seg_bytes_def position_def mk_position_def maybe_sync_def)
  ultimately show ?thesis using open_bad c by (metis)
qed

end
