(* ===== verification/Models.thy ===== *)
theory Models
  imports Labels
begin

section \<open>The data model of the three signals\<close>

text \<open>
  The records of \<^verbatim>\<open>parqtel-core/src/models\<close>: metrics, data points, log records and spans, and
  the description of a stored block. A double is the 64 bits of its IEEE representation; the
  components modelled here move doubles and never compute with them. Timestamps are signed 64
  bit integers, kept as integers with the wrap-around written out where the code subtracts.
\<close>

type_synonym f64 = u64

type_synonym i64 = int

definition wrap_i64 :: "int \<Rightarrow> i64" where
  "wrap_i64 x = (x + 2 ^ 63) mod 2 ^ 64 - 2 ^ 63"

lemma wrap_i64_id: "- (2 ^ 63) \<le> x \<Longrightarrow> x < 2 ^ 63 \<Longrightarrow> wrap_i64 x = x"
  by (simp add: wrap_i64_def)

lemma wrap_i64_range: "- (2 ^ 63) \<le> wrap_i64 x \<and> wrap_i64 x < 2 ^ 63"
  by (simp add: wrap_i64_def)

subsection \<open>Metrics\<close>

datatype metric_kind = Gauge | Sum | HistogramKind | SummaryKind

record histogram_value =
  hv_count :: u64
  hv_sum :: f64
  hv_min :: "f64 option"
  hv_max :: "f64 option"
  hv_boundaries :: "f64 list"
  hv_counts :: "u64 list"

record summary_value =
  sv_count :: u64
  sv_sum :: f64
  sv_quantiles :: "(f64 \<times> f64) list"

datatype metric_value =
  Double f64 | IntVal i64 | Histogram histogram_value | Summary summary_value

record data_point =
  dp_timestamp_ns :: i64
  dp_value :: metric_value
  dp_labels :: label_set

definition data_point_new :: "i64 \<Rightarrow> metric_value \<Rightarrow> label_set \<Rightarrow> data_point result" where
  "data_point_new ts v ls =
     (if ts \<le> 0 then Inl (Validation ''Data point timestamp must be greater than zero'')
      else Inr \<lparr>dp_timestamp_ns = ts, dp_value = v, dp_labels = ls\<rparr>)"

record metric =
  m_name :: string
  m_description :: string
  m_unit :: string
  m_kind :: metric_kind
  m_resource_attributes :: label_set
  m_data_points :: "data_point list"

subsection \<open>Logs and spans\<close>

record log_record =
  lr_timestamp_ns :: i64
  lr_observed_timestamp_ns :: i64
  lr_severity_number :: int
  lr_severity_text :: string
  lr_body :: string
  lr_attributes :: label_set
  lr_resource_attributes :: label_set
  lr_trace_id :: "u8 list"
  lr_span_id :: "u8 list"
  lr_flags :: u32
  lr_scope_name :: string
  lr_scope_version :: string

record span_event =
  se_time_ns :: i64
  se_name :: string
  se_attributes :: label_set

record span_link =
  sl_trace_id :: "u8 list"
  sl_span_id :: "u8 list"
  sl_attributes :: label_set

record span_status =
  ss_code :: int
  ss_message :: string

record span =
  sp_trace_id :: "u8 list"
  sp_span_id :: "u8 list"
  sp_trace_state :: string
  sp_name :: string
  sp_kind :: int
  sp_start_time_ns :: i64
  sp_end_time_ns :: i64
  sp_attributes :: label_set
  sp_events :: "span_event list"
  sp_links :: "span_link list"
  sp_status :: span_status
  sp_parent_span_id :: "u8 list"
  sp_flags :: u32

definition duration_ns :: "span \<Rightarrow> i64" where
  "duration_ns s = wrap_i64 (sp_end_time_ns s - sp_start_time_ns s)"

subsection \<open>Blocks\<close>

datatype signal_type = Metrics | Logs | Traces

definition signal_as_str :: "signal_type \<Rightarrow> string" where
  "signal_as_str s = (case s of Metrics \<Rightarrow> ''metrics'' | Logs \<Rightarrow> ''logs'' | Traces \<Rightarrow> ''traces'')"

definition signal_index :: "signal_type \<Rightarrow> nat" where
  "signal_index s = (case s of Metrics \<Rightarrow> 0 | Logs \<Rightarrow> 1 | Traces \<Rightarrow> 2)"

definition ALL_signals :: "signal_type list" where
  "ALL_signals = [Metrics, Logs, Traces]"

record block_metadata =
  bm_path :: string
  bm_start_timestamp_ns :: i64
  bm_end_timestamp_ns :: i64
  bm_row_count :: nat
  bm_size_bytes :: u64
  bm_metric_names :: "string set"
  bm_label_names :: "string set"
  bm_label_values :: "(string \<times> string set) list"
  bm_signal_type :: signal_type
  bm_wal_range :: "(u64 \<times> u64) option"

lemma ALL_signals_index: "s \<in> set ALL_signals \<and> ALL_signals ! signal_index s = s"
  by (cases s) (simp_all add: ALL_signals_def signal_index_def)

end
