(* ===== verification/Buffer.thy ===== *)
theory Buffer
  imports Models "HOL-Library.AList"
begin

section \<open>The in-memory buffer\<close>

text \<open>
  The model of \<^verbatim>\<open>parqtel-core/src/buffer.rs\<close>. The metric buffer is a list of sixteen maps from
  metric names to slots; a slot holds the points oldest first, the marks at which the writer
  shard or epoch of the points changes, and the distinct label sets seen. A map is an
  association list: its order stands for the unspecified order of the source's hash map. The
  hash that picks a map is an argument.

  The interface \<open>epoch_buffer\<close> states what a flush relies on: a push adds tagged points at the
  end and dropping the sealed epochs removes a prefix of sealed points. The memory buffer is an
  instance; the facts about which points survive a flush are proved in the interface.
\<close>

type_synonym u16 = "16 word"

definition METRIC_MAP_SHARDS :: nat where "METRIC_MAP_SHARDS = 16"

definition UNTRACKED :: u16 where "UNTRACKED = 65535"

record epoch_mark =
  em_start :: nat
  em_shard :: u16
  em_epoch :: u64

record slot =
  sl_points :: "data_point list"
  sl_marks :: "epoch_mark list"
  sl_series :: "label_set list"
  sl_series_seen :: "nat set"

record memory_buffer =
  mb_metrics :: "(string \<times> slot) list list"
  mb_logs :: "log_record list"
  mb_spans :: "span list"

definition map_shard :: "(string \<Rightarrow> u64) \<Rightarrow> string \<Rightarrow> nat" where
  "map_shard hash name = unat (hash name) mod METRIC_MAP_SHARDS"

definition buffer_new :: memory_buffer where
  "buffer_new = \<lparr>mb_metrics = replicate METRIC_MAP_SHARDS [], mb_logs = [], mb_spans = []\<rparr>"

definition empty_slot :: slot where
  "empty_slot = \<lparr>sl_points = [], sl_marks = [], sl_series = [], sl_series_seen = {}\<rparr>"

subsection \<open>Pushing\<close>

definition note_series :: "data_point \<Rightarrow> slot \<Rightarrow> slot" where
  "note_series dp s =
     (if ls_addr (dp_labels dp) \<in> sl_series_seen s then s
      else s\<lparr>sl_series := sl_series s @ [dp_labels dp],
             sl_series_seen := insert (ls_addr (dp_labels dp)) (sl_series_seen s)\<rparr>)"

definition slot_push :: "data_point list \<Rightarrow> u16 \<Rightarrow> u64 \<Rightarrow> slot \<Rightarrow> slot" where
  "slot_push dps shard epoch s =
     (let new_run = (if sl_marks s = [] then True
                     else em_shard (last (sl_marks s)) \<noteq> shard \<or> em_epoch (last (sl_marks s)) \<noteq> epoch);
          s1 = (if new_run
                then s\<lparr>sl_marks := sl_marks s @
                        [\<lparr>em_start = length (sl_points s), em_shard = shard, em_epoch = epoch\<rparr>]\<rparr>
                else s);
          s2 = s1\<lparr>sl_points := sl_points s1 @ dps\<rparr>
      in fold note_series dps s2)"

definition update_map :: "nat \<Rightarrow> ((string \<times> slot) list \<Rightarrow> (string \<times> slot) list) \<Rightarrow> memory_buffer \<Rightarrow> memory_buffer" where
  "update_map i f b = b\<lparr>mb_metrics := (mb_metrics b)[i := f (mb_metrics b ! i)]\<rparr>"

definition push_metrics_tagged ::
  "(string \<Rightarrow> u64) \<Rightarrow> string \<Rightarrow> data_point list \<Rightarrow> u16 \<Rightarrow> u64 \<Rightarrow> memory_buffer \<Rightarrow> memory_buffer" where
  "push_metrics_tagged hash name dps shard epoch b =
     (if dps = [] then b
      else update_map (map_shard hash name)
             (\<lambda>m. AList.update name (slot_push dps shard epoch
                     (case map_of m name of None \<Rightarrow> empty_slot | Some s \<Rightarrow> s)) m) b)"

definition push_metrics :: "(string \<Rightarrow> u64) \<Rightarrow> string \<Rightarrow> data_point list \<Rightarrow> memory_buffer \<Rightarrow> memory_buffer" where
  "push_metrics hash name dps b = push_metrics_tagged hash name dps UNTRACKED 0 b"

subsection \<open>Dropping what a block holds\<close>

definition mark_sealed :: "u64 list \<Rightarrow> epoch_mark \<Rightarrow> bool" where
  "mark_sealed sealed m \<longleftrightarrow> unat (em_shard m) < length sealed \<and> em_shard m \<noteq> UNTRACKED
     \<and> em_epoch m \<le> sealed ! unat (em_shard m)"

definition slot_drop :: "u64 list \<Rightarrow> slot \<Rightarrow> slot" where
  "slot_drop sealed s =
     (let droppable = length (takeWhile (mark_sealed sealed) (sl_marks s))
      in if droppable = 0 then s
         else let cut = (if droppable < length (sl_marks s) then em_start (sl_marks s ! droppable)
                         else length (sl_points s));
                  s1 = s\<lparr>sl_points := drop cut (sl_points s),
                         sl_marks := map (\<lambda>m. m\<lparr>em_start := em_start m - cut\<rparr>)
                                       (drop droppable (sl_marks s))\<rparr>
              in if length (sl_series s1) > max (length (sl_points s1)) 16
                 then fold note_series (sl_points s1) (s1\<lparr>sl_series := [], sl_series_seen := {}\<rparr>)
                 else s1)"

definition slot_keep :: "u64 list \<Rightarrow> slot \<Rightarrow> bool" where
  "slot_keep sealed s \<longleftrightarrow>
     length (takeWhile (mark_sealed sealed) (sl_marks s)) = 0 \<or> sl_points (slot_drop sealed s) \<noteq> []"

definition map_drop :: "u64 list \<Rightarrow> (string \<times> slot) list \<Rightarrow> (string \<times> slot) list" where
  "map_drop sealed m = map (\<lambda>e. (fst e, slot_drop sealed (snd e))) (filter (\<lambda>e. slot_keep sealed (snd e)) m)"

definition drop_sealed_metrics :: "u64 list \<Rightarrow> memory_buffer \<Rightarrow> memory_buffer" where
  "drop_sealed_metrics sealed b =
     (if list_all (\<lambda>e. e = 0) sealed then b
      else b\<lparr>mb_metrics := map (map_drop sealed) (mb_metrics b)\<rparr>)"

subsection \<open>Logs and spans\<close>

definition push_logs :: "log_record list \<Rightarrow> memory_buffer \<Rightarrow> memory_buffer" where
  "push_logs logs b = b\<lparr>mb_logs := mb_logs b @ logs\<rparr>"

definition push_spans :: "span list \<Rightarrow> memory_buffer \<Rightarrow> memory_buffer" where
  "push_spans spans b = b\<lparr>mb_spans := mb_spans b @ spans\<rparr>"

definition drop_flushed_logs :: "nat \<Rightarrow> memory_buffer \<Rightarrow> memory_buffer" where
  "drop_flushed_logs n b = b\<lparr>mb_logs := drop (min n (length (mb_logs b))) (mb_logs b)\<rparr>"

definition drop_flushed_spans :: "nat \<Rightarrow> memory_buffer \<Rightarrow> memory_buffer" where
  "drop_flushed_spans n b = b\<lparr>mb_spans := drop (min n (length (mb_spans b))) (mb_spans b)\<rparr>"

definition take_metrics :: "memory_buffer \<Rightarrow> (string \<times> data_point list) list \<times> memory_buffer" where
  "take_metrics b =
     (map (\<lambda>(n, s). (n, sl_points s)) (concat (mb_metrics b)),
      b\<lparr>mb_metrics := map (\<lambda>_. []) (mb_metrics b)\<rparr>)"

definition take_logs :: "memory_buffer \<Rightarrow> log_record list \<times> memory_buffer" where
  "take_logs b = (mb_logs b, b\<lparr>mb_logs := []\<rparr>)"

definition take_spans :: "memory_buffer \<Rightarrow> span list \<times> memory_buffer" where
  "take_spans b = (mb_spans b, b\<lparr>mb_spans := []\<rparr>)"

definition drain_offloaded :: "signal_type \<Rightarrow> memory_buffer \<Rightarrow> memory_buffer" where
  "drain_offloaded signal b =
     (case signal of
        Metrics \<Rightarrow> snd (take_metrics b)
      | Logs \<Rightarrow> snd (take_logs b)
      | Traces \<Rightarrow> snd (take_spans b))"

subsection \<open>Queries\<close>

definition scan_spans :: "i64 \<Rightarrow> i64 \<Rightarrow> memory_buffer \<Rightarrow> span list" where
  "scan_spans start_ns end_ns b =
     filter (\<lambda>s. sp_start_time_ns s \<le> end_ns \<and> sp_end_time_ns s \<ge> start_ns) (mb_spans b)"

definition find_slot :: "(string \<Rightarrow> u64) \<Rightarrow> string \<Rightarrow> memory_buffer \<Rightarrow> slot option" where
  "find_slot hash name b = map_of (mb_metrics b ! map_shard hash name) name"

definition scan_metrics :: "(string \<Rightarrow> u64) \<Rightarrow> string \<Rightarrow> i64 \<Rightarrow> i64 \<Rightarrow> memory_buffer \<Rightarrow> data_point list" where
  "scan_metrics hash name start_ns end_ns b =
     (case find_slot hash name b of
        Some s \<Rightarrow> filter (\<lambda>dp. dp_timestamp_ns dp \<ge> start_ns \<and> dp_timestamp_ns dp \<le> end_ns) (sl_points s)
      | None \<Rightarrow> [])"

text \<open>The loop of the filtered scan: the verdict of the previous point's handle is remembered.\<close>

fun scan_loop ::
  "i64 \<Rightarrow> i64 \<Rightarrow> nat set option \<Rightarrow> data_point list \<Rightarrow> (nat \<times> bool) option
     \<Rightarrow> data_point list \<Rightarrow> nat \<Rightarrow> data_point list \<times> nat" where
  "scan_loop start_ns end_ns accepted [] last_v out considered = (out, considered)"
| "scan_loop start_ns end_ns accepted (dp # dps) last_v out considered =
     (if dp_timestamp_ns dp < start_ns \<or> dp_timestamp_ns dp > end_ns
      then scan_loop start_ns end_ns accepted dps last_v out considered
      else case accepted of
             None \<Rightarrow> scan_loop start_ns end_ns accepted dps last_v (out @ [dp]) (considered + 1)
           | Some acc \<Rightarrow>
               (let a = ls_addr (dp_labels dp);
                    (keep, last') = (case last_v of
                        Some (a', v) \<Rightarrow> if a' = a then (v, last_v) else (a \<in> acc, Some (a, a \<in> acc))
                      | None \<Rightarrow> (a \<in> acc, Some (a, a \<in> acc)))
                in scan_loop start_ns end_ns accepted dps last'
                     (if keep then out @ [dp] else out) (considered + 1)))"

definition scan_metrics_filtered ::
  "(string \<Rightarrow> u64) \<Rightarrow> string \<Rightarrow> i64 \<Rightarrow> i64 \<Rightarrow> (label_set \<Rightarrow> bool) option \<Rightarrow> memory_buffer
     \<Rightarrow> data_point list \<times> nat" where
  "scan_metrics_filtered hash name start_ns end_ns flt b =
     (case find_slot hash name b of
        None \<Rightarrow> ([], 0)
      | Some s \<Rightarrow>
          (let accepted = map_option (\<lambda>f. ls_addr ` set (filter f (sl_series s))) flt
           in if accepted = Some {} then ([], 0)
              else scan_loop start_ns end_ns accepted (sl_points s) None [] 0))"

definition scan_logs :: "i64 \<Rightarrow> i64 \<Rightarrow> memory_buffer \<Rightarrow> log_record list" where
  "scan_logs start_ns end_ns b =
     filter (\<lambda>l. lr_timestamp_ns l \<ge> start_ns \<and> lr_timestamp_ns l \<le> end_ns) (mb_logs b)"

definition scan_logs_filtered :: "i64 \<Rightarrow> i64 \<Rightarrow> (log_record \<Rightarrow> bool) \<Rightarrow> memory_buffer \<Rightarrow> log_record list" where
  "scan_logs_filtered start_ns end_ns keep b =
     filter (\<lambda>l. lr_timestamp_ns l \<ge> start_ns \<and> lr_timestamp_ns l \<le> end_ns \<and> keep l) (mb_logs b)"

definition metric_names :: "memory_buffer \<Rightarrow> string list" where
  "metric_names b = concat (map (map fst) (mb_metrics b))"

definition all_slots :: "memory_buffer \<Rightarrow> slot list" where
  "all_slots b = map snd (concat (mb_metrics b))"

definition label_names :: "memory_buffer \<Rightarrow> string list" where
  "label_names b =
     sorted_list_of_set (set (concat (map ls_keys (concat (map sl_series (all_slots b))))))"

definition buffer_stats :: "memory_buffer \<Rightarrow> nat \<times> nat \<times> nat" where
  "buffer_stats b =
     (sum_list (map (\<lambda>s. length (sl_points s)) (all_slots b)), length (mb_logs b), length (mb_spans b))"

text \<open>The newest-first walk of the autocomplete path over all points; it stops at the limit.\<close>

fun recent_loop ::
  "string \<Rightarrow> string option \<Rightarrow> nat \<Rightarrow> label_set list \<Rightarrow> nat set \<Rightarrow> string list \<Rightarrow> string list" where
  "recent_loop label pre limit [] visited out = out"
| "recent_loop label pre limit (ls # lss) visited out =
     (if ls_addr ls \<in> visited then recent_loop label pre limit lss visited out
      else let visited' = insert (ls_addr ls) visited
           in case ls_get ls label of
                None \<Rightarrow> recent_loop label pre limit lss visited' out
              | Some v \<Rightarrow>
                  if (case pre of None \<Rightarrow> True | Some p \<Rightarrow> take (length p) v = p) \<and> v \<notin> set out
                  then if length out + 1 \<ge> limit then out @ [v]
                       else recent_loop label pre limit lss visited' (out @ [v])
                  else recent_loop label pre limit lss visited' out)"

definition recent_label_values :: "string \<Rightarrow> string option \<Rightarrow> nat \<Rightarrow> memory_buffer \<Rightarrow> string list" where
  "recent_label_values label pre limit b =
     recent_loop label pre limit (concat (map (\<lambda>s. map dp_labels (rev (sl_points s))) (all_slots b))) {} []"

definition label_values :: "string \<Rightarrow> memory_buffer \<Rightarrow> string set" where
  "label_values label b =
     set (List.map_filter (\<lambda>ls. ls_get ls label) (concat (map sl_series (all_slots b))))"

subsection \<open>The tagged points of a slot\<close>

text \<open>A tag is the writer shard and epoch of a point. The runs of a slot pair each mark with the
  points up to the next mark.\<close>

type_synonym tag = "u16 \<times> u64"

definition mark_tag :: "epoch_mark \<Rightarrow> tag" where
  "mark_tag m = (em_shard m, em_epoch m)"

definition tag_sealed :: "u64 list \<Rightarrow> tag \<Rightarrow> bool" where
  "tag_sealed sealed t \<longleftrightarrow> unat (fst t) < length sealed \<and> fst t \<noteq> UNTRACKED
     \<and> snd t \<le> sealed ! unat (fst t)"

fun cut_runs :: "epoch_mark list \<Rightarrow> 'p list \<Rightarrow> (tag \<times> 'p list) list" where
  "cut_runs [] ps = []"
| "cut_runs [m] ps = [(mark_tag m, ps)]"
| "cut_runs (m # m' # ms) ps =
     (mark_tag m, take (em_start m' - em_start m) ps)
       # cut_runs (m' # ms) (drop (em_start m' - em_start m) ps)"

fun marks_of :: "nat \<Rightarrow> (tag \<times> 'p list) list \<Rightarrow> epoch_mark list" where
  "marks_of off [] = []"
| "marks_of off ((t, ps) # rs) =
     \<lparr>em_start = off, em_shard = fst t, em_epoch = snd t\<rparr> # marks_of (off + length ps) rs"

definition slot_runs :: "slot \<Rightarrow> (tag \<times> data_point list) list" where
  "slot_runs s = cut_runs (sl_marks s) (sl_points s)"

definition tagged :: "slot \<Rightarrow> (tag \<times> data_point) list" where
  "tagged s = concat (map (\<lambda>(t, ps). map (Pair t) ps) (slot_runs s))"

definition runs_ok :: "slot \<Rightarrow> (tag \<times> data_point list) list \<Rightarrow> bool" where
  "runs_ok s rs \<longleftrightarrow> sl_marks s = marks_of 0 rs \<and> sl_points s = concat (map snd rs)
     \<and> list_all (\<lambda>r. snd r \<noteq> []) rs"

definition series_ok :: "slot \<Rightarrow> bool" where
  "series_ok s \<longleftrightarrow> sl_series_seen s = ls_addr ` set (sl_series s)
     \<and> (\<forall>dp \<in> set (sl_points s). ls_addr (dp_labels dp) \<in> sl_series_seen s)"

definition wf_slot :: "slot \<Rightarrow> bool" where
  "wf_slot s \<longleftrightarrow> runs_ok s (slot_runs s) \<and> series_ok s"

lemma cut_marks_of: "cut_runs (marks_of off rs) (concat (map snd rs)) = rs"
proof (induction rs arbitrary: off)
  case (Cons r rs)
  obtain t ps where r: "r = (t, ps)" by fastforce
  show ?case
  proof (cases rs)
    case Nil
    then show ?thesis by (simp add: r mark_tag_def)
  next
    case (Cons r' rs')
    obtain t' ps' where r': "r' = (t', ps')" by fastforce
    with Cons.IH [of "off + length ps"] show ?thesis by (simp add: r Cons mark_tag_def)
  qed
qed simp

lemma runs_ok_slot_runs: "runs_ok s rs \<Longrightarrow> slot_runs s = rs"
  by (simp add: runs_ok_def slot_runs_def cut_marks_of)

lemma wf_slot_iff: "wf_slot s \<longleftrightarrow> (\<exists>rs. runs_ok s rs) \<and> series_ok s"
  unfolding wf_slot_def using runs_ok_slot_runs by blast

lemma tagged_runs: "runs_ok s rs \<Longrightarrow> tagged s = concat (map (\<lambda>(t, ps). map (Pair t) ps) rs)"
  by (simp add: tagged_def runs_ok_slot_runs)

lemma map_snd_tagged: "wf_slot s \<Longrightarrow> map snd (tagged s) = sl_points s"
proof -
  have *: "map snd (concat (map (\<lambda>(t, ps). map (Pair t) ps) rs)) = concat (map snd rs)"
    for rs :: "(tag \<times> data_point list) list"
    by (induction rs) (auto simp: comp_def)
  assume "wf_slot s"
  then show ?thesis by (simp add: wf_slot_def runs_ok_def tagged_def *)
qed

lemma marks_of_append:
  "marks_of off (rs @ rs') = marks_of off rs @ marks_of (off + length (concat (map snd rs))) rs'"
  by (induction rs arbitrary: off) (auto simp: add.assoc)

lemma marks_of_length [simp]: "length (marks_of off rs) = length rs"
  by (induction rs arbitrary: off) auto

lemma marks_of_tags: "map mark_tag (marks_of off rs) = map fst rs"
  by (induction rs arbitrary: off) (auto simp: mark_tag_def)

lemma mark_sealed_tag: "mark_sealed sealed m = tag_sealed sealed (mark_tag m)"
  by (simp add: mark_sealed_def tag_sealed_def mark_tag_def)

subsection \<open>The registry of series\<close>

lemma note_series_fields [simp]:
  "sl_points (note_series dp s) = sl_points s" "sl_marks (note_series dp s) = sl_marks s"
  by (simp_all add: note_series_def)

lemma fold_note_fields [simp]:
  "sl_points (fold note_series dps s) = sl_points s" "sl_marks (fold note_series dps s) = sl_marks s"
  by (induction dps arbitrary: s) simp_all

lemma fold_note_seen:
  "sl_series_seen (fold note_series dps s) =
     sl_series_seen s \<union> (\<lambda>dp. ls_addr (dp_labels dp)) ` set dps"
proof (induction dps arbitrary: s)
  case (Cons dp dps)
  have "sl_series_seen (note_series dp s) = insert (ls_addr (dp_labels dp)) (sl_series_seen s)"
    by (auto simp: note_series_def)
  with Cons.IH [of "note_series dp s"] show ?case by simp
qed simp

lemma fold_note_seen_ok:
  "sl_series_seen s = ls_addr ` set (sl_series s) \<Longrightarrow>
   sl_series_seen (fold note_series dps s) = ls_addr ` set (sl_series (fold note_series dps s))"
proof (induction dps arbitrary: s)
  case (Cons dp dps)
  then have "sl_series_seen (note_series dp s) = ls_addr ` set (sl_series (note_series dp s))"
    by (simp add: note_series_def)
  from Cons.IH [OF this] show ?case by simp
qed simp

lemma series_ok_fold:
  assumes "sl_series_seen s = ls_addr ` set (sl_series s)"
    "\<And>dp. dp \<in> set (sl_points s) \<Longrightarrow> dp \<in> set dps \<or> ls_addr (dp_labels dp) \<in> sl_series_seen s"
  shows "series_ok (fold note_series dps s)"
  unfolding series_ok_def fold_note_fields
  using fold_note_seen_ok [OF assms (1)] assms (2) unfolding fold_note_seen by blast

lemma fold_note_series_set:
  "set (sl_series (fold note_series dps s)) \<subseteq> set (sl_series s) \<union> dp_labels ` set dps"
proof (induction dps arbitrary: s)
  case (Cons dp dps)
  have "set (sl_series (note_series dp s)) \<subseteq> insert (dp_labels dp) (set (sl_series s))"
    by (auto simp: note_series_def)
  with Cons.IH [of "note_series dp s"] show ?case by auto
qed simp

subsection \<open>Push and drop on a slot\<close>

lemma wf_empty_slot [simp]: "wf_slot empty_slot" "tagged empty_slot = []"
  by (simp_all add: wf_slot_def runs_ok_def slot_runs_def series_ok_def tagged_def empty_slot_def)

lemma slot_push_runs:
  assumes "runs_ok s rs" "dps \<noteq> []"
  shows "\<exists>rs'. runs_ok (slot_push dps shard epoch s) rs'
    \<and> concat (map (\<lambda>(t, ps). map (Pair t) ps) rs') =
        concat (map (\<lambda>(t, ps). map (Pair t) ps) rs) @ map (Pair (shard, epoch)) dps"
proof (cases "rs = [] \<or> fst (last rs) \<noteq> (shard, epoch)")
  case True
  have "sl_marks s = [] \<longleftrightarrow> rs = []" using assms (1) by (metis length_0_conv marks_of_length runs_ok_def)
  moreover have "rs \<noteq> [] \<Longrightarrow> mark_tag (last (sl_marks s)) = fst (last rs)"
    using assms (1) marks_of_tags [of 0 rs] unfolding runs_ok_def
    by (metis last_map list.map_disc_iff)
  ultimately have "sl_marks (slot_push dps shard epoch s) = sl_marks s @
      [\<lparr>em_start = length (sl_points s), em_shard = shard, em_epoch = epoch\<rparr>]"
    using True by (auto simp: slot_push_def Let_def mark_tag_def)
  then show ?thesis using assms
    by (intro exI [of _ "rs @ [((shard, epoch), dps)]"])
      (auto simp: runs_ok_def marks_of_append slot_push_def Let_def)
next
  case False
  then obtain rs0 ps where rs: "rs = rs0 @ [((shard, epoch), ps)]"
    by (metis append_butlast_last_id prod.collapse)
  have "sl_marks (slot_push dps shard epoch s) = sl_marks s"
    using assms (1) by (simp add: slot_push_def Let_def runs_ok_def rs marks_of_append)
  then show ?thesis using assms
    by (intro exI [of _ "rs0 @ [((shard, epoch), ps @ dps)]"])
      (auto simp: runs_ok_def rs marks_of_append slot_push_def Let_def)
qed

lemma slot_push_spec:
  assumes "wf_slot s" "dps \<noteq> []"
  shows "wf_slot (slot_push dps shard epoch s)"
    "tagged (slot_push dps shard epoch s) = tagged s @ map (Pair (shard, epoch)) dps"
proof -
  obtain rs where rs: "runs_ok s rs" and ser: "series_ok s" using assms (1) by (auto simp: wf_slot_iff)
  obtain rs' where rs': "runs_ok (slot_push dps shard epoch s) rs'"
    "concat (map (\<lambda>(t, ps). map (Pair t) ps) rs') =
        concat (map (\<lambda>(t, ps). map (Pair t) ps) rs) @ map (Pair (shard, epoch)) dps"
    using slot_push_runs [OF rs assms (2)] by blast
  then show "tagged (slot_push dps shard epoch s) = tagged s @ map (Pair (shard, epoch)) dps"
    by (simp add: tagged_runs [OF rs] tagged_runs [OF rs' (1)])
  have "series_ok (slot_push dps shard epoch s)"
    unfolding slot_push_def Let_def
    by (rule series_ok_fold) (use ser in \<open>auto simp: series_ok_def split: if_splits\<close>)
  with rs' (1) show "wf_slot (slot_push dps shard epoch s)" by (auto simp: wf_slot_iff)
qed

lemma marks_of_shift:
  "n \<le> off \<Longrightarrow> map (\<lambda>m. m\<lparr>em_start := em_start m - n\<rparr>) (marks_of off rs) = marks_of (off - n) rs"
  by (induction rs arbitrary: off) auto

lemma takeWhile_marks:
  "length (takeWhile (mark_sealed sealed) (marks_of off rs)) =
     length (takeWhile (\<lambda>r. tag_sealed sealed (fst r)) rs)"
  by (induction rs arbitrary: off) (auto simp: mark_sealed_tag mark_tag_def)

lemma slot_drop_runs:
  assumes "runs_ok s rs"
  shows "runs_ok (slot_drop sealed s) (dropWhile (\<lambda>r. tag_sealed sealed (fst r)) rs)"
proof -
  let ?P = "\<lambda>r :: tag \<times> data_point list. tag_sealed sealed (fst r)"
  define rs1 where "rs1 = takeWhile ?P rs"
  define rs2 where "rs2 = dropWhile ?P rs"
  let ?n = "length (concat (map snd rs1))"
  have rs: "rs = rs1 @ rs2" by (simp add: rs1_def rs2_def)
  have marks: "sl_marks s = marks_of 0 rs1 @ marks_of ?n rs2"
    and points: "sl_points s = concat (map snd rs1) @ concat (map snd rs2)"
    and ne: "list_all (\<lambda>r. snd r \<noteq> []) rs2"
    using assms by (auto simp: runs_ok_def rs marks_of_append)
  have dr: "length (takeWhile (mark_sealed sealed) (sl_marks s)) = length rs1"
    using assms takeWhile_marks by (simp add: runs_ok_def rs1_def)
  have cut: "(if length rs1 < length (sl_marks s) then em_start (sl_marks s ! length rs1)
      else length (sl_points s)) = ?n"
    by (cases rs2) (auto simp: marks points nth_append)
  have "runs_ok (s\<lparr>sl_points := drop ?n (sl_points s),
      sl_marks := map (\<lambda>m. m\<lparr>em_start := em_start m - ?n\<rparr>) (drop (length rs1) (sl_marks s))\<rparr>) rs2"
    using ne by (simp add: runs_ok_def marks points marks_of_shift)
  then show ?thesis
    using assms unfolding rs2_def [symmetric] slot_drop_def Let_def dr cut
    by (auto simp: runs_ok_def rs)
qed

lemma concat_runs_dropWhile:
  "list_all (\<lambda>r. snd r \<noteq> []) rs \<Longrightarrow>
   concat (map (\<lambda>(t, ps). map (Pair t) ps) (dropWhile (\<lambda>r. P (fst r)) rs)) =
     dropWhile (\<lambda>e. P (fst e)) (concat (map (\<lambda>(t, ps). map (Pair t) ps) rs))"
proof (induction rs)
  case (Cons r rs)
  obtain t ps where r: "r = (t, ps)" by fastforce
  have *: "dropWhile (\<lambda>e. P (fst e)) (map (Pair t) ps @ xs) =
      (if P t then dropWhile (\<lambda>e. P (fst e)) xs else map (Pair t) ps @ xs)" if "ps \<noteq> []" for xs
    using that by (induction ps) (auto simp: dropWhile_append)
  show ?case using Cons r * by auto
qed simp

lemma series_ok_if: "series_ok x \<Longrightarrow> series_ok y \<Longrightarrow> series_ok (if b then x else y)"
  by simp

lemma series_ok_drop: "series_ok s \<Longrightarrow> series_ok (s\<lparr>sl_points := drop n (sl_points s), sl_marks := ms\<rparr>)"
  by (auto simp: series_ok_def dest: in_set_dropD)

lemma series_ok_rebuild: "series_ok (fold note_series (sl_points s) (s\<lparr>sl_series := [], sl_series_seen := {}\<rparr>))"
  by (rule series_ok_fold) simp_all

lemma slot_drop_spec:
  assumes "wf_slot s"
  shows "wf_slot (slot_drop sealed s)"
    "tagged (slot_drop sealed s) = dropWhile (\<lambda>e. tag_sealed sealed (fst e)) (tagged s)"
proof -
  obtain rs where rs: "runs_ok s rs" and ser: "series_ok s" using assms by (auto simp: wf_slot_iff)
  note rs' = slot_drop_runs [OF rs, of sealed]
  show "tagged (slot_drop sealed s) = dropWhile (\<lambda>e. tag_sealed sealed (fst e)) (tagged s)"
    using rs by (simp add: tagged_runs [OF rs] tagged_runs [OF rs'] concat_runs_dropWhile runs_ok_def)
  have "series_ok (slot_drop sealed s)"
    unfolding slot_drop_def Let_def
    by (intro series_ok_if series_ok_rebuild series_ok_drop ser)
  with rs' show "wf_slot (slot_drop sealed s)" by (auto simp: wf_slot_iff)
qed

text \<open>The points were pushed by one shard, in epoch order, and no epoch is 0.\<close>

definition in_epoch_order :: "u16 \<Rightarrow> (tag \<times> 'p) list \<Rightarrow> bool" where
  "in_epoch_order sh xs \<longleftrightarrow> (\<forall>e \<in> set xs. fst (fst e) = sh \<and> 0 < snd (fst e))
     \<and> sorted_wrt (\<lambda>x y. snd (fst x) \<le> snd (fst y)) xs"

subsection \<open>The interface a flush relies on\<close>

text \<open>A buffer of points tagged with a writer shard and an epoch, by metric name. Dropping removes
  a leading run of sealed points only; when the points of a name come from one shard in epoch
  order, which is how the ingest shards feed the buffer, that is exactly the sealed points.\<close>

locale epoch_buffer =
  fixes wf :: "'b \<Rightarrow> bool"
    and view :: "'b \<Rightarrow> string \<Rightarrow> (tag \<times> 'p) list"
    and push :: "string \<Rightarrow> 'p list \<Rightarrow> tag \<Rightarrow> 'b \<Rightarrow> 'b"
    and drop_sealed :: "u64 list \<Rightarrow> 'b \<Rightarrow> 'b"
  assumes push_wf: "wf b \<Longrightarrow> wf (push n ps t b)"
    and push_view: "wf b \<Longrightarrow> view (push n ps t b) k = view b k @ (if k = n then map (Pair t) ps else [])"
    and drop_wf: "wf b \<Longrightarrow> wf (drop_sealed sealed b)"
    and drop_view: "wf b \<Longrightarrow> view (drop_sealed sealed b) k =
      (if list_all (\<lambda>e. e = 0) sealed then view b k
       else dropWhile (\<lambda>e. tag_sealed sealed (fst e)) (view b k))"
begin

lemma drop_keeps_unsealed:
  assumes "wf b" "e \<in> set (view b k)" "\<not> tag_sealed sealed (fst e)"
  shows "e \<in> set (view (drop_sealed sealed b) k)"
proof (cases "list_all (\<lambda>e. e = 0) sealed")
  case False
  let ?P = "\<lambda>e. tag_sealed sealed (fst e)"
  have "e \<notin> set (takeWhile ?P (view b k))" using assms (3) by (auto dest: set_takeWhileD)
  moreover have "e \<in> set (takeWhile ?P (view b k)) \<union> set (dropWhile ?P (view b k))"
    using assms (2) by (metis set_append takeWhile_dropWhile_id)
  ultimately show ?thesis using assms (1) False by (simp add: drop_view)
qed (use assms in \<open>simp add: drop_view\<close>)

lemma drop_exact:
  assumes "wf b" "in_epoch_order sh (view b k)"
  shows "view (drop_sealed sealed b) k = filter (\<lambda>e. \<not> tag_sealed sealed (fst e)) (view b k)"
proof -
  have *: "dropWhile (\<lambda>e. tag_sealed sealed (fst e)) xs = filter (\<lambda>e. \<not> tag_sealed sealed (fst e)) xs"
    if "\<forall>e \<in> set xs. fst (fst e) = sh" "sorted_wrt (\<lambda>x y. snd (fst x) \<le> snd (fst y)) xs" for xs :: "(tag \<times> 'p) list"
    using that
  proof (induction xs)
    case (Cons x xs)
    show ?case
    proof (cases "tag_sealed sealed (fst x)")
      case False
      then have "\<not> tag_sealed sealed (fst e)" if "e \<in> set xs" for e
        using Cons.prems that by (fastforce simp: tag_sealed_def dest: order_trans)
      with False show ?thesis by simp
    qed (use Cons in auto)
  qed simp
  have none: "\<not> tag_sealed sealed (fst e)" if "list_all (\<lambda>e. e = 0) sealed" "e \<in> set (view b k)" for e
    using that assms (2) by (fastforce simp: in_epoch_order_def tag_sealed_def list_all_length)
  show ?thesis
  proof (cases "list_all (\<lambda>e. e = 0) sealed")
    case True
    then show ?thesis using assms (1) none by (simp add: drop_view)
  next
    case False
    then show ?thesis using assms * by (simp add: drop_view in_epoch_order_def)
  qed
qed

lemma push_in_epoch_order:
  assumes "wf b" "in_epoch_order sh (view b k)" "\<And>e. e \<in> set (view b k) \<Longrightarrow> snd (fst e) \<le> ep" "0 < ep"
  shows "in_epoch_order sh (view (push n ps (sh, ep) b) k)"
  using assms
  by (auto simp: in_epoch_order_def push_view sorted_wrt_append sorted_wrt_map)

end

subsection \<open>The memory buffer is such a buffer\<close>

definition wf_map :: "(string \<times> slot) list \<Rightarrow> bool" where
  "wf_map m \<longleftrightarrow> distinct (map fst m) \<and> (\<forall>e \<in> set m. wf_slot (snd e))"

definition wf_buffer :: "(string \<Rightarrow> u64) \<Rightarrow> memory_buffer \<Rightarrow> bool" where
  "wf_buffer hash b \<longleftrightarrow> length (mb_metrics b) = METRIC_MAP_SHARDS
     \<and> list_all wf_map (mb_metrics b)"

definition buffered :: "(string \<Rightarrow> u64) \<Rightarrow> memory_buffer \<Rightarrow> string \<Rightarrow> (tag \<times> data_point) list" where
  "buffered hash b name = (case find_slot hash name b of None \<Rightarrow> [] | Some s \<Rightarrow> tagged s)"

lemma map_shard_less [simp]: "map_shard hash name < METRIC_MAP_SHARDS"
  by (simp add: map_shard_def METRIC_MAP_SHARDS_def)

lemma wf_buffer_new [simp]: "wf_buffer hash buffer_new"
  by (simp add: wf_buffer_def buffer_new_def list_all_iff wf_map_def)

lemma wf_buffer_map:
  "wf_buffer hash b \<Longrightarrow> i < METRIC_MAP_SHARDS \<Longrightarrow> wf_map (mb_metrics b ! i)"
  by (simp add: wf_buffer_def list_all_length)

lemma find_slot_wf: "wf_buffer hash b \<Longrightarrow> find_slot hash name b = Some s \<Longrightarrow> wf_slot s"
  unfolding find_slot_def
  by (drule wf_buffer_map [of _ _ "map_shard hash name"]) (auto simp: wf_map_def dest: map_of_SomeD)

lemma alist_update_set: "set (AList.update k v al) \<subseteq> insert (k, v) (set al)"
  by (induction al) auto

lemma push_metrics_tagged_spec:
  assumes "wf_buffer hash b"
  shows "wf_buffer hash (push_metrics_tagged hash name dps shard epoch b)"
    "buffered hash (push_metrics_tagged hash name dps shard epoch b) k =
       buffered hash b k @ (if k = name then map (Pair (shard, epoch)) dps else [])"
proof -
  let ?i = "map_shard hash name"
  let ?m = "mb_metrics b ! ?i"
  let ?old = "case map_of ?m name of None \<Rightarrow> empty_slot | Some s \<Rightarrow> s"
  let ?new = "slot_push dps shard epoch ?old"
  have len: "length (mb_metrics b) = METRIC_MAP_SHARDS" using assms by (simp add: wf_buffer_def)
  note m = wf_buffer_map [OF assms map_shard_less, of hash name]
  have s0: "wf_slot ?old" using m by (auto simp: wf_map_def split: option.splits dest: map_of_SomeD)
  have "wf_map (AList.update name ?new ?m)" if "dps \<noteq> []"
    using m slot_push_spec (1) [OF s0 that] alist_update_set [of name ?new ?m]
    by (auto simp: wf_map_def distinct_update)
  then show "wf_buffer hash (push_metrics_tagged hash name dps shard epoch b)"
    using assms by (auto simp: push_metrics_tagged_def update_map_def wf_buffer_def list_all_iff
        dest!: set_update_subset_insert [THEN subsetD])
  have t: "tagged ?new = buffered hash b name @ map (Pair (shard, epoch)) dps" if "dps \<noteq> []"
    using slot_push_spec (2) [OF s0 that] by (simp add: buffered_def find_slot_def split: option.splits)
  have "find_slot hash k (push_metrics_tagged hash name dps shard epoch b) =
      (if k = name then Some ?new else find_slot hash k b)" if "dps \<noteq> []"
    using that len
    by (auto simp: find_slot_def push_metrics_tagged_def update_map_def nth_list_update update_conv')
  then show "buffered hash (push_metrics_tagged hash name dps shard epoch b) k =
       buffered hash b k @ (if k = name then map (Pair (shard, epoch)) dps else [])"
    using t by (cases "dps = []") (auto simp: buffered_def push_metrics_tagged_def)
qed

lemma map_drop_keys: "fst ` set (map_drop sealed m) \<subseteq> fst ` set m"
  by (force simp: map_drop_def)

lemma map_of_map_drop:
  "distinct (map fst m) \<Longrightarrow> map_of (map_drop sealed m) k =
     (case map_of m k of None \<Rightarrow> None
      | Some s \<Rightarrow> if slot_keep sealed s then Some (slot_drop sealed s) else None)"
proof (induction m)
  case (Cons e m)
  have "map_of (map_drop sealed m) (fst e) = None"
    using Cons.prems map_drop_keys [of sealed m] by (auto simp: map_of_eq_None_iff)
  with Cons show ?case by (auto simp: map_drop_def split: option.splits)
qed (simp add: map_drop_def)

lemma map_drop_wf: "wf_map m \<Longrightarrow> wf_map (map_drop sealed m)"
  by (auto simp: wf_map_def map_drop_def comp_def distinct_map_filter slot_drop_spec (1))

lemma drop_sealed_metrics_spec:
  assumes "wf_buffer hash b"
  shows "wf_buffer hash (drop_sealed_metrics sealed b)"
    "buffered hash (drop_sealed_metrics sealed b) k =
       (if list_all (\<lambda>e. e = 0) sealed then buffered hash b k
        else dropWhile (\<lambda>e. tag_sealed sealed (fst e)) (buffered hash b k))"
proof -
  note m = wf_buffer_map [OF assms map_shard_less, of hash k]
  show "wf_buffer hash (drop_sealed_metrics sealed b)"
  proof (cases "list_all (\<lambda>e. e = 0) sealed")
    case False
    then show ?thesis
      using assms by (auto simp: wf_buffer_def drop_sealed_metrics_def list_all_iff map_drop_wf)
  qed (use assms in \<open>simp add: drop_sealed_metrics_def\<close>)
  show "buffered hash (drop_sealed_metrics sealed b) k =
       (if list_all (\<lambda>e. e = 0) sealed then buffered hash b k
        else dropWhile (\<lambda>e. tag_sealed sealed (fst e)) (buffered hash b k))"
  proof (cases "list_all (\<lambda>e. e = 0) sealed")
    case False
    have len: "map_shard hash k < length (mb_metrics b)" using assms by (simp add: wf_buffer_def)
    have find: "find_slot hash k (drop_sealed_metrics sealed b) =
        (case find_slot hash k b of None \<Rightarrow> None
         | Some s \<Rightarrow> if slot_keep sealed s then Some (slot_drop sealed s) else None)"
      using False len m by (simp add: find_slot_def drop_sealed_metrics_def map_of_map_drop wf_map_def)
    show ?thesis
    proof (cases "find_slot hash k b")
      case (Some s)
      note spec = slot_drop_spec [OF find_slot_wf [OF assms Some], of sealed]
      have "tagged (slot_drop sealed s) = []" if "\<not> slot_keep sealed s"
        using that map_snd_tagged [OF spec (1)] by (simp add: slot_keep_def)
      then have "[] = dropWhile (\<lambda>e. tag_sealed sealed (fst e)) (tagged s)" if "\<not> slot_keep sealed s"
        using that spec (2) by metis
      then show ?thesis using False Some spec (2) find by (simp add: buffered_def)
    qed (use False find in \<open>simp add: buffered_def\<close>)
  qed (simp add: drop_sealed_metrics_def)
qed

interpretation mb: epoch_buffer "wf_buffer hash" "buffered hash"
  "\<lambda>n ps t. push_metrics_tagged hash n ps (fst t) (snd t)" drop_sealed_metrics for hash
  by unfold_locales (simp_all add: push_metrics_tagged_spec drop_sealed_metrics_spec)

lemma scan_metrics_buffered:
  assumes "wf_buffer hash b"
  shows "scan_metrics hash k s e b =
    filter (\<lambda>dp. dp_timestamp_ns dp \<ge> s \<and> dp_timestamp_ns dp \<le> e) (map snd (buffered hash b k))"
  using find_slot_wf [OF assms]
  by (auto simp: scan_metrics_def buffered_def map_snd_tagged split: option.splits)

subsection \<open>The filtered scan\<close>

lemma scan_loop_spec:
  "(\<And>a v acc. accepted = Some acc \<Longrightarrow> last_v = Some (a, v) \<Longrightarrow> v \<longleftrightarrow> a \<in> acc) \<Longrightarrow>
   scan_loop s e accepted dps last_v out considered =
     (out @ filter (\<lambda>dp. dp_timestamp_ns dp \<ge> s \<and> dp_timestamp_ns dp \<le> e
        \<and> (case accepted of None \<Rightarrow> True | Some acc \<Rightarrow> ls_addr (dp_labels dp) \<in> acc)) dps,
      considered + length (filter (\<lambda>dp. dp_timestamp_ns dp \<ge> s \<and> dp_timestamp_ns dp \<le> e) dps))"
proof (induction s e accepted dps last_v out considered rule: scan_loop.induct)
  case (2 s e accepted dp dps last_v out considered)
  show ?case
  proof (cases "dp_timestamp_ns dp < s \<or> dp_timestamp_ns dp > e")
    case True
    then show ?thesis using 2 (1) [OF True 2 (4)] by auto
  next
    case False
    show ?thesis
    proof (cases accepted)
      case None
      then show ?thesis using 2 (2) [OF False None] False by auto
    next
      case (Some acc)
      let ?a = "ls_addr (dp_labels dp)"
      define kl where "kl = (case last_v of
            Some (a', v) \<Rightarrow> if a' = ?a then (v, last_v) else (?a \<in> acc, Some (?a, ?a \<in> acc))
          | None \<Rightarrow> (?a \<in> acc, Some (?a, ?a \<in> acc)))"
      have keep: "fst kl \<longleftrightarrow> ?a \<in> acc" and last: "\<And>a v. snd kl = Some (a, v) \<Longrightarrow> v \<longleftrightarrow> a \<in> acc"
        using 2 (4) [OF Some] by (auto simp: kl_def split: option.splits if_splits)
      have kp: "(fst kl, snd kl) = kl" by simp
      have IH: "scan_loop s e accepted dps (snd kl) (if fst kl then out @ [dp] else out) (considered + 1) =
        ((if fst kl then out @ [dp] else out) @ filter (\<lambda>dp. dp_timestamp_ns dp \<ge> s \<and> dp_timestamp_ns dp \<le> e
            \<and> (case accepted of None \<Rightarrow> True | Some acc \<Rightarrow> ls_addr (dp_labels dp) \<in> acc)) dps,
         considered + 1 + length (filter (\<lambda>dp. dp_timestamp_ns dp \<ge> s \<and> dp_timestamp_ns dp \<le> e) dps))"
        by (rule 2 (3) [OF False Some refl kl_def kp]) (use last Some in auto)
      have "scan_loop s e accepted (dp # dps) last_v out considered =
          scan_loop s e accepted dps (snd kl) (if fst kl then out @ [dp] else out) (considered + 1)"
        using False Some by (simp add: Let_def kl_def [symmetric] case_prod_unfold)
      then show ?thesis unfolding IH using False Some keep by auto
    qed
  qed
qed simp

text \<open>Two handles at the same address among a slot's series and points are the same label set:
  an \<open>Arc\<close> that is still referenced keeps its address to itself.\<close>

definition handles_shared :: "slot \<Rightarrow> bool" where
  "handles_shared s \<longleftrightarrow> (\<forall>ls \<in> set (sl_series s). \<forall>dp \<in> set (sl_points s).
     ls_addr ls = ls_addr (dp_labels dp) \<longrightarrow> ls = dp_labels dp)"

lemma accepted_iff:
  assumes "series_ok s" "handles_shared s" "dp \<in> set (sl_points s)"
  shows "ls_addr (dp_labels dp) \<in> ls_addr ` set (filter f (sl_series s)) \<longleftrightarrow> f (dp_labels dp)"
proof -
  have "ls_addr (dp_labels dp) \<in> ls_addr ` set (sl_series s)"
    using assms (1,3) by (auto simp: series_ok_def)
  then obtain ls where "ls \<in> set (sl_series s)" "ls_addr ls = ls_addr (dp_labels dp)" by auto
  moreover from this have "ls = dp_labels dp" using assms (2,3) by (simp add: handles_shared_def)
  ultimately show ?thesis using assms (2,3) by (force simp: handles_shared_def)
qed


definition point_at :: "nat \<Rightarrow> i64 \<Rightarrow> data_point" where
  "point_at a t = \<lparr>dp_timestamp_ns = t, dp_value = IntVal t, dp_labels = from_sorted_unique a [(''job'', ''x'')]\<rparr>"

lemma point_at_timestamp [simp]: "dp_timestamp_ns (point_at a t) = t"
  by (simp add: point_at_def)

lemma point_at_labels [simp]: "dp_labels (point_at a t) = from_sorted_unique a [(''job'', ''x'')]"
  by (simp add: point_at_def)


text \<open>C39: Nothing that is not sealed is dropped: whatever mixture of shards and epochs a metric's
  points come from, a point whose epoch is not sealed survives a drop, and a push makes its
  points visible to every window that contains them without disturbing the others.\<close>

theorem unsealed_points_stay_visible:
  assumes "wf_buffer hash b"
  shows "(e \<in> set (buffered hash b k) \<and> \<not> tag_sealed sealed (fst e) \<longrightarrow>
      e \<in> set (buffered hash (drop_sealed_metrics sealed b) k))
    \<and> scan_metrics hash k t u (push_metrics_tagged hash n dps sh ep b) =
      scan_metrics hash k t u b @ (if k = n then filter (\<lambda>dp. t \<le> dp_timestamp_ns dp \<and> dp_timestamp_ns dp \<le> u) dps else [])"
  using mb.drop_keeps_unsealed [OF assms] push_metrics_tagged_spec [OF assms]
  by (auto simp: scan_metrics_buffered [OF assms] scan_metrics_buffered [OF push_metrics_tagged_spec (1) [OF assms]]
      filter_map comp_def)

lemma unsealed_points_stay_visible_witness:
  "scan_metrics (\<lambda>_. 3) ''up'' 0 100 (push_metrics_tagged (\<lambda>_. 3) ''up'' [point_at 7 20, point_at 7 200] 1 2 buffer_new)
     = [point_at 7 20]"
  using unsealed_points_stay_visible [OF wf_buffer_new, of undefined "\<lambda>_. 3" "''up''" "[]" 0 100 "''up''"
      "[point_at 7 20, point_at 7 200]" 1 2]
  by (simp add: scan_metrics_def find_slot_def buffer_new_def point_at_def)

text \<open>The filtered scan, which judges each label set once and remembers verdicts by address,
  returns what filtering the plain scan point by point returns; the row count it reports is
  that of the plain scan unless the filter rejects every series, when it is 0.\<close>

theorem filtered_scan_is_filter:
  assumes "wf_buffer hash b" "find_slot hash k b = Some sl" "handles_shared sl"
  shows "scan_metrics_filtered hash k s e (Some f) b =
    (filter (\<lambda>dp. f (dp_labels dp)) (scan_metrics hash k s e b),
     if list_ex f (sl_series sl) then length (scan_metrics hash k s e b) else 0)"
proof -
  have ok: "series_ok sl" using find_slot_wf [OF assms (1,2)] by (simp add: wf_slot_def)
  let ?acc = "ls_addr ` set (filter f (sl_series sl))"
  have e: "?acc = {} \<longleftrightarrow> \<not> list_ex f (sl_series sl)" by (auto simp: list_ex_iff)
  have acc: "ls_addr (dp_labels dp) \<in> ?acc \<longleftrightarrow> f (dp_labels dp)" if "dp \<in> set (sl_points sl)" for dp
    using accepted_iff [OF ok assms (3) that] .
  have flt: "filter (\<lambda>dp. s \<le> dp_timestamp_ns dp \<and> dp_timestamp_ns dp \<le> e \<and> ls_addr (dp_labels dp) \<in> ?acc) (sl_points sl)
    = filter (\<lambda>dp. f (dp_labels dp)) (filter (\<lambda>dp. s \<le> dp_timestamp_ns dp \<and> dp_timestamp_ns dp \<le> e) (sl_points sl))"
    unfolding filter_filter by (rule filter_cong) (auto simp del: set_filter simp: acc)
  show ?thesis
  proof (cases "?acc = {}")
    case True
    then have "filter (\<lambda>dp. f (dp_labels dp)) (filter (\<lambda>dp. s \<le> dp_timestamp_ns dp \<and> dp_timestamp_ns dp \<le> e) (sl_points sl)) = []"
      unfolding flt [symmetric] by simp
    with True e show ?thesis by (simp add: scan_metrics_filtered_def scan_metrics_def assms (2) Let_def)
  next
    case False
    with e have l: "list_ex f (sl_series sl)" by blast
    from False have "scan_metrics_filtered hash k s e (Some f) b = scan_loop s e (Some ?acc) (sl_points sl) None [] 0"
      by (simp add: scan_metrics_filtered_def assms (2) Let_def del: set_filter)
    also have "\<dots> = (filter (\<lambda>dp. s \<le> dp_timestamp_ns dp \<and> dp_timestamp_ns dp \<le> e \<and> ls_addr (dp_labels dp) \<in> ?acc) (sl_points sl),
        length (filter (\<lambda>dp. s \<le> dp_timestamp_ns dp \<and> dp_timestamp_ns dp \<le> e) (sl_points sl)))"
      by (subst scan_loop_spec) simp_all
    finally show ?thesis unfolding flt using l by (simp add: scan_metrics_def assms (2))
  qed
qed

lemma filtered_scan_is_filter_witness:
  "snd (scan_metrics_filtered (\<lambda>_. 3) ''up'' 0 100 (Some (\<lambda>ls. False))
     (push_metrics_tagged (\<lambda>_. 3) ''up'' [point_at 7 20] 1 2 buffer_new)) = 0
   \<and> fst (scan_metrics_filtered (\<lambda>_. 3) ''up'' 0 100 (Some (\<lambda>ls. ls_len ls = 1))
     (push_metrics_tagged (\<lambda>_. 3) ''up'' [point_at 7 20] 1 2 buffer_new)) = [point_at 7 20]"
proof -
  let ?b = "push_metrics_tagged (\<lambda>_. 3) ''up'' [point_at 7 20] 1 2 buffer_new"
  let ?sl = "slot_push [point_at 7 20] 1 2 empty_slot"
  have wf: "wf_buffer (\<lambda>_. 3) ?b" by (simp add: push_metrics_tagged_spec)
  have f: "find_slot (\<lambda>_. 3) ''up'' ?b = Some ?sl"
    by (simp add: find_slot_def push_metrics_tagged_def update_map_def map_shard_def METRIC_MAP_SHARDS_def buffer_new_def)
  have sl: "sl_points ?sl = [point_at 7 20]" "sl_series ?sl = [from_sorted_unique 7 [(''job'', ''x'')]]"
    by (simp_all add: slot_push_def empty_slot_def note_series_def point_at_def)
  have h: "handles_shared ?sl" by (simp add: handles_shared_def sl)
  have sc: "scan_metrics (\<lambda>_. 3) ''up'' 0 100 ?b = [point_at 7 20]"
    by (simp add: scan_metrics_def f sl)
  show ?thesis
    using filtered_scan_is_filter [OF wf f h, of 0 100 "\<lambda>ls. False"]
      filtered_scan_is_filter [OF wf f h, of 0 100 "\<lambda>ls. ls_len ls = 1"]
    by (simp add: sc ls_len_def sl)
qed

lemma recent_loop_spec:
  assumes "distinct out" "length out < max 1 limit"
  shows "distinct (recent_loop label pre limit lss visited out)
    \<and> length (recent_loop label pre limit lss visited out) \<le> max 1 limit
    \<and> (\<forall>v \<in> set (recent_loop label pre limit lss visited out). v \<in> set out
        \<or> (\<exists>ls \<in> set lss. ls_get ls label = Some v \<and> (\<forall>p. pre = Some p \<longrightarrow> take (length p) v = p)))"
  using assms
proof (induction label pre limit lss visited out rule: recent_loop.induct)
  case (2 label pre limit ls lss visited out)
  show ?case
  proof (cases "ls_addr ls \<in> visited")
    case True
    then show ?thesis using 2 (1) [OF True] 2 (5,6) by fastforce
  next
    case nv: False
    show ?thesis
    proof (cases "ls_get ls label")
      case None
      then show ?thesis using 2 (2) [OF nv refl None] 2 (5,6) nv by fastforce
    next
      case (Some v)
      show ?thesis
      proof (cases "(case pre of None \<Rightarrow> True | Some p \<Rightarrow> take (length p) v = p) \<and> v \<notin> set out")
        case ok: True
        show ?thesis
        proof (cases "length out + 1 \<ge> limit")
          case True
          then show ?thesis using nv Some ok 2 (5,6) by (auto split: option.splits)
        next
          case False
          then show ?thesis using 2 (3) [OF nv refl Some ok False] nv Some ok 2 (5,6)
            by (fastforce split: option.splits)
        qed
      next
        case False
        then show ?thesis using 2 (4) [OF nv refl Some False] nv Some 2 (5,6) by fastforce
      qed
    qed
  qed
qed simp

text \<open>Autocomplete is bounded and truthful: \<open>recent_label_values\<close> returns distinct values, each
  the value of the label on a buffered point and with the prefix, and at most \<open>limit\<close> of them
  (one, when the limit is 0).\<close>

theorem recent_label_values_bounded:
  "distinct (recent_label_values label pre limit b)
   \<and> length (recent_label_values label pre limit b) \<le> max 1 limit
   \<and> set (recent_label_values label pre limit b) \<subseteq>
       {v. \<exists>s \<in> set (all_slots b). \<exists>dp \<in> set (sl_points s). ls_get (dp_labels dp) label = Some v}"
proof -
  let ?lss = "concat (map (\<lambda>s. map dp_labels (rev (sl_points s))) (all_slots b))"
  have "distinct ([] :: string list)" "length ([] :: string list) < max 1 limit" by simp_all
  from recent_loop_spec [OF this, of label pre ?lss "{}"] show ?thesis
    unfolding recent_label_values_def by fastforce
qed

end
