(* ===== verification/Writers.thy ===== *)
theory Writers
  imports Models "HOL-Library.AList"
begin

section \<open>Block writers\<close>

text \<open>
  The model of \<^verbatim>\<open>parqtel-ingest/src/writer.rs\<close>: the metric, log and trace writers, which
  collect rows and turn them into one block. A block is its metadata together with the rows
  handed to the Parquet encoder. Encoding and writing the file are not modelled: a flush takes
  the outcome of those steps (an error, or the path and size of the file) as an argument.
\<close>

definition MAX_VALUES_PER_FIELD :: nat where "MAX_VALUES_PER_FIELD = 10000"

subsection \<open>The label index of a block\<close>

record label_index =
  li_names :: "string set"
  li_values :: "(string \<times> string set) list"

definition label_index_new :: label_index where
  "label_index_new = \<lparr>li_names = {}, li_values = []\<rparr>"

definition observe_value :: "nat \<Rightarrow> string \<times> string \<Rightarrow> (string \<times> string set) list \<Rightarrow> (string \<times> string set) list" where
  "observe_value cap kv vs =
     (case map_of vs (fst kv) of
        Some s \<Rightarrow> if card s < cap \<and> snd kv \<notin> s then AList.update (fst kv) (insert (snd kv) s) vs else vs
      | None \<Rightarrow> AList.update (fst kv) {snd kv} vs)"

definition observe_entry :: "string \<times> string \<Rightarrow> label_index \<Rightarrow> label_index" where
  "observe_entry kv ix =
     \<lparr>li_names = insert (fst kv) (li_names ix),
      li_values = observe_value MAX_VALUES_PER_FIELD kv (li_values ix)\<rparr>"

definition observe :: "label_set \<Rightarrow> label_index \<Rightarrow> label_index" where
  "observe ls ix = fold observe_entry (ls_iter ls) ix"

subsection \<open>The metric writer\<close>

record block_config =
  bc_data_dir :: string
  bc_block_duration_secs :: u64
  bc_max_rows_per_block :: nat

record pushed_batch =
  pb_name :: string
  pb_kind :: metric_kind
  pb_resource :: label_set
  pb_points :: "data_point list"

record block_writer =
  bw_config :: block_config
  bw_batches :: "pushed_batch list"
  bw_rows :: nat
  bw_capacity :: nat
  bw_wal_range :: "(u64 \<times> u64) option"
  bw_epoch :: u64

record metric_run =
  mr_name :: string
  mr_kind :: metric_kind
  mr_resource :: label_set
  mr_points :: "data_point list"

text \<open>The outcome of encoding, writing and renaming the block file.\<close>

record file_out =
  fo_err :: "error option"
  fo_path :: string
  fo_size :: u64

definition with_epoch :: "block_config \<Rightarrow> u64 \<Rightarrow> block_writer" where
  "with_epoch config epoch =
     \<lparr>bw_config = config, bw_batches = [], bw_rows = 0, bw_capacity = bc_max_rows_per_block config,
      bw_wal_range = None, bw_epoch = epoch\<rparr>"

definition block_writer_new :: "block_config \<Rightarrow> block_writer" where
  "block_writer_new config = with_epoch config 1"

definition bw_set_wal_range :: "(u64 \<times> u64) option \<Rightarrow> block_writer \<Rightarrow> block_writer" where
  "bw_set_wal_range r w = w\<lparr>bw_wal_range := r\<rparr>"

definition bw_is_empty :: "block_writer \<Rightarrow> bool" where
  "bw_is_empty w \<longleftrightarrow> bw_rows w = 0"

text \<open>The groups of a block: \<open>BTreeMap\<close> order on (name, kind, resource), where label sets
  compare by their entries and kinds by their declaration order.\<close>

definition kind_rank :: "metric_kind \<Rightarrow> nat" where
  "kind_rank k = (case k of Gauge \<Rightarrow> 0 | Sum \<Rightarrow> 1 | HistogramKind \<Rightarrow> 2 | SummaryKind \<Rightarrow> 3)"

type_synonym group_key = "string \<times> nat \<times> entries"

definition batch_key :: "pushed_batch \<Rightarrow> group_key" where
  "batch_key b = (pb_name b, kind_rank (pb_kind b), ls_entries (pb_resource b))"

text \<open>The sort keys of a group: fingerprint, timestamp and the batch and index of the point, both
  cast to 32 bits.\<close>

definition as_u32 :: "nat \<Rightarrow> nat" where "as_u32 n = n mod 2 ^ 32"

definition batch_point_keys :: "nat \<Rightarrow> pushed_batch \<Rightarrow> (u64 \<times> i64 \<times> nat \<times> nat) list" where
  "batch_point_keys bi b =
     map (\<lambda>(pi, dp). (fingerprint (dp_labels dp), dp_timestamp_ns dp, as_u32 bi, as_u32 pi))
       (enumerate 0 (pb_points b))"

definition group_point_keys :: "pushed_batch list \<Rightarrow> group_key \<Rightarrow> (u64 \<times> i64 \<times> nat \<times> nat) list" where
  "group_point_keys batches k =
     concat (map (\<lambda>(bi, b). batch_point_keys bi b)
       (filter (\<lambda>(bi, b). batch_key b = k) (enumerate 0 batches)))"

definition group_run :: "pushed_batch list \<Rightarrow> group_key \<Rightarrow> metric_run" where
  "group_run batches k =
     (let b = hd (filter (\<lambda>b. batch_key b = k) batches)
      in \<lparr>mr_name = pb_name b, mr_kind = pb_kind b, mr_resource = pb_resource b,
          mr_points = map (\<lambda>(_, _, bi, pi). pb_points (batches ! bi) ! pi) (sort (group_point_keys batches k))\<rparr>)"

definition metric_runs :: "pushed_batch list \<Rightarrow> metric_run list" where
  "metric_runs batches = map (group_run batches) (sort (remdups (map batch_key batches)))"

text \<open>The pass over the batches: time bounds, metric names and the label index, observing each
  distinct label set once.\<close>

record flush_scan =
  fs_start :: i64
  fs_end :: i64
  fs_names :: "string set"
  fs_seen :: "entries set"
  fs_index :: label_index

definition I64_MAX :: i64 where "I64_MAX = 2 ^ 63 - 1"

definition I64_MIN :: i64 where "I64_MIN = - (2 ^ 63)"

definition flush_scan_new :: flush_scan where
  "flush_scan_new = \<lparr>fs_start = I64_MAX, fs_end = I64_MIN, fs_names = {}, fs_seen = {},
     fs_index = label_index_new\<rparr>"

definition see_labels :: "label_set \<Rightarrow> flush_scan \<Rightarrow> flush_scan" where
  "see_labels ls s =
     (if ls_entries ls \<in> fs_seen s then s
      else s\<lparr>fs_seen := insert (ls_entries ls) (fs_seen s), fs_index := observe ls (fs_index s)\<rparr>)"

definition scan_point :: "data_point \<Rightarrow> flush_scan \<Rightarrow> flush_scan" where
  "scan_point dp s = see_labels (dp_labels dp)
     (s\<lparr>fs_start := min (fs_start s) (dp_timestamp_ns dp), fs_end := max (fs_end s) (dp_timestamp_ns dp)\<rparr>)"

definition scan_batch :: "pushed_batch \<Rightarrow> flush_scan \<Rightarrow> flush_scan" where
  "scan_batch b s = fold scan_point (pb_points b)
     (see_labels (pb_resource b) (s\<lparr>fs_names := insert (pb_name b) (fs_names s)\<rparr>))"

definition bw_flush :: "file_out \<Rightarrow> block_writer \<Rightarrow> (block_metadata \<times> metric_run list) result \<times> block_writer" where
  "bw_flush fo w =
     (if bw_rows w = 0 then (Inl (Internal ''Cannot flush empty buffer''), w)
      else let s = fold scan_batch (bw_batches w) flush_scan_new;
               runs = metric_runs (bw_batches w)
           in case fo_err fo of
                Some e \<Rightarrow> (Inl e, w)
              | None \<Rightarrow>
                  (Inr (\<lparr>bm_path = fo_path fo, bm_start_timestamp_ns = fs_start s,
                          bm_end_timestamp_ns = fs_end s, bm_row_count = bw_rows w,
                          bm_size_bytes = fo_size fo, bm_metric_names = fs_names s,
                          bm_label_names = li_names (fs_index s), bm_label_values = li_values (fs_index s),
                          bm_signal_type = Metrics, bm_wal_range = bw_wal_range w\<rparr>, runs),
                   w\<lparr>bw_batches := [], bw_rows := 0, bw_epoch := bw_epoch w + 1\<rparr>))"

text \<open>The loop of \<open>push\<close>; \<open>fos\<close> gives the outcome of its first, second, \<open>...\<close> flush. The loop
  gives the error that ended it, if any, and the blocks it has written up to then.\<close>

function bw_push_loop ::
  "(nat \<Rightarrow> file_out) \<Rightarrow> nat \<Rightarrow> string \<Rightarrow> metric_kind \<Rightarrow> label_set \<Rightarrow> data_point list
     \<Rightarrow> (block_metadata \<times> metric_run list) list \<Rightarrow> block_writer
     \<Rightarrow> error option \<times> (block_metadata \<times> metric_run list) list \<times> block_writer" where
  "bw_push_loop fos i name kind res remaining flushed w =
     (if remaining = [] then (None, flushed, w)
      else let room = bw_capacity w - bw_rows w
           in if room = 0
              then case bw_flush (fos i) w of
                     (Inl e, w') \<Rightarrow> (Some e, flushed, w')
                   | (Inr blk, w') \<Rightarrow>
                       bw_push_loop fos (i + 1) name kind res remaining (flushed @ [blk]) w'
              else let rest = (if length remaining > room then drop room remaining else []);
                       here = (if length remaining > room then take room remaining else remaining)
                   in bw_push_loop fos i name kind res rest flushed
                        (w\<lparr>bw_rows := bw_rows w + length here,
                           bw_batches := bw_batches w @
                             [\<lparr>pb_name = name, pb_kind = kind, pb_resource = res, pb_points = here\<rparr>]\<rparr>))"
  by pat_completeness auto
termination
proof (relation "measure (\<lambda>(fos, i, name, kind, res, remaining, flushed, w).
    2 * length remaining + (if bw_rows w > 0 then 1 else 0))", goal_cases)
  case 2
  then show ?case by (auto simp: bw_flush_def Let_def split: if_splits option.splits)
next
  case (3 fos i name kind res remaining flushed w room rest here)
  then obtain x xs where "remaining = x # xs" by (cases remaining) auto
  with 3 show ?case by (auto simp: Let_def)
qed simp

declare bw_push_loop.simps [simp del]

definition bw_push_run ::
  "(nat \<Rightarrow> file_out) \<Rightarrow> metric \<Rightarrow> block_writer
     \<Rightarrow> error option \<times> (block_metadata \<times> metric_run list) list \<times> block_writer" where
  "bw_push_run fos m w =
     bw_push_loop fos 0 (m_name m) (m_kind m) (m_resource_attributes m) (m_data_points m) [] w"

definition bw_push ::
  "(nat \<Rightarrow> file_out) \<Rightarrow> metric \<Rightarrow> block_writer
     \<Rightarrow> (block_metadata \<times> metric_run list) list result \<times> block_writer" where
  "bw_push fos m w =
     (case bw_push_run fos m w of
        (Some e, written, w') \<Rightarrow> (Inl e, w')
      | (None, written, w') \<Rightarrow> (Inr written, w'))"

definition bw_merge :: "block_writer list \<Rightarrow> block_writer result" where
  "bw_merge ws =
     (if ws = [] then Inl (Internal ''Cannot merge an empty writer set'')
      else let config = bw_config (last ws)
           in Inr \<lparr>bw_config = config, bw_batches = concat (map bw_batches ws),
                  bw_rows = sum_list (map bw_rows ws), bw_capacity = bc_max_rows_per_block config,
                  bw_wal_range = None, bw_epoch = 1\<rparr>)"

subsection \<open>The log and trace writers\<close>

record 'r row_buffer =
  rb_data_dir :: string
  rb_rows :: "'r list"
  rb_capacity :: nat
  rb_wal_range :: "(u64 \<times> u64) option"

type_synonym log_writer = "log_record row_buffer"

type_synonym trace_writer = "span row_buffer"

definition row_buffer_new :: "string \<Rightarrow> nat \<Rightarrow> 'r row_buffer" where
  "row_buffer_new dir cap = \<lparr>rb_data_dir = dir, rb_rows = [], rb_capacity = cap, rb_wal_range = None\<rparr>"

definition rb_set_wal_range :: "(u64 \<times> u64) option \<Rightarrow> 'r row_buffer \<Rightarrow> 'r row_buffer" where
  "rb_set_wal_range r w = w\<lparr>rb_wal_range := r\<rparr>"

text \<open>The label values of logs: the value set is created before the cap is tested, and a key's
  value is looked up again.\<close>

definition log_observe :: "label_set \<Rightarrow> label_index \<Rightarrow> label_index" where
  "log_observe ls ix = fold (\<lambda>k ix.
     let s = (case map_of (li_values ix) k of None \<Rightarrow> {} | Some s \<Rightarrow> s);
         v = (case ls_get ls k of None \<Rightarrow> [] | Some v \<Rightarrow> v)
     in \<lparr>li_names = insert k (li_names ix),
         li_values = AList.update k (if card s < MAX_VALUES_PER_FIELD then insert v s else s) (li_values ix)\<rparr>)
     (ls_keys ls) ix"

definition log_flush :: "file_out \<Rightarrow> log_writer \<Rightarrow> (block_metadata \<times> log_record list) result \<times> log_writer" where
  "log_flush fo w =
     (if rb_rows w = [] then (Inl (Internal ''Cannot flush empty buffer''), w)
      else let rows = sort_key lr_timestamp_ns (rb_rows w);
               ix = fold (\<lambda>l ix. log_observe (lr_resource_attributes l) (log_observe (lr_attributes l) ix))
                      rows label_index_new
           in case fo_err fo of
                Some e \<Rightarrow> (Inl e, w\<lparr>rb_rows := rows\<rparr>)
              | None \<Rightarrow>
                  (Inr (\<lparr>bm_path = fo_path fo, bm_start_timestamp_ns = lr_timestamp_ns (hd rows),
                          bm_end_timestamp_ns = lr_timestamp_ns (last rows), bm_row_count = length rows,
                          bm_size_bytes = fo_size fo, bm_metric_names = {}, bm_label_names = li_names ix,
                          bm_label_values = li_values ix, bm_signal_type = Logs,
                          bm_wal_range = rb_wal_range w\<rparr>, rows),
                   w\<lparr>rb_rows := []\<rparr>))"

definition trace_flush :: "file_out \<Rightarrow> trace_writer \<Rightarrow> (block_metadata \<times> span list) result \<times> trace_writer" where
  "trace_flush fo w =
     (if rb_rows w = [] then (Inl (Internal ''Cannot flush empty buffer''), w)
      else let rows = sort_key sp_start_time_ns (rb_rows w)
           in case fo_err fo of
                Some e \<Rightarrow> (Inl e, w\<lparr>rb_rows := rows\<rparr>)
              | None \<Rightarrow>
                  (Inr (\<lparr>bm_path = fo_path fo, bm_start_timestamp_ns = sp_start_time_ns (hd rows),
                          bm_end_timestamp_ns = sp_end_time_ns (last rows), bm_row_count = length rows,
                          bm_size_bytes = fo_size fo, bm_metric_names = {},
                          bm_label_names = set (concat (map (\<lambda>s. ls_keys (sp_attributes s)) rows)),
                          bm_label_values = [], bm_signal_type = Traces,
                          bm_wal_range = rb_wal_range w\<rparr>, rows),
                   w\<lparr>rb_rows := []\<rparr>))"

definition log_push :: "file_out \<Rightarrow> log_record \<Rightarrow> log_writer \<Rightarrow> (block_metadata \<times> log_record list) option result \<times> log_writer" where
  "log_push fo l w =
     (if length (rb_rows w) \<ge> rb_capacity w
      then case log_flush fo w of
             (Inl e, w') \<Rightarrow> (Inl e, w')
           | (Inr blk, w') \<Rightarrow> (Inr (Some blk), w'\<lparr>rb_rows := rb_rows w' @ [l]\<rparr>)
      else (Inr None, w\<lparr>rb_rows := rb_rows w @ [l]\<rparr>))"

definition trace_push :: "file_out \<Rightarrow> span \<Rightarrow> trace_writer \<Rightarrow> (block_metadata \<times> span list) option result \<times> trace_writer" where
  "trace_push fo s w =
     (if length (rb_rows w) \<ge> rb_capacity w
      then case trace_flush fo w of
             (Inl e, w') \<Rightarrow> (Inl e, w')
           | (Inr blk, w') \<Rightarrow> (Inr (Some blk), w'\<lparr>rb_rows := rb_rows w' @ [s]\<rparr>)
      else (Inr None, w\<lparr>rb_rows := rb_rows w @ [s]\<rparr>))"

subsection \<open>The label index is exact up to its cap\<close>

text \<open>An index is in order for a set of observed label entries: it has exactly their names, and
  for each name a set of observed values that is complete or has reached the cap.\<close>

definition values_ok :: "string set \<Rightarrow> string set option \<Rightarrow> bool" where
  "values_ok A r = (case r of
     None \<Rightarrow> A = {}
   | Some s \<Rightarrow> finite s \<and> s \<subseteq> A \<and> s \<noteq> {} \<and> card s \<le> MAX_VALUES_PER_FIELD
       \<and> (s = A \<or> card s = MAX_VALUES_PER_FIELD))"

definition index_ok :: "(string \<times> string) set \<Rightarrow> label_index \<Rightarrow> bool" where
  "index_ok E ix \<longleftrightarrow> li_names ix = fst ` E
     \<and> (\<forall>k. values_ok {v. (k, v) \<in> E} (map_of (li_values ix) k))"

lemma values_ok_insert:
  assumes "values_ok A r"
  shows "values_ok (insert v A) (Some (case r of
    None \<Rightarrow> {v} | Some s \<Rightarrow> if card s < MAX_VALUES_PER_FIELD \<and> v \<notin> s then insert v s else s))"
proof (cases r)
  case None
  with assms show ?thesis by (simp add: values_ok_def MAX_VALUES_PER_FIELD_def)
next
  case (Some s)
  with assms show ?thesis by (auto simp: values_ok_def)
qed

lemma observe_value_lookup:
  "map_of (observe_value cap (k, v) vs) j =
     (if j = k then Some (case map_of vs k of
        None \<Rightarrow> {v} | Some s \<Rightarrow> if card s < cap \<and> v \<notin> s then insert v s else s)
      else map_of vs j)"
  by (auto simp: observe_value_def update_conv' split: option.splits)

lemma index_ok_new: "index_ok {} label_index_new"
  by (simp add: index_ok_def label_index_new_def values_ok_def)

lemma index_ok_entry:
  assumes ok: "index_ok E ix"
  shows "index_ok (insert kv E) (observe_entry kv ix)"
proof -
  obtain k v where kv: "kv = (k, v)" by fastforce
  have "values_ok {u. (j, u) \<in> insert kv E} (map_of (observe_value MAX_VALUES_PER_FIELD kv (li_values ix)) j)" for j
  proof (cases "j = k")
    case True
    have "{u. (k, u) \<in> insert kv E} = insert v {u. (k, u) \<in> E}" by (auto simp: kv)
    with True ok values_ok_insert [of "{u. (k, u) \<in> E}"] show ?thesis
      by (simp add: kv observe_value_lookup index_ok_def)
  next
    case False
    then have "{u. (j, u) \<in> insert kv E} = {u. (j, u) \<in> E}" by (auto simp: kv)
    with False ok show ?thesis by (simp add: kv observe_value_lookup index_ok_def)
  qed
  with ok show ?thesis by (simp add: index_ok_def observe_entry_def)
qed

lemma index_ok_observe: "index_ok E ix \<Longrightarrow> index_ok (set (ls_entries ls) \<union> E) (observe ls ix)"
proof -
  have "index_ok E ix \<Longrightarrow> index_ok (set kvs \<union> E) (fold observe_entry kvs ix)" for kvs
  proof (induction kvs arbitrary: E ix)
    case (Cons kv kvs)
    from Cons.IH [OF index_ok_entry [OF Cons.prems]] show ?case by simp
  qed simp
  then show "index_ok E ix \<Longrightarrow> ?thesis" by (simp add: observe_def ls_iter_def)
qed

text \<open>The scan of a flush: what has been seen, and that observing each distinct set once is
  enough.\<close>

definition scan_ok :: "(string \<times> string) set \<Rightarrow> flush_scan \<Rightarrow> bool" where
  "scan_ok E s \<longleftrightarrow> index_ok E (fs_index s) \<and> (\<forall>es \<in> fs_seen s. set es \<subseteq> E)"

lemma scan_ok_see:
  assumes "scan_ok E s"
  shows "scan_ok (set (ls_entries ls) \<union> E) (see_labels ls s)"
proof (cases "ls_entries ls \<in> fs_seen s")
  case True
  then have "set (ls_entries ls) \<union> E = E" using assms by (auto simp: scan_ok_def)
  with True assms show ?thesis by (simp add: see_labels_def)
next
  case False
  with assms show ?thesis by (auto simp: see_labels_def scan_ok_def intro: index_ok_observe)
qed

definition batch_entries :: "pushed_batch \<Rightarrow> (string \<times> string) set" where
  "batch_entries b = set (ls_entries (pb_resource b)) \<union> (\<Union>dp \<in> set (pb_points b). set (ls_entries (dp_labels dp)))"

lemma scan_ok_batch: "scan_ok E s \<Longrightarrow> scan_ok (batch_entries b \<union> E) (scan_batch b s)"
proof -
  have pts: "scan_ok E s \<Longrightarrow> scan_ok ((\<Union>dp \<in> set dps. set (ls_entries (dp_labels dp))) \<union> E)
      (fold scan_point dps s)"
    for dps E s
  proof (induction dps arbitrary: E s)
    case (Cons dp dps)
    have "scan_ok E (s\<lparr>fs_start := a, fs_end := b\<rparr>)" for a b using Cons.prems by (simp add: scan_ok_def)
    then have "scan_ok (set (ls_entries (dp_labels dp)) \<union> E) (scan_point dp s)"
      unfolding scan_point_def by (rule scan_ok_see)
    from Cons.IH [OF this] show ?case by (simp add: Un_assoc Un_left_commute)
  qed simp
  assume "scan_ok E s"
  then have "scan_ok E (s\<lparr>fs_names := ns\<rparr>)" for ns by (simp add: scan_ok_def)
  from scan_ok_see [OF this] have "scan_ok (set (ls_entries (pb_resource b)) \<union> E)
      (see_labels (pb_resource b) (s\<lparr>fs_names := insert (pb_name b) (fs_names s)\<rparr>))" .
  from pts [OF this] show ?thesis
    unfolding scan_batch_def batch_entries_def by (simp add: Un_assoc Un_left_commute)
qed

lemma scan_ok_batches: "scan_ok E s \<Longrightarrow> scan_ok ((\<Union>b \<in> set bs. batch_entries b) \<union> E) (fold scan_batch bs s)"
proof (induction bs arbitrary: E s)
  case (Cons b bs)
  from Cons.IH [OF scan_ok_batch [OF Cons.prems]] show ?case by (simp add: Un_assoc Un_left_commute)
qed simp

subsection \<open>The time bounds and names of a block\<close>

lemma see_labels_fields [simp]:
  "fs_start (see_labels ls s) = fs_start s" "fs_end (see_labels ls s) = fs_end s"
  "fs_names (see_labels ls s) = fs_names s"
  by (simp_all add: see_labels_def)

lemma fold_scan_point_fields:
  "fs_start (fold scan_point dps s) = fold (\<lambda>dp. min (dp_timestamp_ns dp)) dps (fs_start s)
   \<and> fs_end (fold scan_point dps s) = fold (\<lambda>dp. max (dp_timestamp_ns dp)) dps (fs_end s)
   \<and> fs_names (fold scan_point dps s) = fs_names s"
  by (induction dps arbitrary: s) (simp_all add: scan_point_def min.commute max.commute)

lemma fold_scan_batch_fields:
  "fs_start (fold scan_batch bs s) = fold (\<lambda>dp. min (dp_timestamp_ns dp)) (concat (map pb_points bs)) (fs_start s)
   \<and> fs_end (fold scan_batch bs s) = fold (\<lambda>dp. max (dp_timestamp_ns dp)) (concat (map pb_points bs)) (fs_end s)
   \<and> fs_names (fold scan_batch bs s) = pb_name ` set bs \<union> fs_names s"
  by (induction bs arbitrary: s) (auto simp: scan_batch_def fold_scan_point_fields)

lemma fold_max_map: "fold (\<lambda>x. max (f x)) xs a = fold max (map f xs) (a :: 'a :: linorder)"
  by (induction xs arbitrary: a) auto

lemma fold_min_map: "fold (\<lambda>x. min (f x)) xs a = fold min (map f xs) (a :: 'a :: linorder)"
  by (induction xs arbitrary: a) auto

lemma fold_min_le: "(x :: 'a :: linorder) \<in> insert a (set xs) \<Longrightarrow> fold min xs a \<le> x"
proof (induction xs arbitrary: a x)
  case (Cons y ys)
  show ?case
  proof (cases "x \<in> set ys")
    case False
    have "fold min ys (min y a) \<le> min y a" by (rule Cons.IH) simp
    also have "min y a \<le> x" using Cons.prems False by auto
    finally show ?thesis by simp
  qed (use Cons.IH in simp)
qed simp

lemma fold_min_in: "fold min xs (a :: 'a :: linorder) \<in> insert a (set xs)"
  by (induction xs arbitrary: a) (auto simp: min_def)

text \<open>A bound below all elements is one of them, when the starting value is not below them.\<close>

lemma fold_min_attained:
  assumes "xs \<noteq> []" "\<And>x. x \<in> set xs \<Longrightarrow> x \<le> (a :: 'a :: linorder)"
  shows "fold min xs a \<in> set xs"
proof (rule ccontr)
  assume "fold min xs a \<notin> set xs"
  then have a: "fold min xs a = a" using fold_min_in [of xs a] by auto
  have "hd xs \<in> set xs" using assms (1) by simp
  then have "fold min xs a \<le> hd xs" by (intro fold_min_le) simp
  then have "hd xs = a" using assms (2) [OF \<open>hd xs \<in> set xs\<close>] a by simp
  then show False using \<open>hd xs \<in> set xs\<close> a \<open>fold min xs a \<notin> set xs\<close> by simp
qed

lemma fold_max_attained:
  assumes "xs \<noteq> []" "\<And>x. x \<in> set xs \<Longrightarrow> (a :: 'a :: linorder) \<le> x"
  shows "fold max xs a \<in> set xs"
proof (rule ccontr)
  assume "fold max xs a \<notin> set xs"
  then have a: "fold max xs a = a" using fold_max_in [of xs a] by auto
  have "hd xs \<in> set xs" using assms (1) by simp
  then have "hd xs \<le> fold max xs a" by (intro fold_max_ge) simp
  then have "hd xs = a" using assms (2) [OF \<open>hd xs \<in> set xs\<close>] a by simp
  then show False using \<open>hd xs \<in> set xs\<close> a \<open>fold max xs a \<notin> set xs\<close> by simp
qed

subsection \<open>The rows of a block are the rows pushed\<close>

definition all_points :: "block_writer \<Rightarrow> data_point list" where
  "all_points w = concat (map pb_points (bw_batches w))"

text \<open>Counts that fit the 32 bit indices of the sort keys.\<close>

definition u32_sized :: "pushed_batch list \<Rightarrow> bool" where
  "u32_sized bs \<longleftrightarrow> length bs \<le> 2 ^ 32 \<and> list_all (\<lambda>b. length (pb_points b) \<le> 2 ^ 32) bs"

definition point_of :: "pushed_batch list \<Rightarrow> u64 \<times> i64 \<times> nat \<times> nat \<Rightarrow> data_point" where
  "point_of bs = (\<lambda>(_, _, bi, pi). pb_points (bs ! bi) ! pi)"

lemma batch_point_keys_points:
  assumes "u32_sized bs" "(bi, b) \<in> set (enumerate 0 bs)"
  shows "map (point_of bs) (batch_point_keys bi b) = pb_points b"
    "\<And>x. x \<in> set (batch_point_keys bi b) \<Longrightarrow>
       (fst x, fst (snd x)) = (fingerprint (dp_labels (point_of bs x)), dp_timestamp_ns (point_of bs x))"
proof -
  have bi: "bi < length bs" "bs ! bi = b" using assms (2) by (auto simp: in_set_enumerate_eq)
  then have cast: "as_u32 bi = bi" and len: "length (pb_points b) \<le> 2 ^ 32"
    using assms (1) by (auto simp: u32_sized_def as_u32_def list_all_length)
  have pi: "as_u32 pi = pi" if "pi < length (pb_points b)" for pi using that len by (simp add: as_u32_def)
  show "map (point_of bs) (batch_point_keys bi b) = pb_points b"
    by (rule nth_equalityI) (simp_all add: batch_point_keys_def point_of_def nth_enumerate_eq cast bi pi)
  show "(fst x, fst (snd x)) = (fingerprint (dp_labels (point_of bs x)), dp_timestamp_ns (point_of bs x))"
    if "x \<in> set (batch_point_keys bi b)" for x
    using that by (auto simp: batch_point_keys_def point_of_def in_set_enumerate_eq cast bi pi)
qed

lemma map_snd_filter_enumerate: "map snd (filter (\<lambda>(i, b). P b) (enumerate n bs)) = filter P bs"
  by (induction bs arbitrary: n) auto

lemma group_points:
  assumes "u32_sized bs"
  shows "map (point_of bs) (group_point_keys bs k) = concat (map pb_points (filter (\<lambda>b. batch_key b = k) bs))"
proof -
  let ?sel = "filter (\<lambda>(bi, b). batch_key b = k) (enumerate 0 bs)"
  have "map (\<lambda>p. map (point_of bs) (case p of (bi, b) \<Rightarrow> batch_point_keys bi b)) ?sel = map (pb_points \<circ> snd) ?sel"
    using batch_point_keys_points (1) [OF assms] by (intro map_cong) auto
  then have "map (point_of bs) (group_point_keys bs k) = concat (map pb_points (map snd ?sel))"
    by (simp only: group_point_keys_def map_concat map_map comp_def)
  then show ?thesis by (simp only: map_snd_filter_enumerate)
qed

lemma group_run_points:
  assumes "u32_sized bs"
  shows "mset (mr_points (group_run bs k)) = mset (concat (map pb_points (filter (\<lambda>b. batch_key b = k) bs)))"
proof -
  have "mr_points (group_run bs k) = map (point_of bs) (sort (group_point_keys bs k))"
    by (simp add: group_run_def point_of_def Let_def)
  then have "mset (mr_points (group_run bs k)) = mset (map (point_of bs) (group_point_keys bs k))" by simp
  then show ?thesis by (simp only: group_points [OF assms])
qed

lemma group_run_sorted:
  assumes "u32_sized bs"
  shows "sorted (map (\<lambda>dp. (fingerprint (dp_labels dp), dp_timestamp_ns dp)) (mr_points (group_run bs k)))"
proof -
  let ?K = "sort (group_point_keys bs k)"
  have key: "(fingerprint (dp_labels (point_of bs x)), dp_timestamp_ns (point_of bs x)) = (fst x, fst (snd x))"
    if "x \<in> set (group_point_keys bs k)" for x
  proof -
    from that obtain bi b where "(bi, b) \<in> set (enumerate 0 bs)" "x \<in> set (batch_point_keys bi b)"
      by (auto simp: group_point_keys_def)
    from batch_point_keys_points (2) [OF assms this] show ?thesis by (rule sym)
  qed
  have "map (\<lambda>dp. (fingerprint (dp_labels dp), dp_timestamp_ns dp)) (mr_points (group_run bs k)) =
      map (\<lambda>x. (fst x, fst (snd x))) ?K"
    by (simp add: group_run_def Let_def flip: point_of_def) (use key in auto)
  moreover have "sorted (map (\<lambda>x. (fst x, fst (snd x))) ?K)"
    unfolding sorted_map by (rule sorted_wrt_mono_rel [OF _ sorted_sort]) (auto simp: less_eq_prod_def)
  ultimately show ?thesis by simp
qed

definition block_points :: "metric_run list \<Rightarrow> data_point list" where
  "block_points runs = concat (map mr_points runs)"

lemma metric_runs_points:
  assumes "u32_sized bs"
  shows "mset (block_points (metric_runs bs)) = mset (concat (map pb_points bs))"
proof -
  let ?ks = "sort (remdups (map batch_key bs))"
  have "mset (block_points (metric_runs bs)) = (\<Sum>k\<leftarrow>?ks. mset (mr_points (group_run bs k)))"
    by (simp only: block_points_def metric_runs_def mset_concat_sum map_map comp_def)
  also have "\<dots> = (\<Sum>k\<leftarrow>?ks. \<Sum>b\<leftarrow>filter (\<lambda>b. batch_key b = k) bs. mset (pb_points b))"
    by (simp only: group_run_points [OF assms] mset_concat_sum map_map comp_def)
  also have "\<dots> = (\<Sum>b\<leftarrow>bs. mset (pb_points b))" by (rule sum_list_groups) auto
  finally show ?thesis by (simp only: mset_concat_sum map_map comp_def)
qed

text \<open>The invariant of a block writer: the row counter counts the rows, no batch is empty and the
  block is not over its capacity.\<close>

definition writer_inv :: "block_writer \<Rightarrow> bool" where
  "writer_inv w \<longleftrightarrow> bw_rows w = length (all_points w) \<and> list_all (\<lambda>b. pb_points b \<noteq> []) (bw_batches w)"

definition writer_ok :: "block_writer \<Rightarrow> bool" where
  "writer_ok w \<longleftrightarrow> writer_inv w \<and> bw_rows w \<le> bw_capacity w \<and> bw_capacity w \<le> 2 ^ 32"

lemma length_le_concat: "list_all (\<lambda>x. f x \<noteq> []) xs \<Longrightarrow> length xs \<le> length (concat (map f xs))"
proof (induction xs)
  case (Cons x xs)
  then show ?case by (cases "f x") auto
qed simp

lemma length_elem_le_concat: "x \<in> set xs \<Longrightarrow> length (f x) \<le> length (concat (map f xs))"
  by (induction xs) auto

lemma writer_inv_sized: "writer_inv w \<Longrightarrow> bw_rows w \<le> 2 ^ 32 \<Longrightarrow> u32_sized (bw_batches w)"
  using length_le_concat [of pb_points "bw_batches w"] length_elem_le_concat [of _ "bw_batches w" pb_points]
  by (auto simp: writer_inv_def u32_sized_def all_points_def list_all_iff intro: order_trans)

lemma writer_ok_sized: "writer_ok w \<Longrightarrow> u32_sized (bw_batches w)"
  by (rule writer_inv_sized) (auto simp: writer_ok_def)

lemma with_epoch_ok: "writer_inv (with_epoch c n)" "bw_epoch (with_epoch c n) = n"
  "all_points (with_epoch c n) = []" "bw_capacity (with_epoch c n) = bc_max_rows_per_block c"
  by (simp_all add: writer_inv_def with_epoch_def all_points_def)

lemma bw_flush_cases:
  obtains (empty) "bw_rows w = 0" "bw_flush fo w = (Inl (Internal ''Cannot flush empty buffer''), w)"
  | (failed) e where "bw_rows w \<noteq> 0" "fo_err fo = Some e" "bw_flush fo w = (Inl e, w)"
  | (written) bm where "bw_rows w \<noteq> 0" "fo_err fo = None" "bm_row_count bm = bw_rows w"
      "bw_flush fo w = (Inr (bm, metric_runs (bw_batches w)), w\<lparr>bw_batches := [], bw_rows := 0, bw_epoch := bw_epoch w + 1\<rparr>)"
proof (cases "bw_rows w = 0")
  case True
  then show thesis by (intro empty) (simp_all add: bw_flush_def)
next
  case False
  show thesis
  proof (cases "fo_err fo")
    case None
    with False show thesis by (intro written [OF False None]) (simp_all add: bw_flush_def Let_def)
  next
    case (Some e)
    with False show thesis by (intro failed [OF False Some]) (simp add: bw_flush_def Let_def)
  qed
qed

lemma writer_ok_flushed:
  "writer_ok w \<Longrightarrow> writer_ok (w\<lparr>bw_batches := [], bw_rows := 0, bw_epoch := n\<rparr>)"
  by (auto simp: writer_ok_def writer_inv_def all_points_def)

lemma writer_ok_append:
  assumes "writer_ok w" "here \<noteq> []" "bw_rows w + length here \<le> bw_capacity w"
  shows "writer_ok (w\<lparr>bw_rows := bw_rows w + length here, bw_batches := bw_batches w @
    [\<lparr>pb_name = n, pb_kind = k, pb_resource = r, pb_points = here\<rparr>]\<rparr>)"
  using assms by (auto simp: writer_ok_def writer_inv_def all_points_def)

text \<open>What the loop of \<open>push\<close> does: it closes blocks of exactly the capacity, one epoch each, and
  every row is in one of them, in the writer or, after an error, among the rows it did not reach.\<close>

type_synonym block = "block_metadata \<times> metric_run list"

definition points_of_blocks :: "block list \<Rightarrow> data_point list" where
  "points_of_blocks blks = concat (map (\<lambda>b. block_points (snd b)) blks)"

definition pushed :: "(nat \<Rightarrow> file_out) \<Rightarrow> nat \<Rightarrow> data_point list \<Rightarrow> block_writer \<Rightarrow> error option
    \<Rightarrow> block list \<Rightarrow> block_writer \<Rightarrow> data_point list \<Rightarrow> bool" where
  "pushed fos i remaining w r blks w' left \<longleftrightarrow>
     writer_ok w' \<and> bw_capacity w' = bw_capacity w \<and> bw_config w' = bw_config w
     \<and> bw_epoch w' = bw_epoch w + of_nat (length blks)
     \<and> list_all (\<lambda>b. bm_row_count (fst b) = bw_capacity w \<and> length (block_points (snd b)) = bw_capacity w) blks
     \<and> mset (points_of_blocks blks) + mset (all_points w') + mset left = mset (all_points w) + mset remaining
     \<and> mset left \<subseteq># mset remaining
     \<and> (case r of None \<Rightarrow> left = []
        | Some e \<Rightarrow> fo_err (fos (i + length blks)) = Some e \<and> bw_rows w' = bw_capacity w' \<and> left \<noteq> [])"

lemma points_of_blocks_simps [simp]:
  "points_of_blocks [] = []" "points_of_blocks (b # bs) = block_points (snd b) @ points_of_blocks bs"
  "points_of_blocks (bs @ cs) = points_of_blocks bs @ points_of_blocks cs"
  by (simp_all add: points_of_blocks_def)

lemma pushedI:
  assumes "writer_ok w'" "bw_capacity w' = bw_capacity w" "bw_config w' = bw_config w"
    "bw_epoch w' = bw_epoch w + of_nat (length blks)"
    "list_all (\<lambda>b. bm_row_count (fst b) = bw_capacity w \<and> length (block_points (snd b)) = bw_capacity w) blks"
    "mset (points_of_blocks blks) + mset (all_points w') + mset left = mset (all_points w) + mset remaining"
    "mset left \<subseteq># mset remaining"
    "case r of None \<Rightarrow> left = []
        | Some e \<Rightarrow> fo_err (fos (i + length blks)) = Some e \<and> bw_rows w' = bw_capacity w' \<and> left \<noteq> []"
  shows "pushed fos i remaining w r blks w' left"
  using assms unfolding pushed_def by blast

lemma pushed_flush:
  assumes ok: "writer_ok w" and full: "bw_capacity w - bw_rows w = 0" and bm: "bm_row_count bm = bw_rows w"
    and p: "pushed fos (i + 1) remaining (w\<lparr>bw_batches := [], bw_rows := 0, bw_epoch := bw_epoch w + 1\<rparr>) r blks w' left"
  shows "pushed fos i remaining w r ((bm, metric_runs (bw_batches w)) # blks) w' left"
proof (rule pushedI)
  have eq: "mset (block_points (metric_runs (bw_batches w))) = mset (all_points w)"
    unfolding all_points_def by (rule metric_runs_points) (rule writer_ok_sized [OF ok])
  have cap: "bm_row_count bm = bw_capacity w" "length (all_points w) = bw_capacity w"
    using ok full bm by (auto simp: writer_ok_def writer_inv_def)
  then show "list_all (\<lambda>b. bm_row_count (fst b) = bw_capacity w \<and> length (block_points (snd b)) = bw_capacity w) ((bm, metric_runs (bw_batches w)) # blks)"
    using p mset_eq_length [OF eq] by (simp add: pushed_def)
  have "all_points (w\<lparr>bw_batches := [], bw_rows := 0, bw_epoch := bw_epoch w + 1\<rparr>) = []"
    by (simp add: all_points_def)
  with p have "mset (points_of_blocks blks) + mset (all_points w') + mset left = mset remaining"
    unfolding pushed_def by simp
  then show "mset (points_of_blocks ((bm, metric_runs (bw_batches w)) # blks)) + mset (all_points w')
      + mset left = mset (all_points w) + mset remaining"
    by (simp add: eq add.assoc)
qed (use p in \<open>auto simp: pushed_def split: option.splits\<close>)

lemma pushed_append:
  assumes p: "pushed fos i rest (w\<lparr>bw_rows := bw_rows w + length here, bw_batches := bw_batches w @
      [\<lparr>pb_name = n, pb_kind = k, pb_resource = rs, pb_points = here\<rparr>]\<rparr>) r blks w' left"
    and split: "mset here + mset rest = mset remaining"
  shows "pushed fos i remaining w r blks w' left"
proof (rule pushedI)
  have "mset (points_of_blocks blks) + mset (all_points w') + mset left = mset (all_points w @ here) + mset rest"
    using p by (simp add: pushed_def all_points_def)
  then show "mset (points_of_blocks blks) + mset (all_points w') + mset left = mset (all_points w) + mset remaining"
    using split by simp
  have "mset left \<subseteq># mset rest" using p by (simp add: pushed_def)
  then show "mset left \<subseteq># mset remaining" using split
    by (metis mset_subset_eq_add_right subset_mset.trans)
qed (use p in \<open>auto simp: pushed_def\<close>)

lemma bw_push_loop_nil: "bw_push_loop fos i name kind res [] flushed w = (None, flushed, w)"
  by (simp add: bw_push_loop.simps)

lemma bw_push_loop_full:
  "remaining \<noteq> [] \<Longrightarrow> bw_capacity w - bw_rows w = 0 \<Longrightarrow>
   bw_push_loop fos i name kind res remaining flushed w = (case bw_flush (fos i) w of
     (Inl e, w') \<Rightarrow> (Some e, flushed, w')
   | (Inr blk, w') \<Rightarrow> bw_push_loop fos (i + 1) name kind res remaining (flushed @ [blk]) w')"
  by (subst bw_push_loop.simps) simp

lemma bw_push_loop_room:
  "remaining \<noteq> [] \<Longrightarrow> room = bw_capacity w - bw_rows w \<Longrightarrow> room \<noteq> 0 \<Longrightarrow>
   here = (if length remaining > room then take room remaining else remaining) \<Longrightarrow>
   rest = (if length remaining > room then drop room remaining else []) \<Longrightarrow>
   bw_push_loop fos i name kind res remaining flushed w = bw_push_loop fos i name kind res rest flushed
     (w\<lparr>bw_rows := bw_rows w + length here, bw_batches := bw_batches w @
        [\<lparr>pb_name = name, pb_kind = kind, pb_resource = res, pb_points = here\<rparr>]\<rparr>)"
  by (subst bw_push_loop.simps) (simp add: Let_def)

definition loop_pushed where
  "loop_pushed fos i remaining flushed w r fl w' \<longleftrightarrow>
     (\<exists>blks left. fl = flushed @ blks \<and> pushed fos i remaining w r blks w' left)"

lemma bw_push_loop_pushed_full:
  assumes ok: "writer_ok w" and cap: "bw_capacity w > 0" and ne: "remaining \<noteq> []"
    and full: "bw_capacity w - bw_rows w = 0"
    and run: "bw_push_loop fos i name kind res remaining flushed w = (r, fl, w')"
    and IH: "\<And>blk v. bw_flush (fos i) w = (Inr blk, v) \<Longrightarrow> writer_ok v \<Longrightarrow> bw_capacity v > 0 \<Longrightarrow>
      bw_push_loop fos (i + 1) name kind res remaining (flushed @ [blk]) v = (r, fl, w') \<Longrightarrow>
      loop_pushed fos (i + 1) remaining (flushed @ [blk]) v r fl w'"
  shows "loop_pushed fos i remaining flushed w r fl w'"
proof (cases rule: bw_flush_cases [of w "fos i"])
  case empty
  with full cap show ?thesis by simp
next
  case (failed e)
  with bw_push_loop_full [OF ne full, of fos i name kind res flushed] run
  have out: "r = Some e" "fl = flushed @ []" "w' = w" by simp_all
  then have "pushed fos i remaining w r [] w' remaining"
    using failed (2) ne full ok by (simp add: pushed_def writer_ok_def)
  with out (2) show ?thesis unfolding loop_pushed_def by blast
next
  case (written bm)
  then have "bw_push_loop fos (i + 1) name kind res remaining (flushed @ [(bm, metric_runs (bw_batches w))])
      (w\<lparr>bw_batches := [], bw_rows := 0, bw_epoch := bw_epoch w + 1\<rparr>) = (r, fl, w')"
    using bw_push_loop_full [OF ne full] run by simp
  from IH [OF written (4) writer_ok_flushed [OF ok] _ this] cap
  obtain blks left where "fl = flushed @ (bm, metric_runs (bw_batches w)) # blks" "pushed fos (i + 1) remaining
      (w\<lparr>bw_batches := [], bw_rows := 0, bw_epoch := bw_epoch w + 1\<rparr>) r blks w' left"
    by (auto simp: loop_pushed_def)
  with pushed_flush [OF ok full written (3)] show ?thesis unfolding loop_pushed_def by blast
qed

lemma bw_push_loop_pushed:
  assumes "writer_ok w" "bw_capacity w > 0"
    "bw_push_loop fos i name kind res remaining flushed w = (r, fl, w')"
  shows "loop_pushed fos i remaining flushed w r fl w'"
  using assms
proof (induction fos i name kind res remaining flushed w rule: bw_push_loop.induct)
  case (1 fos i name kind res remaining flushed w)
  define room where "room = bw_capacity w - bw_rows w"
  define here where "here = (if length remaining > room then take room remaining else remaining)"
  define rest where "rest = (if length remaining > room then drop room remaining else [])"
  define v where "v = w\<lparr>bw_rows := bw_rows w + length here, bw_batches := bw_batches w @
    [\<lparr>pb_name = name, pb_kind = kind, pb_resource = res, pb_points = here\<rparr>]\<rparr>"
  consider "remaining = []" | "remaining \<noteq> []" "room = 0" | "remaining \<noteq> []" "room \<noteq> 0" by blast
  then show ?case
  proof cases
    assume "remaining = []"
    then have "fl = flushed @ []" "pushed fos i remaining w r [] w' []"
      using "1.prems" (1, 3) by (auto simp: pushed_def bw_push_loop_nil)
    then show ?thesis unfolding loop_pushed_def by blast
  next
    assume ne: "remaining \<noteq> []" and full: "room = 0"
    show ?thesis
      by (rule bw_push_loop_pushed_full [OF "1.prems" (1, 2) ne full [unfolded room_def] "1.prems" (3)])
        (rule "1.IH" (1) [OF ne room_def full _ refl], auto)
  next
    assume ne: "remaining \<noteq> []" and room: "room \<noteq> 0"
    then have "here \<noteq> []" by (auto simp: here_def)
    moreover have "bw_rows w + length here \<le> bw_capacity w"
      using room "1.prems" (1) by (auto simp: here_def room_def writer_ok_def)
    ultimately have "writer_ok v" unfolding v_def by (rule writer_ok_append [OF "1.prems" (1)])
    moreover have "bw_push_loop fos i name kind res rest flushed v = (r, fl, w')"
      using "1.prems" (3) bw_push_loop_room [OF ne room_def room here_def rest_def] by (simp add: v_def)
    ultimately obtain blks left where fl: "fl = flushed @ blks" and "pushed fos i rest v r blks w' left"
      using "1.IH" (2) [OF ne room_def room rest_def here_def, folded v_def] "1.prems" (2)
      by (auto simp: v_def loop_pushed_def)
    from this (2) have "pushed fos i remaining w r blks w' left"
      unfolding v_def by (rule pushed_append) (simp add: here_def rest_def flip: mset_append)
    with fl show ?thesis unfolding loop_pushed_def by blast
  qed
qed

lemma bw_push_run_pushed:
  assumes "writer_ok w" "bw_capacity w > 0" "bw_push_run fos m w = (r, blks, w')"
  obtains left where "pushed fos 0 (m_data_points m) w r blks w' left"
  using bw_push_loop_pushed [OF assms (1, 2) assms (3) [unfolded bw_push_run_def]] that
  by (auto simp: loop_pushed_def)

subsection \<open>Blocks of logs and spans\<close>

lemma sort_key_ne: "xs \<noteq> [] \<Longrightarrow> sort_key f xs \<noteq> []"
  by (metis length_0_conv length_sort)

lemma sorted_last_ge: "sorted (map f xs) \<Longrightarrow> x \<in> set xs \<Longrightarrow> f x \<le> (f (last xs) :: 'a :: linorder)"
  by (induction xs) (auto split: if_splits)

lemma sorted_hd_le: "sorted (map f xs) \<Longrightarrow> x \<in> set xs \<Longrightarrow> (f (hd xs) :: 'a :: linorder) \<le> f x"
  by (cases xs) auto

text \<open>Concrete values for the examples.\<close>

definition sample_dp :: "i64 \<Rightarrow> data_point" where
  "sample_dp t = \<lparr>dp_timestamp_ns = t, dp_value = IntVal 1,
     dp_labels = from_sorted_unique 1 [(''job'', ''x'')]\<rparr>"

definition sample_metric :: "i64 list \<Rightarrow> metric" where
  "sample_metric ts = \<lparr>m_name = ''up'', m_description = [], m_unit = [], m_kind = Gauge,
     m_resource_attributes = default_labels, m_data_points = map sample_dp ts\<rparr>"

definition sample_writer :: "nat \<Rightarrow> i64 list \<Rightarrow> block_writer" where
  "sample_writer cap ts =
     \<lparr>bw_config = \<lparr>bc_data_dir = ''d'', bc_block_duration_secs = 60, bc_max_rows_per_block = cap\<rparr>,
      bw_batches = (if ts = [] then [] else [\<lparr>pb_name = ''up'', pb_kind = Gauge, pb_resource = default_labels,
        pb_points = map sample_dp ts\<rparr>]),
      bw_rows = length ts, bw_capacity = cap, bw_wal_range = Some (3, 8), bw_epoch = 5\<rparr>"

definition sample_file :: "error option \<Rightarrow> file_out" where
  "sample_file e = \<lparr>fo_err = e, fo_path = ''b'', fo_size = 9\<rparr>"

definition sample_log :: "i64 \<Rightarrow> log_record" where
  "sample_log t = \<lparr>lr_timestamp_ns = t, lr_observed_timestamp_ns = t, lr_severity_number = 9,
     lr_severity_text = ''INFO'', lr_body = ''ok'', lr_attributes = default_labels,
     lr_resource_attributes = default_labels, lr_trace_id = [], lr_span_id = [], lr_flags = 0,
     lr_scope_name = [], lr_scope_version = []\<rparr>"

definition sample_span :: "i64 \<Rightarrow> i64 \<Rightarrow> span" where
  "sample_span a b = \<lparr>sp_trace_id = [], sp_span_id = [], sp_trace_state = [], sp_name = ''op'', sp_kind = 2,
     sp_start_time_ns = a, sp_end_time_ns = b, sp_attributes = default_labels, sp_events = [], sp_links = [],
     sp_status = \<lparr>ss_code = 0, ss_message = []\<rparr>, sp_parent_span_id = [], sp_flags = 0\<rparr>"

definition sample_buffer :: "'r list \<Rightarrow> 'r row_buffer" where
  "sample_buffer rs = \<lparr>rb_data_dir = ''d'', rb_rows = rs, rb_capacity = 7, rb_wal_range = None\<rparr>"

lemma sample_writer_ok: "writer_inv (sample_writer cap ts)"
  "length ts \<le> cap \<Longrightarrow> cap \<le> 2 ^ 32 \<Longrightarrow> writer_ok (sample_writer cap ts)"
  "all_points (sample_writer cap ts) = map sample_dp ts"
  by (auto simp: writer_ok_def writer_inv_def all_points_def sample_writer_def)

lemma sample_fields [simp]: "bw_rows (sample_writer cap ts) = length ts" "bw_capacity (sample_writer cap ts) = cap"
  "fo_err (sample_file e) = e" "dp_timestamp_ns (sample_dp t) = t" "lr_timestamp_ns (sample_log t) = t"
  "sp_start_time_ns (sample_span t u) = t" "sp_end_time_ns (sample_span t u) = u" "rb_rows (sample_buffer rs) = rs"
  "m_data_points (sample_metric ts) = map sample_dp ts"
  by (simp_all add: sample_writer_def sample_file_def sample_dp_def sample_log_def sample_span_def sample_buffer_def
      sample_metric_def)

subsection \<open>Properties\<close>



text \<open>C23: Pushing a metric neither loses nor duplicates a point: when every block it closes along the
  way is written, those blocks hold exactly the capacity of rows each, and together with the writer
  they hold the earlier rows and the points of the metric. The invariant of the writer is kept and
  its epoch counts the blocks.\<close>

theorem push_conserves_rows:
  assumes "writer_ok w" "bw_capacity w > 0" "\<And>i. fo_err (fos i) = None"
  shows "\<exists>blks w'. bw_push fos m w = (Inr blks, w')
    \<and> mset (points_of_blocks blks) + mset (all_points w') = mset (all_points w) + mset (m_data_points m)
    \<and> list_all (\<lambda>b. bm_row_count (fst b) = bw_capacity w) blks
    \<and> writer_ok w' \<and> bw_epoch w' = bw_epoch w + of_nat (length blks)"
proof -
  obtain r blks w' where run: "bw_push_run fos m w = (r, blks, w')" by (cases "bw_push_run fos m w") auto
  obtain left where "pushed fos 0 (m_data_points m) w r blks w' left"
    using bw_push_run_pushed [OF assms (1, 2) run] by blast
  with assms (3) run show ?thesis by (cases r) (auto simp: pushed_def bw_push_def list_all_iff)
qed

lemma push_conserves_rows_witness:
  "\<exists>blks w'. bw_push (\<lambda>_. sample_file None) (sample_metric [20, 30, 40, 50]) (sample_writer 3 [10]) = (Inr blks, w')
     \<and> mset (points_of_blocks blks) + mset (all_points w') = mset (map sample_dp [10, 20, 30, 40, 50])"
  using push_conserves_rows [OF sample_writer_ok (2), of "[10]" 3 "\<lambda>_. sample_file None" "sample_metric [20, 30, 40, 50]"]
  by (fastforce simp: sample_writer_ok (3))

text \<open>When a block cannot be written, push returns that error and leaves a full writer: the earlier
  rows and the points already taken are in the blocks closed before and in the writer, and the
  points not reached are in neither.\<close>

theorem push_error_splits_rows:
  assumes "writer_ok w" "bw_capacity w > 0" "bw_push fos m w = (Inl e, w')"
  shows "\<exists>blks left. fo_err (fos (length blks)) = Some e \<and> left \<noteq> []
    \<and> mset (points_of_blocks blks) + mset (all_points w') + mset left
        = mset (all_points w) + mset (m_data_points m)
    \<and> writer_ok w' \<and> bw_rows w' = bw_capacity w'"
proof -
  obtain blks where run: "bw_push_run fos m w = (Some e, blks, w')"
    using assms (3) by (auto simp: bw_push_def split: prod.splits option.splits)
  obtain left where "pushed fos 0 (m_data_points m) w (Some e) blks w' left"
    using bw_push_run_pushed [OF assms (1, 2) run] by blast
  then have "fo_err (fos (length blks)) = Some e \<and> left \<noteq> []
    \<and> mset (points_of_blocks blks) + mset (all_points w') + mset left = mset (all_points w) + mset (m_data_points m)
    \<and> writer_ok w' \<and> bw_rows w' = bw_capacity w'" by (simp add: pushed_def)
  then show ?thesis by blast
qed

lemma push_error_splits_rows_witness:
  "fst (bw_push (\<lambda>i. sample_file (if i = 0 then None else Some (Internal ''disk full''))) (sample_metric [20, 30, 40, 50])
      (sample_writer 2 [10])) = Inl (Internal ''disk full'')
   \<and> (\<exists>blks left. left \<noteq> [] \<and> mset (points_of_blocks blks) + mset (all_points
        (snd (bw_push (\<lambda>i. sample_file (if i = 0 then None else Some (Internal ''disk full'')))
          (sample_metric [20, 30, 40, 50]) (sample_writer 2 [10])))) + mset left = mset (map sample_dp [10, 20, 30, 40, 50]))"
  (is "fst ?run = ?err \<and> _")
proof -
  have err: "fst ?run = ?err"
    by (simp add: bw_push_def bw_push_run_def bw_push_loop.simps bw_flush_def sample_writer_def sample_metric_def sample_file_def Let_def)
  then have "?run = (?err, snd ?run)" by (metis prod.collapse)
  from push_error_splits_rows [OF sample_writer_ok (2) _ this]
  obtain blks left where "left \<noteq> []"
    "mset (points_of_blocks blks) + mset (all_points (snd ?run)) + mset left
       = mset (all_points (sample_writer 2 [10])) + mset (m_data_points (sample_metric [20, 30, 40, 50]))"
    by auto
  moreover from this (2) have "mset (points_of_blocks blks) + mset (all_points (snd ?run)) + mset left
       = mset (map sample_dp [10, 20, 30, 40, 50])"
    unfolding sample_writer_ok (3) sample_fields by simp
  ultimately show ?thesis using err by blast
qed

text \<open>A flush of the log writer writes the buffered records in timestamp order, with the first and
  the last timestamp as the bounds of the block; when the file cannot be written the records stay
  in the writer.\<close>

theorem log_flush_sorted_and_bounded:
  assumes "rb_rows w \<noteq> []"
  shows "case log_flush fo w of
      (Inr (bm, rows), w') \<Rightarrow> fo_err fo = None \<and> mset rows = mset (rb_rows w) \<and> sorted (map lr_timestamp_ns rows)
        \<and> (\<forall>l \<in> set (rb_rows w). bm_start_timestamp_ns bm \<le> lr_timestamp_ns l \<and> lr_timestamp_ns l \<le> bm_end_timestamp_ns bm)
        \<and> bm_row_count bm = length (rb_rows w) \<and> bm_wal_range bm = rb_wal_range w \<and> rb_rows w' = []
    | (Inl e, w') \<Rightarrow> fo_err fo = Some e \<and> mset (rb_rows w') = mset (rb_rows w)"
proof (cases "fo_err fo")
  case None
  have sorted: "sorted (map lr_timestamp_ns (sort_key lr_timestamp_ns (rb_rows w)))" by simp
  show ?thesis
    using assms None sorted_hd_le [OF sorted] sorted_last_ge [OF sorted] by (simp add: log_flush_def Let_def)
qed (simp add: log_flush_def assms)

lemma log_flush_sorted_and_bounded_witness:
  "\<exists>bm rows w'. log_flush (sample_file None) (sample_buffer [sample_log 30, sample_log 10]) = (Inr (bm, rows), w')
     \<and> mset rows = {#sample_log 30, sample_log 10#} \<and> bm_start_timestamp_ns bm \<le> 10 \<and> 30 \<le> bm_end_timestamp_ns bm"
  using log_flush_sorted_and_bounded [of "sample_buffer [sample_log 30, sample_log 10]" "sample_file None"]
  by (simp split: prod.splits sum.splits)

text \<open>A flush of the span writer orders the spans by start time and takes the end of the span that
  starts last as the end of the block. A span that is still open when that one starts ends after the
  block's end, so a query window after that end, which the span overlaps, does not overlap the
  block.\<close>

theorem trace_block_end_is_not_the_last_end:
  assumes "rb_rows w = [s, t]" "sp_start_time_ns s < sp_start_time_ns t" "sp_end_time_ns t < sp_end_time_ns s"
    "fo_err fo = None"
  shows "\<exists>bm w'. trace_flush fo w = (Inr (bm, [s, t]), w')
    \<and> bm_start_timestamp_ns bm = sp_start_time_ns s \<and> bm_end_timestamp_ns bm = sp_end_time_ns t
    \<and> bm_end_timestamp_ns bm < sp_end_time_ns s"
  using assms by (simp add: trace_flush_def Let_def)

lemma trace_block_end_is_not_the_last_end_witness:
  "\<exists>bm w'. trace_flush (sample_file None) (sample_buffer [sample_span 10 90, sample_span 20 30]) =
       (Inr (bm, [sample_span 10 90, sample_span 20 30]), w') \<and> bm_end_timestamp_ns bm = 30"
  using trace_block_end_is_not_the_last_end [of "sample_buffer [sample_span 10 90, sample_span 20 30]"
      "sample_span 10 90" "sample_span 20 30" "sample_file None"]
  by auto

end
