(* ===== verification/Flush_Order.thy ===== *)
theory Flush_Order
  imports Wal "HOL-Library.AList"
begin

section \<open>Flush order\<close>

text \<open>
  The model of \<open>FlushOrder\<close> in \<^verbatim>\<open>parqtel-ingest/src/service.rs\<close>: flushes are numbered when
  they begin, may finish in any order, and their effects (the WAL commit and the drop from the
  memory buffer) are released along the contiguous prefix of finished flushes. The two ordered
  maps are association lists; the sequence numbers are natural numbers, since a counter of 64
  bits does not wrap within the life of a process.
\<close>

record flush_order =
  or_next_seq :: nat
  or_wal_frontier :: nat
  or_wal_done :: "(nat \<times> wal_position) list"
  or_drop_frontier :: nat
  or_drop_done :: "(nat \<times> u64 list) list"

definition flush_order_default :: flush_order where
  "flush_order_default = \<lparr>or_next_seq = 0, or_wal_frontier = 0, or_wal_done = [],
     or_drop_frontier = 0, or_drop_done = []\<rparr>"

definition order_begin :: "flush_order \<Rightarrow> nat \<times> flush_order" where
  "order_begin od = (or_next_seq od, od\<lparr>or_next_seq := or_next_seq od + 1\<rparr>)"

definition joined :: "('a \<Rightarrow> 'a \<Rightarrow> 'a) \<Rightarrow> 'a option \<Rightarrow> 'a \<Rightarrow> 'a" where
  "joined comb acc v = (case acc of None \<Rightarrow> v | Some a \<Rightarrow> comb a v)"

text \<open>The loop both completions share: take the entries at the frontier, combining their values.\<close>

function advance :: "('a \<Rightarrow> 'a \<Rightarrow> 'a) \<Rightarrow> (nat \<times> 'a) list \<Rightarrow> nat \<Rightarrow> 'a option
    \<Rightarrow> 'a option \<times> (nat \<times> 'a) list \<times> nat" where
  "advance comb pending frontier acc =
     (case map_of pending frontier of
        None \<Rightarrow> (acc, pending, frontier)
      | Some v \<Rightarrow>
          advance comb (AList.delete frontier pending) (frontier + 1)
            (Some (joined comb acc v)))"
  by pat_completeness auto
termination
proof (relation "measure (\<lambda>(comb, pending, frontier, acc). length pending)", goal_cases)
  case (2 comb pending frontier acc v)
  then have "(frontier, v) \<in> set pending" by (auto dest: map_of_SomeD)
  then show ?case by (simp add: AList.delete_eq length_filter_less)
qed simp

declare advance.simps [simp del]

fun zip_max :: "u64 list \<Rightarrow> u64 list \<Rightarrow> u64 list" where
  "zip_max (a # acc) (b # s) = max a b # zip_max acc s"
| "zip_max acc s = acc"

definition wal_complete :: "nat \<Rightarrow> wal_position \<Rightarrow> flush_order \<Rightarrow> wal_position option \<times> flush_order" where
  "wal_complete seq covered od =
     (case advance max (AList.update seq covered (or_wal_done od)) (or_wal_frontier od) None of
        (advanced, pending, frontier) \<Rightarrow> (advanced, od\<lparr>or_wal_done := pending, or_wal_frontier := frontier\<rparr>))"

definition drop_complete :: "nat \<Rightarrow> u64 list \<Rightarrow> flush_order \<Rightarrow> u64 list option \<times> flush_order" where
  "drop_complete seq sealed od =
     (case advance zip_max (AList.update seq sealed (or_drop_done od)) (or_drop_frontier od) None of
        (released, pending, frontier) \<Rightarrow> (released, od\<lparr>or_drop_done := pending, or_drop_frontier := frontier\<rparr>))"

subsection \<open>What the loop releases\<close>

text \<open>Combining the values of a run of consecutive flushes, in order.\<close>

definition combined :: "('a \<Rightarrow> 'a \<Rightarrow> 'a) \<Rightarrow> (nat \<Rightarrow> 'a option) \<Rightarrow> nat list \<Rightarrow> 'a option \<Rightarrow> 'a option" where
  "combined comb m ns acc = fold (\<lambda>n acc. Some (joined comb acc (the (m n)))) ns acc"

lemma combined_cong: "(\<And>n. n \<in> set ns \<Longrightarrow> m n = m' n) \<Longrightarrow> combined comb m ns acc = combined comb m' ns acc"
  unfolding combined_def by (intro fold_cong) auto

definition pending_ok :: "(nat \<times> 'a) list \<Rightarrow> nat \<Rightarrow> bool" where
  "pending_ok pending frontier \<longleftrightarrow> distinct (map fst pending) \<and> (\<forall>n \<in> fst ` set pending. frontier < n)"

lemma advance_spec:
  assumes "advance comb pending f acc = (r, p', f')" "\<forall>n \<in> fst ` set pending. f \<le> n" "distinct (map fst pending)"
  shows "f \<le> f' \<and> {f..<f'} \<subseteq> dom (map_of pending) \<and> f' \<notin> dom (map_of pending)
    \<and> (\<forall>n. map_of p' n = (if n < f' then None else map_of pending n)) \<and> pending_ok p' f'
    \<and> r = combined comb (map_of pending) [f..<f'] acc"
  using assms
proof (induction comb pending f acc rule: advance.induct)
  case (1 comb pending f acc)
  show ?case
  proof (cases "map_of pending f")
    case None
    then have "f \<notin> fst ` set pending" by (simp add: map_of_eq_None_iff)
    moreover have "map_of pending n = None" if "n < f" for n
      using that "1.prems" (2) by (force simp: map_of_eq_None_iff)
    ultimately show ?thesis using None "1.prems"
      by (auto simp: advance.simps [of comb pending] pending_ok_def combined_def le_less)
  next
    case (Some v)
    let ?p = "AList.delete f pending"
    let ?acc = "Some (joined comb acc v)"
    have step: "advance comb ?p (f + 1) ?acc = (r, p', f')"
      using "1.prems" (1) Some by (simp add: advance.simps [of comb pending])
    have ge: "\<forall>n \<in> fst ` set ?p. f + 1 \<le> n" using "1.prems" (2) by (force simp: AList.delete_eq)
    have dist: "distinct (map fst ?p)" using "1.prems" (3) by (simp add: distinct_delete)
    have other: "map_of ?p n = map_of pending n" if "n \<noteq> f" for n using that by (simp add: delete_conv')
    note IH = "1.IH" [OF Some step ge dist]
    then have le: "f + 1 \<le> f'" by blast
    have "combined comb (map_of ?p) [f + 1..<f'] ?acc = combined comb (map_of pending) [f + 1..<f'] ?acc"
      by (rule combined_cong) (simp add: other)
    also have "\<dots> = combined comb (map_of pending) [f..<f'] acc"
      using le Some by (simp add: combined_def upt_conv_Cons)
    finally have r: "r = combined comb (map_of pending) [f..<f'] acc" using IH by simp
    have "{f..<f'} = insert f {f + 1..<f'}" using le by auto
    moreover have "{f + 1..<f'} \<subseteq> dom (map_of pending)" using IH other
      by (auto simp: subset_iff dom_def)
    ultimately have "{f..<f'} \<subseteq> dom (map_of pending)" using Some by auto
    then show ?thesis using IH le other r by (auto simp: dom_def)
  qed
qed

lemma combined_simps [simp]:
  "combined comb m [] acc = acc"
  "combined comb m (n # ns) acc = combined comb m ns (Some (joined comb acc (the (m n))))"
  by (simp_all add: combined_def)

lemma combined_Some: "\<exists>b. combined comb m ns (Some a) = Some b"
  by (induction ns arbitrary: a) auto

lemma combined_None_iff: "combined comb m ns None = None \<longleftrightarrow> ns = []"
  by (cases ns) (use combined_Some in \<open>auto simp: not_None_eq\<close>)

lemma combined_max:
  assumes "combined max m ns None = Some (p :: 'a :: linorder)"
  shows "p \<in> (\<lambda>n. the (m n)) ` set ns" "\<And>n. n \<in> set ns \<Longrightarrow> the (m n) \<le> p"
proof -
  obtain n ns' where ns: "ns = n # ns'" using assms by (cases ns) auto
  have "combined max m ns None = combined max m ns' (Some (the (m n)))"
    by (simp add: ns joined_def)
  moreover have "combined max m ns' (Some a) = Some (fold max (map (\<lambda>n. the (m n)) ns') a)" for a
    by (induction ns' arbitrary: a) (simp_all add: joined_def max.commute)
  ultimately have p: "p = fold max (map (\<lambda>n. the (m n)) ns') (the (m n))" using assms by simp
  show "p \<in> (\<lambda>n. the (m n)) ` set ns"
    using fold_max_in [of "map (\<lambda>n. the (m n)) ns'" "the (m n)"] by (auto simp: p ns)
  show "\<And>n. n \<in> set ns \<Longrightarrow> the (m n) \<le> p" unfolding p ns by (rule fold_max_ge) auto
qed

subsection \<open>The order after any sequence of completions\<close>

text \<open>The state of the WAL half when exactly the flushes of \<open>m\<close> have completed: the frontier is the
  first flush that has not, and what is pending are the completed flushes beyond it.\<close>

definition wal_order_ok :: "(nat \<Rightarrow> wal_position option) \<Rightarrow> flush_order \<Rightarrow> bool" where
  "wal_order_ok m od \<longleftrightarrow> {..<or_wal_frontier od} \<subseteq> dom m \<and> or_wal_frontier od \<notin> dom m
     \<and> pending_ok (or_wal_done od) (or_wal_frontier od)
     \<and> (\<forall>n. map_of (or_wal_done od) n = (if n < or_wal_frontier od then None else m n))"

lemma wal_order_ok_default: "wal_order_ok Map.empty flush_order_default"
  by (simp add: wal_order_ok_def flush_order_default_def pending_ok_def)

lemma wal_order_ok_begin: "wal_order_ok m od \<Longrightarrow> wal_order_ok m (snd (order_begin od))"
  by (simp add: wal_order_ok_def order_begin_def)

lemma wal_complete_spec:
  assumes ok: "wal_order_ok m od" and new: "seq \<notin> dom m" and c: "wal_complete seq covered od = (r, od')"
  shows "wal_order_ok (m(seq \<mapsto> covered)) od'" "or_wal_frontier od \<le> or_wal_frontier od'"
    "r = combined max (m(seq \<mapsto> covered)) [or_wal_frontier od..<or_wal_frontier od'] None"
    "or_next_seq od' = or_next_seq od" "or_drop_frontier od' = or_drop_frontier od" "or_drop_done od' = or_drop_done od"
proof -
  let ?f = "or_wal_frontier od" and ?P = "AList.update seq covered (or_wal_done od)"
  have ge: "?f \<le> seq" using ok new by (force simp: wal_order_ok_def)
  obtain p' f' where a: "advance max ?P ?f None = (r, p', f')"
    and od': "od' = od\<lparr>or_wal_done := p', or_wal_frontier := f'\<rparr>"
    using c by (auto simp: wal_complete_def split: prod.splits)
  have keys: "\<forall>n \<in> fst ` set ?P. ?f \<le> n"
    unfolding dom_update using ok ge by (auto simp: wal_order_ok_def pending_ok_def intro: less_imp_le)
  have dist: "distinct (map fst ?P)" using ok by (simp add: wal_order_ok_def pending_ok_def distinct_update)
  note spec = advance_spec [OF a keys dist]
  have P: "map_of ?P n = (m(seq \<mapsto> covered)) n" if "?f \<le> n" for n
    using ok that by (auto simp: update_conv' wal_order_ok_def)
  show "?f \<le> or_wal_frontier od'" using spec by (simp add: od')
  have "{..<f'} \<subseteq> dom (m(seq \<mapsto> covered))"
  proof
    fix n assume n: "n \<in> {..<f'}"
    show "n \<in> dom (m(seq \<mapsto> covered))"
    proof (cases "n < ?f")
      case True
      then show ?thesis using ok by (auto simp: wal_order_ok_def)
    next
      case False
      then have "n \<in> {?f..<f'}" using n by simp
      moreover have "{?f..<f'} \<subseteq> dom (map_of ?P)" using spec by blast
      ultimately have "n \<in> dom (map_of ?P)" by blast
      then show ?thesis using P [of n] False by (auto simp: dom_def)
    qed
  qed
  moreover have "f' \<notin> dom (m(seq \<mapsto> covered))" using spec P [of f'] by (auto simp: dom_def)
  moreover have "map_of p' n = (if n < f' then None else (m(seq \<mapsto> covered)) n)" for n
    using spec P [of n] by auto
  ultimately show "wal_order_ok (m(seq \<mapsto> covered)) od'" using spec by (auto simp: wal_order_ok_def od')
  show "r = combined max (m(seq \<mapsto> covered)) [?f..<or_wal_frontier od'] None"
    using spec combined_cong [of "[?f..<f']" "map_of ?P" "m(seq \<mapsto> covered)"] P by (simp add: od')
qed (use c in \<open>auto simp: wal_complete_def split: prod.splits\<close>)

text \<open>The positions released so far: each is the position of a flush below the frontier, and
  together they reach the position of every flush below it.\<close>

definition released_ok :: "(nat \<Rightarrow> wal_position option) \<Rightarrow> flush_order \<Rightarrow> wal_position set \<Rightarrow> bool" where
  "released_ok m od R \<longleftrightarrow> wal_order_ok m od \<and> (\<forall>p \<in> R. \<exists>s < or_wal_frontier od. m s = Some p)
     \<and> (\<forall>s < or_wal_frontier od. \<exists>p \<in> R. the (m s) \<le> p)"

lemma released_ok_complete:
  assumes ok: "released_ok m od R" and new: "seq \<notin> dom m" and c: "wal_complete seq covered od = (r, od')"
  shows "released_ok (m(seq \<mapsto> covered)) od' (set_option r \<union> R)"
proof -
  define m' where "m' = m(seq \<mapsto> covered)"
  let ?f = "or_wal_frontier od" and ?f' = "or_wal_frontier od'"
  have order: "wal_order_ok m od" using ok by (simp add: released_ok_def)
  note w = wal_complete_spec [OF order new c, folded m'_def]
  have old: "m' s = m s" if "s < ?f" for s using that order new by (auto simp: wal_order_ok_def m'_def)
  have def: "m' s = Some (the (m' s))" if "s < ?f'" for s
  proof -
    have "{..<?f'} \<subseteq> dom m'" using w (1) by (simp add: wal_order_ok_def)
    then show ?thesis using that by (auto simp: subset_iff)
  qed
  have "\<exists>s < ?f'. m' s = Some p" if "p \<in> set_option r \<union> R" for p
  proof (cases "p \<in> R")
    case True
    then obtain s where "s < ?f" "m s = Some p" using ok by (auto simp: released_ok_def)
    then show ?thesis using old w (2) by (intro exI [of _ s]) auto
  next
    case False
    with that w (3) have "combined max m' [?f..<?f'] None = Some p" by auto
    from combined_max (1) [OF this] show ?thesis using def by auto
  qed
  moreover have "\<exists>p \<in> set_option r \<union> R. the (m' s) \<le> p" if "s < ?f'" for s
  proof (cases "s < ?f")
    case True
    then show ?thesis using ok old by (auto simp: released_ok_def)
  next
    case False
    then have "combined max m' [?f..<?f'] None \<noteq> None" using that by (simp add: combined_None_iff)
    then obtain p where p: "combined max m' [?f..<?f'] None = Some p" by blast
    have "the (m' s) \<le> p" by (rule combined_max (2) [OF p]) (use False that in simp)
    then show ?thesis using p w (3) by auto
  qed
  ultimately show ?thesis using w (1) unfolding m'_def [symmetric] by (simp add: released_ok_def)
qed

text \<open>A sequence of completions and what each of them releases.\<close>

fun complete_run :: "(nat \<times> wal_position) list \<Rightarrow> flush_order \<Rightarrow> wal_position option list \<times> flush_order" where
  "complete_run [] od = ([], od)"
| "complete_run (c # cs) od =
     (case wal_complete (fst c) (snd c) od of (r, od') \<Rightarrow>
        case complete_run cs od' of (rs, od'') \<Rightarrow> (r # rs, od''))"

lemma complete_run_ok:
  assumes "released_ok m od R" "distinct (map fst cs)" "fst ` set cs \<inter> dom m = {}" "complete_run cs od = (rs, od')"
  shows "released_ok (m ++ map_of cs) od' (\<Union> (set_option ` set rs) \<union> R)"
  using assms
proof (induction cs arbitrary: m od rs R)
  case (Cons c cs)
  obtain r od1 where c: "wal_complete (fst c) (snd c) od = (r, od1)" by fastforce
  obtain rs' where run: "complete_run cs od1 = (rs', od')" and rs: "rs = r # rs'"
    using Cons.prems (4) c by (auto split: prod.splits)
  have m: "m ++ map_of (c # cs) = m(fst c \<mapsto> snd c) ++ map_of cs"
    using Cons.prems (2) by (auto simp: map_add_upd_left dom_map_of_conv_image_fst)
  have "released_ok (m(fst c \<mapsto> snd c)) od1 (set_option r \<union> R)"
    using Cons.prems (1, 3) c by (intro released_ok_complete) auto
  from Cons.IH [OF this _ _ run] Cons.prems (2, 3)
  show ?case unfolding m rs by (simp add: Un_assoc Un_left_commute del: fun_upd_apply)
qed simp

lemma atMost_inter: "{..<f} \<subseteq> A \<Longrightarrow> f \<notin> A \<Longrightarrow> {..f} \<inter> A = {..<(f :: nat)}"
  by (auto simp: nat_less_le)

lemma released_ok_default: "released_ok Map.empty flush_order_default {}"
  by (simp add: released_ok_def wal_order_ok_default) (simp add: flush_order_default_def)

text \<open>Three flushes that finish in the order 2, 0, 1.\<close>

definition sample_completions :: "(nat \<times> wal_position) list" where
  "sample_completions = [(2, 9), (0, 7), (1, 8)]"

definition sample_order :: flush_order where
  "sample_order = flush_order_default\<lparr>or_wal_frontier := 3\<rparr>"

lemma sample_run: "complete_run sample_completions flush_order_default = ([None, Some 7, Some 9], sample_order)"
  by (simp add: sample_completions_def sample_order_def flush_order_default_def wal_complete_def advance.simps joined_def)

subsection \<open>Properties\<close>

text \<open>C24: However the flushes finish, a position is released for commit only when the flush it
  belongs to and every flush begun before it have finished: it is the position of a flush below
  the frontier, and the frontier is the first flush that has not finished.\<close>

theorem commits_only_finished_prefix:
  assumes "distinct (map fst cs)" "complete_run cs flush_order_default = (rs, od)" "Some p \<in> set rs"
  shows "\<exists>s. (s, p) \<in> set cs \<and> s < or_wal_frontier od \<and> {..or_wal_frontier od} \<inter> fst ` set cs = {..<or_wal_frontier od}"
proof -
  note ok = complete_run_ok [OF released_ok_default assms (1) _ assms (2)]
  then obtain s where "s < or_wal_frontier od" "map_of cs s = Some p"
    using assms (3) by (force simp: released_ok_def)
  moreover have "{..or_wal_frontier od} \<inter> fst ` set cs = {..<or_wal_frontier od}"
  proof -
    have "{..<or_wal_frontier od} \<subseteq> fst ` set cs" "or_wal_frontier od \<notin> fst ` set cs"
      using ok by (simp_all add: released_ok_def wal_order_ok_def dom_map_of_conv_image_fst)
    then show ?thesis by (rule atMost_inter)
  qed
  ultimately show ?thesis by (auto dest: map_of_SomeD)
qed

theorem commits_only_finished_prefix_witness:
  "complete_run sample_completions flush_order_default = ([None, Some 7, Some 9], sample_order)
   \<and> (\<exists>s. (s, 9) \<in> set sample_completions \<and> s < or_wal_frontier sample_order)"
  using commits_only_finished_prefix [OF _ sample_run, of 9] sample_run by (auto simp: sample_completions_def)

text \<open>C25: Once every flush that has begun has finished, in whatever order, nothing is pending, the
  frontier is past them all and the position of every one of them is covered by a released
  position: no commit is held back for ever.\<close>

theorem every_finished_flush_is_released:
  assumes "distinct (map fst cs)" "fst ` set cs = {..<n}" "complete_run cs flush_order_default = (rs, od)"
  shows "or_wal_frontier od = n \<and> or_wal_done od = [] \<and> (\<forall>(s, c) \<in> set cs. \<exists>p. Some p \<in> set rs \<and> c \<le> p)"
proof -
  note ok = complete_run_ok [OF released_ok_default assms (1) _ assms (3)]
  then have order: "wal_order_ok (map_of cs) od" by (simp add: released_ok_def)
  then have dom: "{..<or_wal_frontier od} \<subseteq> {..<n}" "or_wal_frontier od \<notin> {..<n}"
    using assms (2) by (auto simp: wal_order_ok_def dom_map_of_conv_image_fst)
  then have n: "or_wal_frontier od = n" by auto
  have "map_of (or_wal_done od) s = None" for s
  proof (cases "s < n")
    case False
    then have "s \<notin> dom (map_of cs)" using assms (2) by (simp add: dom_map_of_conv_image_fst)
    then show ?thesis using order False by (auto simp: wal_order_ok_def n)
  qed (use order n in \<open>simp add: wal_order_ok_def\<close>)
  then have "or_wal_done od = []" by (cases "or_wal_done od") (force split: if_splits)+
  moreover have "\<exists>p. Some p \<in> set rs \<and> c \<le> p" if "(s, c) \<in> set cs" for s c
  proof -
    have "s < n" "map_of cs s = Some c" using that assms (1, 2) by force+
    then show ?thesis using ok n by (force simp: released_ok_def)
  qed
  ultimately show ?thesis using n by auto
qed

theorem every_finished_flush_is_released_witness:
  "or_wal_frontier sample_order = 3 \<and> (\<exists>p. Some p \<in> set [None, Some 7, Some 9] \<and> (8 :: wal_position) \<le> p)"
proof -
  have "fst ` set sample_completions = {..<3}" by (auto simp: sample_completions_def)
  from every_finished_flush_is_released [OF _ this sample_run] show ?thesis
    by (force simp: sample_completions_def)
qed

end
