(* ===== verification/Rotator.thy ===== *)
theory Rotator
  imports Buffer Writers Flush_Order Wal_Recovery
begin

section \<open>The metric rotator\<close>

text \<open>
  The model of \<open>BlockRotator\<close> and of the flush worker in
  \<^verbatim>\<open>parqtel-ingest/src/service.rs\<close>: sharded writers in front of one write-ahead log, the swap
  that turns the writers into one flush job, and the phases of a job (encode, publish, wait for
  the index, commit the log in flush order, drop the rows from the memory buffer in flush order).
  A section of the code that runs under the shard locks is one function; the operations the
  service calls are compositions of them, and a step relation interleaves the sections of
  concurrent requests and jobs in any order.

  The hash of a metric name, the serializer and the checksum are parameters. The outcomes of file
  operations, of the wait for the index and of the blocking task are arguments of the operation
  that performs them. Channels are lists of what was sent; metrics of the ingest path are not
  modelled.
\<close>

subsection \<open>State\<close>

record rotator_env =
  re_shard_hash :: "string \<Rightarrow> u64"
  re_map_hash :: "string \<Rightarrow> u64"
  re_ser :: "metric \<Rightarrow> string + byte list"
  re_crc :: "byte list \<Rightarrow> u32"

record flush_job =
  fj_wal_range :: "(u64 \<times> u64) option"
  fj_seq :: nat
  fj_sealed :: "u64 list"
  fj_writers :: "block_writer list"
  fj_covered :: wal_position
  fj_row_count :: nat

text \<open>The worker: the bound of its channel, the jobs queued in it, and whether it still receives.\<close>

record flush_worker =
  wk_max_in_flight :: nat
  wk_queue :: "flush_job list"
  wk_alive :: bool

record rotator =
  ro_config :: block_config
  ro_shards :: "block_writer list"
  ro_buffered :: u64
  ro_flush_tx :: "flush_worker option"
  ro_buffer :: "memory_buffer option"
  ro_wal :: "(wal_writer \<times> wal_dir) option"
  ro_order :: flush_order
  ro_wal_cursor :: wal_position
  ro_last_flush_unix_ms :: u64
  ro_max_duration_ms :: u64
  ro_published :: "block list"
  ro_files :: "block list"

definition sat_mul_u64 :: "u64 \<Rightarrow> nat \<Rightarrow> u64" where
  "sat_mul_u64 a n = (if unat a * n < 2 ^ 64 then of_nat (unat a * n) else - 1)"

definition sat_sub_u64 :: "u64 \<Rightarrow> u64 \<Rightarrow> u64" where
  "sat_sub_u64 a b = (if b \<le> a then a - b else 0)"

definition shard_for :: "(string \<Rightarrow> u64) \<Rightarrow> string \<Rightarrow> nat \<Rightarrow> nat" where
  "shard_for hash name n = unat (hash name mod of_nat n)"

definition with_shards :: "u64 \<Rightarrow> block_config \<Rightarrow> nat \<Rightarrow> rotator" where
  "with_shards now config n =
     (let shards = max 1 (min 256 n)
      in \<lparr>ro_config = config, ro_shards = replicate shards (block_writer_new config), ro_buffered = 0,
          ro_flush_tx = None, ro_buffer = None, ro_wal = None, ro_order = flush_order_default,
          ro_wal_cursor = START, ro_last_flush_unix_ms = now,
          ro_max_duration_ms = sat_mul_u64 (bc_block_duration_secs config) 1000,
          ro_published = [], ro_files = []\<rparr>)"

definition rotator_new :: "u64 \<Rightarrow> block_config \<Rightarrow> rotator" where
  "rotator_new now config = with_shards now config 1"

definition with_wal :: "wal_writer \<times> wal_dir \<Rightarrow> rotator \<Rightarrow> rotator" where
  "with_wal wal r = r\<lparr>ro_wal := Some wal\<rparr>"

definition set_buffer :: "memory_buffer option \<Rightarrow> rotator \<Rightarrow> rotator" where
  "set_buffer b r = r\<lparr>ro_buffer := b\<rparr>"

definition start_flush_worker :: "nat \<Rightarrow> rotator \<Rightarrow> rotator" where
  "start_flush_worker max_in_flight r =
     (if ro_wal r = None then r
      else if ro_flush_tx r \<noteq> None then r
      else r\<lparr>ro_flush_tx := Some \<lparr>wk_max_in_flight = max max_in_flight 1, wk_queue = [], wk_alive = True\<rparr>\<rparr>)"

definition actual_rows :: "rotator \<Rightarrow> nat" where
  "actual_rows r = sum_list (map bw_rows (ro_shards r))"

subsection \<open>Flush jobs\<close>

datatype index_reply = IndexDurable | IndexDropped | IndexTimedOut

text \<open>The outcomes of one job: whether the blocking task panicked, the block file, the index's reply,
  and the WAL commit with the segments whose removal succeeds.\<close>

record job_io =
  ji_panic :: "string option"
  ji_file :: file_out
  ji_index :: index_reply
  ji_commit :: "error option"
  ji_removed :: "u64 \<Rightarrow> bool"

definition merge_and_flush :: "file_out \<Rightarrow> block_writer list \<Rightarrow> (u64 \<times> u64) option \<Rightarrow> block result" where
  "merge_and_flush fo writers wal_range =
     (case bw_merge writers of
        Inl e \<Rightarrow> Inl e
      | Inr merged \<Rightarrow> fst (bw_flush fo (bw_set_wal_range wal_range merged)))"

definition encode_job :: "job_io \<Rightarrow> flush_job \<Rightarrow> block result" where
  "encode_job io job =
     (case ji_panic io of
        Some e \<Rightarrow> Inl (Internal (''flush task panicked: '' @ e))
      | None \<Rightarrow> merge_and_flush (ji_file io) (fj_writers job) (fj_wal_range job))"

definition publish_block :: "block \<Rightarrow> rotator \<Rightarrow> rotator" where
  "publish_block blk r = r\<lparr>ro_files := ro_files r @ [blk], ro_published := ro_published r @ [blk]\<rparr>"

definition complete_job :: "flush_job \<Rightarrow> rotator \<Rightarrow> wal_position option \<times> rotator" where
  "complete_job job r =
     (case wal_complete (fj_seq job) (fj_covered job) (ro_order r) of
        (releasable, od) \<Rightarrow> (releasable, r\<lparr>ro_order := od\<rparr>))"

text \<open>A failed commit is only logged.\<close>

definition commit_job :: "job_io \<Rightarrow> wal_position option \<Rightarrow> rotator \<Rightarrow> rotator" where
  "commit_job io releasable r =
     (case (ro_wal r, releasable) of
        (Some (w, d), Some p) \<Rightarrow> r\<lparr>ro_wal := Some (w, snd (commit (ji_commit io) (ji_removed io) p d))\<rparr>
      | _ \<Rightarrow> r)"

definition release_buffer_drops :: "nat \<Rightarrow> u64 list \<Rightarrow> rotator \<Rightarrow> rotator" where
  "release_buffer_drops seq sealed r =
     (case drop_complete seq sealed (ro_order r) of
        (released, od) \<Rightarrow>
          (case (ro_buffer r, released) of
             (Some b, Some s) \<Rightarrow> r\<lparr>ro_order := od, ro_buffer := Some (drop_sealed_metrics s b)\<rparr>
           | _ \<Rightarrow> r\<lparr>ro_order := od\<rparr>))"

definition encode_publish_commit :: "job_io \<Rightarrow> flush_job \<Rightarrow> rotator \<Rightarrow> unit result \<times> rotator" where
  "encode_publish_commit io job r =
     (case encode_job io job of
        Inl e \<Rightarrow> (Inl e, r)
      | Inr blk \<Rightarrow>
          let r1 = publish_block blk r;
              r2 = (case ro_wal r1 of
                      None \<Rightarrow> r1
                    | Some _ \<Rightarrow>
                        (case ji_index io of
                           IndexDurable \<Rightarrow>
                             (case complete_job job r1 of (releasable, r') \<Rightarrow> commit_job io releasable r')
                         | IndexDropped \<Rightarrow> r1
                         | IndexTimedOut \<Rightarrow> r1))
          in (Inr (), release_buffer_drops (fj_seq job) (fj_sealed job) r2))"

definition run_flush_job :: "job_io \<Rightarrow> flush_job \<Rightarrow> rotator \<Rightarrow> unit result \<times> rotator" where
  "run_flush_job io job r =
     (case encode_publish_commit io job r of
        (Inl e, r') \<Rightarrow> (Inl e, release_buffer_drops (fj_seq job) (replicate (length (fj_sealed job)) 0) r')
      | (Inr u, r') \<Rightarrow> (Inr u, r'))"

subsection \<open>Flushing\<close>

text \<open>The section with every shard held: the writers that have rows become one job.\<close>

definition swap_writer :: "block_config \<Rightarrow> block_writer \<Rightarrow> block_writer" where
  "swap_writer config w = (if bw_is_empty w then w else with_epoch config (bw_epoch w + 1))"

definition flush_swap :: "rotator \<Rightarrow> flush_job option \<times> rotator" where
  "flush_swap r =
     (let covered = (case ro_wal r of Some (w, d) \<Rightarrow> position w | None \<Rightarrow> START);
          writers = filter (\<lambda>w. \<not> bw_is_empty w) (ro_shards r);
          row_count = sum_list (map bw_rows writers);
          sealed = map (\<lambda>w. if bw_is_empty w then 0 else bw_epoch w) (ro_shards r);
          r1 = r\<lparr>ro_buffered := ro_buffered r - of_nat row_count,
                 ro_shards := map (swap_writer (ro_config r)) (ro_shards r)\<rparr>
      in if writers = [] then (None, r1)
         else let wal_range = (if ro_wal r = None then None else Some (ro_wal_cursor r, covered));
                  r2 = (if ro_wal r = None then r1 else r1\<lparr>ro_wal_cursor := covered\<rparr>)
              in case order_begin (ro_order r2) of (seq, od) \<Rightarrow>
                   (Some \<lparr>fj_wal_range = wal_range, fj_seq = seq, fj_sealed = sealed, fj_writers = writers,
                          fj_covered = covered, fj_row_count = row_count\<rparr>, r2\<lparr>ro_order := od\<rparr>))"

definition flush_locked :: "job_io \<Rightarrow> rotator \<Rightarrow> unit result \<times> rotator" where
  "flush_locked io r =
     (case flush_swap r of
        (None, r1) \<Rightarrow> (Inr (), r1)
      | (Some job, r1) \<Rightarrow>
          (case ro_flush_tx r1 of
             None \<Rightarrow> run_flush_job io job r1
           | Some wk \<Rightarrow>
               if wk_alive wk \<and> length (wk_queue wk) < wk_max_in_flight wk
               then (Inr (), r1\<lparr>ro_flush_tx := Some (wk\<lparr>wk_queue := wk_queue wk @ [job]\<rparr>)\<rparr>)
               else run_flush_job io job r1))"

definition rotator_flush :: "job_io \<Rightarrow> rotator \<Rightarrow> unit result \<times> rotator" where
  "rotator_flush io r = flush_locked io r"

definition flush_if_over_capacity :: "job_io \<Rightarrow> rotator \<Rightarrow> unit result \<times> rotator" where
  "flush_if_over_capacity io r =
     (if unat (ro_buffered r) < bc_max_rows_per_block (ro_config r) then (Inr (), r) else flush_locked io r)"

definition check_and_flush :: "u64 \<Rightarrow> job_io \<Rightarrow> rotator \<Rightarrow> bool result \<times> rotator" where
  "check_and_flush now io r =
     (if sat_sub_u64 now (ro_last_flush_unix_ms r) \<ge> ro_max_duration_ms r
      then case rotator_flush io r of
             (Inl e, r') \<Rightarrow> (Inl e, r')
           | (Inr _, r') \<Rightarrow> (Inr True, r')
      else (Inr False, r))"

text \<open>The worker: it takes a queued job; a completed job resets the rotation clock. Stopping it runs
  every queued job.\<close>

definition worker_step :: "u64 \<Rightarrow> job_io \<Rightarrow> rotator \<Rightarrow> rotator" where
  "worker_step now io r =
     (case ro_flush_tx r of
        None \<Rightarrow> r
      | Some wk \<Rightarrow>
          (case wk_queue wk of
             [] \<Rightarrow> r
           | job # q \<Rightarrow>
               (snd (run_flush_job io job (r\<lparr>ro_flush_tx := Some (wk\<lparr>wk_queue := q\<rparr>)\<rparr>)))
                 \<lparr>ro_last_flush_unix_ms := now\<rparr>))"

fun drain_jobs :: "u64 \<Rightarrow> (nat \<Rightarrow> job_io) \<Rightarrow> nat \<Rightarrow> flush_job list \<Rightarrow> rotator \<Rightarrow> rotator" where
  "drain_jobs now ios i [] r = r"
| "drain_jobs now ios i (job # jobs) r =
     drain_jobs now ios (i + 1) jobs ((snd (run_flush_job (ios i) job r))\<lparr>ro_last_flush_unix_ms := now\<rparr>)"

definition stop_flush_worker :: "u64 \<Rightarrow> (nat \<Rightarrow> job_io) \<Rightarrow> rotator \<Rightarrow> rotator" where
  "stop_flush_worker now ios r =
     (case ro_flush_tx r of
        None \<Rightarrow> r
      | Some wk \<Rightarrow> drain_jobs now ios 0 (wk_queue wk) (r\<lparr>ro_flush_tx := None\<rparr>))"

subsection \<open>Pushing\<close>

record push_io =
  pi_append :: append_io
  pi_files :: "nat \<Rightarrow> file_out"

text \<open>The section with the shard held: log, buffer, write, publish what the writer closed by itself,
  count.\<close>

definition log_metric :: "push_io \<Rightarrow> byte list option \<Rightarrow> rotator \<Rightarrow> unit result \<times> rotator" where
  "log_metric io wal_record r =
     (case (ro_wal r, wal_record) of
        (Some (w, d), Some bytes) \<Rightarrow>
          (case append_encoded (pi_append io) w d bytes of
             (Inl e, w', d') \<Rightarrow> (Inl e, r\<lparr>ro_wal := Some (w', d')\<rparr>)
           | (Inr _, w', d') \<Rightarrow> (Inr (), r\<lparr>ro_wal := Some (w', d')\<rparr>))
      | _ \<Rightarrow> (Inr (), r))"

definition push_to_buffer :: "rotator_env \<Rightarrow> nat \<Rightarrow> string \<Rightarrow> data_point list option \<Rightarrow> u64 \<Rightarrow> rotator \<Rightarrow> rotator" where
  "push_to_buffer env idx name bdps epoch r =
     (case (ro_buffer r, bdps) of
        (Some b, Some dps) \<Rightarrow>
          r\<lparr>ro_buffer := Some (push_metrics_tagged (re_map_hash env) name dps (of_nat idx) epoch b)\<rparr>
      | _ \<Rightarrow> r)"

definition drop_closed :: "nat \<Rightarrow> u64 \<Rightarrow> rotator \<Rightarrow> rotator" where
  "drop_closed idx epoch r =
     (case ro_buffer r of
        None \<Rightarrow> r
      | Some b \<Rightarrow>
          r\<lparr>ro_buffer := Some (drop_sealed_metrics
               ((replicate (length (ro_shards r)) 0)[idx := sat_sub_u64 epoch 1]) b)\<rparr>)"

definition push_section ::
  "rotator_env \<Rightarrow> push_io \<Rightarrow> nat \<Rightarrow> byte list option \<Rightarrow> metric \<Rightarrow> data_point list option \<Rightarrow> rotator
     \<Rightarrow> bool result \<times> rotator" where
  "push_section env io idx wal_record m bdps r =
     (case log_metric io wal_record r of
        (Inl e, r1) \<Rightarrow> (Inl e, r1)
      | (Inr _, r1) \<Rightarrow>
          let r2 = push_to_buffer env idx (m_name m) bdps (bw_epoch (ro_shards r1 ! idx)) r1
          in case bw_push_run (pi_files io) m (ro_shards r2 ! idx) of (err, written, shard) \<Rightarrow>
               let r3 = r2\<lparr>ro_shards := (ro_shards r2)[idx := shard], ro_files := ro_files r2 @ written\<rparr>
               in case err of
                    Some e \<Rightarrow> (Inl e, r3)
                  | None \<Rightarrow>
                      let closed = sum_list (map (\<lambda>b. bm_row_count (fst b)) written);
                          r4 = r3\<lparr>ro_published := ro_published r3 @ written\<rparr>;
                          r5 = (if closed > 0 then drop_closed idx (bw_epoch shard) r4 else r4)
                      in (Inr (written \<noteq> []),
                          r5\<lparr>ro_buffered := ro_buffered r5 + of_nat (length (m_data_points m)) - of_nat closed\<rparr>))"

definition wal_record_of :: "rotator_env \<Rightarrow> metric \<Rightarrow> rotator \<Rightarrow> byte list option result" where
  "wal_record_of env m r =
     (if ro_wal r = None then Inr None
      else case encode_record (re_ser env) (re_crc env) m of Inl e \<Rightarrow> Inl e | Inr bytes \<Rightarrow> Inr (Some bytes))"

definition would_overflow :: "nat \<Rightarrow> rotator \<Rightarrow> bool" where
  "would_overflow points r \<longleftrightarrow>
     (let cap = bc_max_rows_per_block (ro_config r) in points > cap \<or> unat (ro_buffered r) > cap - points)"

definition push_buffered ::
  "rotator_env \<Rightarrow> job_io \<Rightarrow> push_io \<Rightarrow> metric \<Rightarrow> data_point list option \<Rightarrow> rotator \<Rightarrow> bool result \<times> rotator" where
  "push_buffered env jio io m bdps r =
     (let idx = shard_for (re_shard_hash env) (m_name m) (length (ro_shards r));
          over = would_overflow (length (m_data_points m)) r
      in case (if over then flush_if_over_capacity jio r else (Inr (), r)) of
           (Inl e, r1) \<Rightarrow> (Inl e, r1)
         | (Inr _, r1) \<Rightarrow>
             (case wal_record_of env m r1 of
                Inl e \<Rightarrow> (Inl e, r1)
              | Inr wal_record \<Rightarrow>
                  (case push_section env io idx wal_record m bdps r1 of
                     (Inl e, r2) \<Rightarrow> (Inl e, r2)
                   | (Inr flushed, r2) \<Rightarrow> (Inr (over \<or> flushed), r2))))"

definition rotator_push ::
  "rotator_env \<Rightarrow> job_io \<Rightarrow> push_io \<Rightarrow> metric \<Rightarrow> rotator \<Rightarrow> bool result \<times> rotator" where
  "rotator_push env jio io m r = push_buffered env jio io m None r"

end
