(* ===== verification/Rotator_Proofs.thy ===== *)
theory Rotator_Proofs
  imports Rotator
begin

section \<open>Durability of the metric rotator\<close>

text \<open>
  The interleaving machine of the rotator (an instance of \<open>state_machine\<close>), its invariant and the
  properties of the rotator: that no acknowledged point is lost under any interleaving of pushes,
  swaps and job phases, that the synchronous operations are runs of that machine, that the row
  counter tracks the writers, and two behaviours of pushes that split a metric across blocks.
\<close>

subsection \<open>Positions of the log\<close>

definition pos_ok :: "wal_writer \<Rightarrow> bool" where
  "pos_ok w \<longleftrightarrow> unat (ww_offset w) + 1 < 2 ^ 32 \<and> unat (ww_segment w) < 2 ^ 32"

lemma position_unat: "pos_ok w \<Longrightarrow> unat (position w) = unat (ww_segment w) * 2 ^ 32 + (unat (ww_offset w) + 1)"
  using mk_position_unat [of "ww_segment w" "unat (ww_offset w)"] by (simp add: pos_ok_def position_def)

lemma pos_segment_unat: "unat (pos_segment p) = unat p div 2 ^ 32"
proof -
  have "take_bit 64 (unat p) = unat p" by (rule take_bit_nat_eq_self) (rule u64_lt)
  then show ?thesis unfolding pos_segment_def unsigned_drop_bit_eq by (simp add: drop_bit_eq_div)
qed

lemma pos_segment_mono: "p \<le> q \<Longrightarrow> pos_segment p \<le> pos_segment q"
  unfolding word_le_nat_alt pos_segment_unat by (rule div_le_mono)

lemma pos_segment_position: "pos_ok w \<Longrightarrow> pos_segment (position w) = ww_segment w"
  using pos_segment_mk [of "ww_segment w" "unat (ww_offset w)"] by (simp add: pos_ok_def position_def)

lemma wal_inv_pos_ok:
  assumes "wal_inv crc w d" "ww_poisoned w = None" shows "pos_ok w"
proof -
  have "unat (ww_segment w) < 2 ^ 32" using assms (1) by (force simp: wal_inv_def wf_dir_def newest_def list_all_iff)
  moreover have "length (current w d) < 2 ^ 32 - 1" using assms (1) by (simp add: wal_inv_def)
  ultimately show ?thesis using wal_inv_offset [OF assms] by (simp add: pos_ok_def)
qed

lemma roll_writer:
  assumes "roll io w d = (r, w', d')"
  shows "w' = w \<or> ww_segment w' = ww_segment w + 1" "ww_poisoned w' = ww_poisoned w"
  using assms by (auto simp: roll_def Let_def split: option.splits prod.splits)

lemma append_position:
  assumes inv: "wal_inv crc w d" and ok: "pos_ok w" and fits: "fits w (frames crc ps)" and small: "list_all small ps"
    and a: "append_encoded io w d (frames crc ps) = (r, w', d')"
  shows "pos_ok w'" "position w \<le> position w'"
    "\<And>pos. r = Inr pos \<Longrightarrow> ps \<noteq> [] \<Longrightarrow> position w < pos \<and> pos \<le> position w'"
proof -
  let ?n = "length (frames crc ps)"
  define w2 where "w2 = w\<lparr>ww_offset := ww_offset w + of_nat ?n, ww_buf := []\<rparr>"
  have off: "unat (ww_offset w + of_nat ?n) = unat (ww_offset w) + ?n"
    using fits by (simp add: fits_def unat_word_ariths unsigned_of_nat take_bit_nat_eq_self)
  have ok2: "pos_ok w2" using fits by (simp add: pos_ok_def w2_def off fits_def)
  have p2: "unat (position w2) = unat (position w) + ?n"
    using position_unat [OF ok2] position_unat [OF ok] by (simp add: w2_def off)
  have inv': "wal_inv crc w' d'"
    using append_encoded_spec [OF inv fits small a] by (simp add: append_outcome_def)
  have ne: "ps \<noteq> [] \<Longrightarrow> ?n > 0" by (cases ps) auto
  have *: "pos_ok w' \<and> position w2 \<le> position w'" if "w' = w2 \<or> roll io w2 d2 = (r2, w', d')" "ww_poisoned w = None" for r2 d2
  proof (cases "w' = w2")
    case False
    then have roll: "roll io w2 d2 = (r2, w', d')" using that by blast
    have "ww_poisoned w' = None" using roll_writer (2) [OF roll] that by (simp add: w2_def)
    then have ok': "pos_ok w'" using inv' wal_inv_pos_ok by blast
    have "ww_segment w' = ww_segment w2 + 1" using roll_writer (1) [OF roll] False by blast
    moreover have "unat (ww_segment w2 + 1) = unat (ww_segment w2) + 1"
      using fits by (simp add: fits_def w2_def unat_word_ariths)
    ultimately show ?thesis using ok' ok2
      by (simp add: word_le_nat_alt position_unat [OF ok'] position_unat [OF ok2]) (simp add: pos_ok_def)
  qed (use ok2 in simp)
  show "pos_ok w'" "position w \<le> position w'"
    "\<And>pos. r = Inr pos \<Longrightarrow> ps \<noteq> [] \<Longrightarrow> position w < pos \<and> pos \<le> position w'"
  proof -
    have "pos_ok w' \<and> position w \<le> position w' \<and>
        (\<forall>pos. r = Inr pos \<longrightarrow> ps \<noteq> [] \<longrightarrow> position w < pos \<and> pos \<le> position w')"
      using a
    proof (cases rule: append_encoded_cases)
      case (flush_fails e)
      then have "position w' = position w2" by (simp add: position_def w2_def)
      moreover have "pos_ok w'" using ok2 flush_fails by (simp add: pos_ok_def w2_def)
      ultimately show ?thesis using p2 flush_fails by (simp add: word_le_nat_alt)
    next
      case (rolled r2 w2' d2)
      then have "pos_ok w' \<and> position w2 \<le> position w'" using * by (auto simp: w2_def)
      moreover have "position w \<le> position w2" "ps \<noteq> [] \<Longrightarrow> position w < position w2"
        using p2 ne by (simp_all add: word_le_nat_alt word_less_nat_alt)
      ultimately show ?thesis using rolled (2, 5) by (auto simp: w2_def)
    next
      case (plain w2' d2)
      then have "pos_ok w' \<and> position w2 \<le> position w'" using * by (auto simp: w2_def)
      moreover have "position w \<le> position w2" "ps \<noteq> [] \<Longrightarrow> position w < position w2"
        using p2 ne by (simp_all add: word_le_nat_alt word_less_nat_alt)
      ultimately show ?thesis using plain (2, 6) by (auto simp: w2_def)
    qed (use ok in \<open>auto simp: pos_ok_def position_def\<close>)
    then show "pos_ok w'" "position w \<le> position w'"
      "\<And>pos. r = Inr pos \<Longrightarrow> ps \<noteq> [] \<Longrightarrow> position w < pos \<and> pos \<le> position w'" by blast+
  qed
qed

subsection \<open>Interleaving\<close>

text \<open>Where a flush job is, once it has been swapped out of the writers.\<close>

datatype job_stage =
  Encoding flush_job
| Published flush_job
| Releasable flush_job "wal_position option"
| Committed flush_job
| Failed flush_job
| Finished flush_job

primrec stage_job :: "job_stage \<Rightarrow> flush_job" where
  "stage_job (Encoding j) = j"
| "stage_job (Published j) = j"
| "stage_job (Releasable j p) = j"
| "stage_job (Committed j) = j"
| "stage_job (Failed j) = j"
| "stage_job (Finished j) = j"

text \<open>A request that was acknowledged: the position and bytes of its record in the log, and its
  points.\<close>

type_synonym ack = "wal_position \<times> byte list \<times> data_point list"

type_synonym rot_state = "rotator \<times> job_stage list \<times> ack list"

definition record_position :: "wal_writer \<Rightarrow> byte list \<Rightarrow> wal_position" where
  "record_position w payload = mk_position (ww_segment w) (of_nat (unat (ww_offset w) + 8 + length payload))"

text \<open>The sections of concurrent requests and jobs, in any order: a push of a metric to its shard, a
  swap, and the phases of every job, each with any outcome of its I/O.\<close>

inductive rot_step :: "rotator_env \<Rightarrow> rot_state \<Rightarrow> rot_state \<Rightarrow> bool" for env where
  step_push: "rot_step env (r, js, acked) (r', js, case res of
      Inl e \<Rightarrow> acked | Inr b \<Rightarrow> acked @ [(record_position w payload, payload, m_data_points m)])"
  if "ro_wal r = Some (w, d)" "re_ser env m = Inr payload" "small payload" "fits w (frame (re_crc env) payload)"
    "push_section env io (shard_for (re_shard_hash env) (m_name m) (length (ro_shards r)))
       (Some (frame (re_crc env) payload)) m bdps r = (res, r')"
| step_swap: "rot_step env (r, js, acked) (r', js @ [Encoding job], acked)"
  if "flush_swap r = (Some job, r')"
| step_encode: "rot_step env (r, js, acked) (publish_block blk r, js[i := Published job], acked)"
  if "i < length js" "js ! i = Encoding job" "encode_job io job = Inr blk"
| step_fail: "rot_step env (r, js, acked) (r, js[i := Failed job], acked)"
  if "i < length js" "js ! i = Encoding job" "encode_job io job = Inl e"
| step_durable: "rot_step env (r, js, acked) (r', js[i := Releasable job p], acked)"
  if "i < length js" "js ! i = Published job" "complete_job job r = (p, r')"
| step_not_durable: "rot_step env (r, js, acked) (r, js[i := Committed job], acked)"
  if "i < length js" "js ! i = Published job"
| step_commit_job: "rot_step env (r, js, acked) (commit_job io p r, js[i := Committed job], acked)"
  if "i < length js" "js ! i = Releasable job p"
| step_drop: "rot_step env (r, js, acked)
      (release_buffer_drops (fj_seq job) (fj_sealed job) r, js[i := Finished job], acked)"
  if "i < length js" "js ! i = Committed job"
| step_drop_failed: "rot_step env (r, js, acked)
      (release_buffer_drops (fj_seq job) (replicate (length (fj_sealed job)) 0) r, js[i := Finished job], acked)"
  if "i < length js" "js ! i = Failed job"

definition rot_init :: "rot_state \<Rightarrow> bool" where
  "rot_init s \<longleftrightarrow> (\<exists>now config n b mode mx w d.
     s = (set_buffer b (with_wal (w, d) (with_shards now config n)), [], [])
     \<and> open_with_segment_limit None mode mx empty_dir = Inr (w, d)
     \<and> 0 < bc_max_rows_per_block config \<and> bc_max_rows_per_block config \<le> 2 ^ 24)"

subsection \<open>Where the points are\<close>

definition disk :: "rotator \<Rightarrow> data_point multiset" where
  "disk r = mset (points_of_blocks (ro_files r))"

definition in_writers :: "rotator \<Rightarrow> data_point multiset" where
  "in_writers r = (\<Sum>w\<leftarrow>ro_shards r. mset (all_points w))"

definition acked_upto :: "wal_position \<Rightarrow> ack list \<Rightarrow> data_point multiset" where
  "acked_upto c acked = (\<Sum>e\<leftarrow>filter (\<lambda>e. fst e \<le> c) acked. mset (snd (snd e)))"

definition all_acked :: "ack list \<Rightarrow> data_point multiset" where
  "all_acked acked = (\<Sum>e\<leftarrow>acked. mset (snd (snd e)))"

definition writers_inv :: "rotator \<Rightarrow> bool" where
  "writers_inv r \<longleftrightarrow> (let cap = bc_max_rows_per_block (ro_config r) in
     0 < cap \<and> cap \<le> 2 ^ 24 \<and> ro_shards r \<noteq> [] \<and> length (ro_shards r) \<le> 256
     \<and> list_all (\<lambda>w. writer_ok w \<and> bw_capacity w = cap) (ro_shards r))"

lemma sum_list_update:
  fixes f :: "'a \<Rightarrow> 'b :: cancel_comm_monoid_add"
  assumes "i < length xs"
  shows "(\<Sum>x\<leftarrow>xs[i := y]. f x) + f (xs ! i) = (\<Sum>x\<leftarrow>xs. f x) + f y"
  using assms
proof (induction xs arbitrary: i)
  case (Cons x xs)
  then show ?case by (cases i) (simp_all add: ac_simps)
qed simp

lemma list_all_update: "list_all P xs \<Longrightarrow> P y \<Longrightarrow> list_all P (xs[i := y])"
  using set_update_subset_insert [of xs i y] by (auto simp: list_all_iff)

text \<open>The bookkeeping of one shard: blocks \<open>B\<close> and rows \<open>b\<close> replace rows \<open>a\<close>, taking the points
  \<open>p\<close> but for \<open>l\<close>.\<close>

lemma shard_balance:
  fixes D :: "'x multiset"
  assumes "W' + a = W + b" "B + b + l = a + p"
  shows "D + B + W' + l = D + W + p"
proof (rule multiset_eqI)
  fix x
  have "count W' x + count a x = count W x + count b x" using arg_cong [OF assms (1), of "\<lambda>M. count M x"] by simp
  moreover have "count B x + count b x + count l x = count a x + count p x"
    using arg_cong [OF assms (2), of "\<lambda>M. count M x"] by simp
  ultimately show "count (D + B + W' + l) x = count (D + W + p) x" by simp
qed

lemma shard_kept:
  fixes D :: "'x multiset"
  assumes "D' + W' + l = D + W + p" "l \<subseteq># p"
  shows "D + W \<subseteq># D' + W'"
proof -
  obtain q where "p = l + q" using assms (2) by (metis subset_mset.le_iff_add)
  then have "D' + W' = D + W + q" using assms (1) by (simp add: ac_simps)
  then show ?thesis by simp
qed

lemma writers_inv_shard:
  assumes "writers_inv r" "i < length (ro_shards r)"
  shows "writer_ok (ro_shards r ! i)" "bw_capacity (ro_shards r ! i) = bc_max_rows_per_block (ro_config r)"
    "bw_capacity (ro_shards r ! i) > 0"
  using assms by (auto simp: writers_inv_def Let_def list_all_length)

lemma shard_for_less: "writers_inv r \<Longrightarrow> shard_for hash name (length (ro_shards r)) < length (ro_shards r)"
proof -
  assume inv: "writers_inv r"
  let ?n = "length (ro_shards r)"
  have n: "0 < ?n" "?n \<le> 256" using inv by (auto simp: writers_inv_def Let_def)
  then have "unat (of_nat ?n :: u64) = ?n" by (simp add: unsigned_of_nat take_bit_nat_eq_self)
  then show ?thesis using n by (simp add: shard_for_def unat_mod)
qed

subsection \<open>The effect of the sections\<close>

lemma log_metric_fields:
  assumes "log_metric io rec r = (res, r')"
  shows "ro_shards r' = ro_shards r" "ro_files r' = ro_files r" "ro_order r' = ro_order r"
    "ro_config r' = ro_config r"
    "ro_wal r = Some (w, d) \<Longrightarrow> rec = Some bytes \<Longrightarrow> \<exists>a w' d'. append_encoded (pi_append io) w d bytes = (a, w', d')
       \<and> ro_wal r' = Some (w', d') \<and> (\<forall>u. res = Inr u \<longrightarrow> (\<exists>pos. a = Inr pos))"
  using assms by (auto simp: log_metric_def split: option.splits prod.splits sum.splits)

lemma push_to_buffer_fields [simp]:
  "ro_shards (push_to_buffer env idx name dps epoch r) = ro_shards r"
  "ro_files (push_to_buffer env idx name dps epoch r) = ro_files r"
  "ro_order (push_to_buffer env idx name dps epoch r) = ro_order r"
  "ro_config (push_to_buffer env idx name dps epoch r) = ro_config r"
  "ro_wal (push_to_buffer env idx name dps epoch r) = ro_wal r"
  by (simp_all add: push_to_buffer_def split: option.splits)

lemma drop_closed_fields [simp]:
  "ro_shards (drop_closed idx epoch r) = ro_shards r" "ro_files (drop_closed idx epoch r) = ro_files r"
  "ro_order (drop_closed idx epoch r) = ro_order r" "ro_config (drop_closed idx epoch r) = ro_config r"
  "ro_wal (drop_closed idx epoch r) = ro_wal r"
  by (simp_all add: drop_closed_def split: option.splits)

text \<open>What a push does to the points: nothing already held is lost, and an accepted metric is held in
  full.\<close>

definition push_effect :: "rotator \<Rightarrow> data_point multiset \<Rightarrow> bool \<Rightarrow> rotator \<Rightarrow> bool" where
  "push_effect r pts ok r' \<longleftrightarrow> writers_inv r' \<and> ro_order r' = ro_order r \<and> disk r \<subseteq># disk r'
     \<and> disk r + in_writers r + (if ok then pts else {#}) \<subseteq># disk r' + in_writers r'"

lemma push_shard_effect:
  assumes inv: "writers_inv r" and idx: "idx < length (ro_shards r)"
    and run: "bw_push_run fos m (ro_shards r ! idx) = (err, written, shard)"
    and r': "ro_shards r' = (ro_shards r)[idx := shard]" "ro_files r' = ro_files r @ written"
      "ro_order r' = ro_order r" "ro_config r' = ro_config r"
  shows "push_effect r (mset (m_data_points m)) (err = None) r'"
proof -
  note sh = writers_inv_shard [OF inv idx]
  obtain left where p: "pushed fos 0 (m_data_points m) (ro_shards r ! idx) err written shard left"
    using bw_push_run_pushed [OF sh (1, 3) run] by blast
  have bal: "mset (points_of_blocks written) + mset (all_points shard) + mset left =
      mset (all_points (ro_shards r ! idx)) + mset (m_data_points m)" using p by (simp add: pushed_def)
  have left: "mset left \<subseteq># mset (m_data_points m)" "err = None \<Longrightarrow> left = []"
    using p by (auto simp: pushed_def split: option.splits)
  have "in_writers r' + mset (all_points (ro_shards r ! idx)) = in_writers r + mset (all_points shard)"
    using sum_list_update [OF idx, of "\<lambda>w. mset (all_points w)" shard] by (simp add: in_writers_def r')
  from shard_balance [OF this bal, of "disk r"]
  have "disk r' + in_writers r' + mset left = disk r + in_writers r + mset (m_data_points m)"
    by (simp add: disk_def r')
  then have "disk r + in_writers r + (if err = None then mset (m_data_points m) else {#}) \<subseteq># disk r' + in_writers r'"
    using left shard_kept [of "disk r'" "in_writers r'" "mset left" "disk r" "in_writers r"]
    by (cases err) auto
  moreover have "writers_inv r'"
  proof -
    have "writer_ok shard" "bw_capacity shard = bc_max_rows_per_block (ro_config r)"
      using p sh (2) by (auto simp: pushed_def)
    then show ?thesis using inv by (simp add: writers_inv_def Let_def r' list_all_update)
  qed
  ultimately show ?thesis by (simp add: push_effect_def r' disk_def)
qed

lemma push_section_effect:
  assumes inv: "writers_inv r" and idx: "idx < length (ro_shards r)"
    and run: "push_section env io idx rec m bdps r = (res, r')"
  shows "push_effect r (mset (m_data_points m)) (\<exists>b. res = Inr b) r'"
    "\<exists>u r1. log_metric io rec r = (u, r1) \<and> ro_wal r' = ro_wal r1 \<and> (\<forall>b. res = Inr b \<longrightarrow> u = Inr ())"
proof -
  obtain u r1 where log: "log_metric io rec r = (u, r1)" by fastforce
  note lf = log_metric_fields (1-4) [OF log]
  show "push_effect r (mset (m_data_points m)) (\<exists>b. res = Inr b) r'"
  proof (cases u)
    case (Inl e)
    with run log have "r' = r1" "res = Inl e" by (auto simp: push_section_def)
    then show ?thesis using inv lf by (simp add: push_effect_def writers_inv_def disk_def in_writers_def)
  next
    case (Inr x)
    obtain err written shard where sh: "bw_push_run (pi_files io) m (ro_shards r ! idx) = (err, written, shard)"
      by (metis prod_cases3)
    have f: "ro_shards r' = (ro_shards r)[idx := shard]" "ro_files r' = ro_files r @ written"
      "ro_order r' = ro_order r" "ro_config r' = ro_config r" "(\<exists>b. res = Inr b) = (err = None)"
      using run log Inr sh lf by (auto simp: push_section_def Let_def split: option.splits if_splits)
    show ?thesis using push_shard_effect [OF inv idx sh f (1-4)] f (5) by simp
  qed
  show "\<exists>u r1. log_metric io rec r = (u, r1) \<and> ro_wal r' = ro_wal r1 \<and> (\<forall>b. res = Inr b \<longrightarrow> u = Inr ())"
    using run log by (cases u) (auto simp: push_section_def Let_def split: option.splits if_splits prod.splits)
qed

text \<open>A job that is ready to be encoded, and the block it becomes.\<close>

definition job_ok :: "flush_job \<Rightarrow> bool" where
  "job_ok job \<longleftrightarrow> fj_writers job \<noteq> [] \<and> list_all writer_inv (fj_writers job)
     \<and> (\<Sum>w\<leftarrow>fj_writers job. bw_rows w) \<le> 2 ^ 32"

lemma merge_points:
  assumes "bw_merge ws = Inr merged"
  shows "all_points merged = concat (map all_points ws)" "list_all writer_inv ws \<Longrightarrow> writer_inv merged"
    "bw_rows merged = (\<Sum>w\<leftarrow>ws. bw_rows w)"
proof -
  have m: "bw_batches merged = concat (map bw_batches ws)" "bw_rows merged = (\<Sum>w\<leftarrow>ws. bw_rows w)"
    using assms by (auto simp: bw_merge_def Let_def split: if_splits)
  have c: "concat (map pb_points (concat (map bw_batches ws))) = concat (map all_points ws)"
    by (induction ws) (simp_all add: all_points_def)
  show "all_points merged = concat (map all_points ws)" by (simp only: all_points_def [of merged] m c)
  show "bw_rows merged = (\<Sum>w\<leftarrow>ws. bw_rows w)" by (rule m)
  have "list_all writer_inv ws \<Longrightarrow> (\<Sum>w\<leftarrow>ws. bw_rows w) = length (concat (map all_points ws))"
    by (induction ws) (simp_all add: writer_inv_def)
  moreover have "list_all writer_inv ws \<Longrightarrow> list_all (\<lambda>b. pb_points b \<noteq> []) (concat (map bw_batches ws))"
    by (induction ws) (simp_all add: writer_inv_def)
  ultimately show "list_all writer_inv ws \<Longrightarrow> writer_inv merged"
    unfolding writer_inv_def [of merged] all_points_def [of merged] m c by simp
qed

lemma encode_job_points:
  assumes ok: "job_ok job" and e: "encode_job io job = Inr blk"
  shows "mset (block_points (snd blk)) = (\<Sum>w\<leftarrow>fj_writers job. mset (all_points w))"
proof -
  obtain merged where m: "bw_merge (fj_writers job) = Inr merged"
    and f: "fst (bw_flush (ji_file io) (bw_set_wal_range (fj_wal_range job) merged)) = Inr blk"
    using e by (auto simp: encode_job_def merge_and_flush_def split: option.splits sum.splits)
  note mp = merge_points [OF m]
  have "writer_inv merged" "bw_rows merged \<le> 2 ^ 32" using mp ok by (simp_all add: job_ok_def)
  then have sized: "u32_sized (bw_batches merged)" by (rule writer_inv_sized)
  have "snd blk = metric_runs (bw_batches merged)"
    by (rule bw_flush_cases [of "bw_set_wal_range (fj_wal_range job) merged" "ji_file io"])
      (use f in \<open>auto simp: bw_set_wal_range_def\<close>)
  then have "mset (block_points (snd blk)) = mset (all_points merged)"
    using metric_runs_points [OF sized] by (simp add: all_points_def)
  then show ?thesis by (simp add: mp (1) mset_concat_sum comp_def)
qed

lemma nonempty_writers_sum:
  assumes "list_all (\<lambda>w. writer_ok w \<and> bw_capacity w = cap) ws"
  shows "(\<Sum>w\<leftarrow>filter (\<lambda>w. \<not> bw_is_empty w) ws. mset (all_points w)) = (\<Sum>w\<leftarrow>ws. mset (all_points w))"
    "(\<Sum>w\<leftarrow>filter (\<lambda>w. \<not> bw_is_empty w) ws. bw_rows w) \<le> length ws * cap"
    "list_all writer_inv (filter (\<lambda>w. \<not> bw_is_empty w) ws)"
  using assms by (induction ws) (auto simp: bw_is_empty_def writer_ok_def writer_inv_def)

lemma empty_writers_sum: "list_all (\<lambda>w. all_points w = []) ws \<Longrightarrow> (\<Sum>w\<leftarrow>ws. mset (all_points w)) = {#}"
  by (induction ws) auto

text \<open>What a swap does: the writers are empty afterwards, and the job holds all they held.\<close>

lemma flush_swap_effect:
  assumes inv: "writers_inv r" and wal: "ro_wal r = Some (w, d)" and run: "flush_swap r = (Some job, r')"
  shows "writers_inv r'" "disk r' = disk r" "in_writers r' = {#}" "ro_wal r' = ro_wal r"
    "job_ok job" "(\<Sum>w\<leftarrow>fj_writers job. mset (all_points w)) = in_writers r" "fj_covered job = position w"
    "fj_seq job = or_next_seq (ro_order r)" "ro_order r' = snd (order_begin (ro_order r))"
proof -
  let ?cap = "bc_max_rows_per_block (ro_config r)"
  have all: "list_all (\<lambda>w. writer_ok w \<and> bw_capacity w = ?cap) (ro_shards r)" and len: "length (ro_shards r) \<le> 256"
    and cap: "0 < ?cap" "?cap \<le> 2 ^ 24" and ne: "ro_shards r \<noteq> []"
    using inv by (auto simp: writers_inv_def Let_def)
  have f: "ro_config r' = ro_config r" "ro_shards r' = map (swap_writer (ro_config r)) (ro_shards r)" "ro_files r' = ro_files r"
    "ro_wal r' = ro_wal r" "fj_covered job = position w" "fj_seq job = or_next_seq (ro_order r)"
    "ro_order r' = snd (order_begin (ro_order r))" "fj_writers job = filter (\<lambda>w. \<not> bw_is_empty w) (ro_shards r)"
    "filter (\<lambda>w. \<not> bw_is_empty w) (ro_shards r) \<noteq> []"
    using run wal by (auto simp: flush_swap_def Let_def order_begin_def split: if_splits)
  show "ro_wal r' = ro_wal r" "fj_covered job = position w" "fj_seq job = or_next_seq (ro_order r)"
    "ro_order r' = snd (order_begin (ro_order r))" by (fact f)+
  show "disk r' = disk r" by (simp add: disk_def f)
  have sw: "writer_ok (swap_writer (ro_config r) w) \<and> bw_capacity (swap_writer (ro_config r) w) = ?cap
      \<and> all_points (swap_writer (ro_config r) w) = []" if "writer_ok w \<and> bw_capacity w = ?cap" for w
    using that cap with_epoch_ok [of "ro_config r"]
    by (auto simp: swap_writer_def writer_ok_def bw_is_empty_def writer_inv_def with_epoch_def)
  then show "writers_inv r'"
    using all len cap ne by (simp add: writers_inv_def Let_def f list_all_iff)
  have "list_all (\<lambda>w. all_points w = []) (ro_shards r')" using all sw by (auto simp: f list_all_iff)
  then show "in_writers r' = {#}" unfolding in_writers_def by (rule empty_writers_sum)
  note s = nonempty_writers_sum [OF all]
  show "(\<Sum>w\<leftarrow>fj_writers job. mset (all_points w)) = in_writers r" by (simp add: f s in_writers_def)
  have "length (ro_shards r) * ?cap \<le> 256 * 2 ^ 24" by (rule mult_le_mono) (use len cap in auto)
  then show "job_ok job" using s f by (simp add: job_ok_def)
qed

subsection \<open>The invariant of the rotator\<close>

text \<open>
  For every flush that has begun, \<open>cov\<close> is the position it covers and \<open>miss\<close> are the points it
  took that no block holds yet. The ledger says that what was acknowledged up to the position of a
  flush is on disk or missing from that flush or an earlier one, and that everything acknowledged is
  on disk, in the writers or missing from some flush.
\<close>

definition ledger :: "rotator \<Rightarrow> ack list \<Rightarrow> wal_writer \<Rightarrow> (nat \<Rightarrow> wal_position) \<Rightarrow> (nat \<Rightarrow> data_point multiset) \<Rightarrow> bool" where
  "ledger r acked w cov miss \<longleftrightarrow>
     (\<forall>s < or_next_seq (ro_order r). cov s \<le> position w
        \<and> acked_upto (cov s) acked \<subseteq># disk r + sum miss {..s})
     \<and> all_acked acked \<subseteq># disk r + in_writers r + sum miss {..<or_next_seq (ro_order r)}
     \<and> (\<forall>e \<in> set acked. fst e \<le> position w)"

text \<open>A position is safe to commit when what was acknowledged up to it is on disk.\<close>

definition safe :: "rotator \<Rightarrow> ack list \<Rightarrow> wal_writer \<Rightarrow> wal_position \<Rightarrow> bool" where
  "safe r acked w p \<longleftrightarrow> p \<le> position w \<and> acked_upto p acked \<subseteq># disk r"

definition stage_ok :: "rotator \<Rightarrow> ack list \<Rightarrow> wal_writer \<Rightarrow> (nat \<Rightarrow> wal_position) \<Rightarrow> (nat \<Rightarrow> data_point multiset)
    \<Rightarrow> (nat \<Rightarrow> wal_position option) \<Rightarrow> nat \<Rightarrow> job_stage \<Rightarrow> bool" where
  "stage_ok r acked w cov miss m i st \<longleftrightarrow> fj_seq (stage_job st) = i \<and> fj_covered (stage_job st) = cov i
     \<and> (case st of
          Encoding job \<Rightarrow> m i = None \<and> job_ok job \<and> (\<Sum>w\<leftarrow>fj_writers job. mset (all_points w)) = miss i
        | Published job \<Rightarrow> m i = None \<and> miss i = {#}
        | Releasable job (Some p) \<Rightarrow> safe r acked w p
        | _ \<Rightarrow> True)"

definition order_inv :: "rotator \<Rightarrow> (nat \<Rightarrow> wal_position) \<Rightarrow> (nat \<Rightarrow> data_point multiset) \<Rightarrow> (nat \<Rightarrow> wal_position option) \<Rightarrow> bool" where
  "order_inv r cov miss m \<longleftrightarrow> wal_order_ok m (ro_order r)
     \<and> (\<forall>t c. m t = Some c \<longrightarrow> t < or_next_seq (ro_order r) \<and> c = cov t \<and> miss t = {#})"

text \<open>The log: everything committed so far is at most \<open>h\<close>, which is safe, and an acknowledged record
  above it is in the log.\<close>

definition log_inv :: "rotator_env \<Rightarrow> rotator \<Rightarrow> ack list \<Rightarrow> wal_writer \<Rightarrow> wal_dir \<Rightarrow> wal_position \<Rightarrow> bool" where
  "log_inv env r acked w d h \<longleftrightarrow> ro_wal r = Some (w, d) \<and> wal_inv (re_crc env) w d \<and> pos_ok w
     \<and> read_commit d \<le> h \<and> safe r acked w h
     \<and> (\<forall>e \<in> set acked. h < fst e \<longrightarrow> (fst e, fst (snd e)) \<in> set (wal_log (re_crc env) d))"

definition rot_inv :: "rotator_env \<Rightarrow> rot_state \<Rightarrow> bool" where
  "rot_inv env s = (case s of (r, js, acked) \<Rightarrow> \<exists>w d h cov miss m.
     writers_inv r \<and> log_inv env r acked w d h \<and> ledger r acked w cov miss \<and> order_inv r cov miss m
     \<and> length js = or_next_seq (ro_order r) \<and> (\<forall>i < length js. stage_ok r acked w cov miss m i (js ! i)))"

lemma rot_invI:
  assumes "writers_inv r" "log_inv env r acked w d h" "ledger r acked w cov miss" "order_inv r cov miss m"
    "length js = or_next_seq (ro_order r)" "\<And>i. i < length js \<Longrightarrow> stage_ok r acked w cov miss m i (js ! i)"
  shows "rot_inv env (r, js, acked)"
  using assms unfolding rot_inv_def by auto

lemma rot_invE:
  assumes "rot_inv env (r, js, acked)"
  obtains w d h cov miss m where "writers_inv r" "log_inv env r acked w d h" "ledger r acked w cov miss"
    "order_inv r cov miss m" "length js = or_next_seq (ro_order r)"
    "\<And>i. i < length js \<Longrightarrow> stage_ok r acked w cov miss m i (js ! i)"
  using assms unfolding rot_inv_def by auto

lemma acked_upto_append: "acked_upto c (acked @ [e]) = acked_upto c acked + (if fst e \<le> c then mset (snd (snd e)) else {#})"
  by (simp add: acked_upto_def)

lemma all_acked_append: "all_acked (acked @ [e]) = all_acked acked + mset (snd (snd e))"
  by (simp add: all_acked_def)

lemma acked_upto_all:
  "(\<forall>e \<in> set acked. fst e \<le> c) \<Longrightarrow> acked_upto c acked = all_acked acked"
  by (simp add: acked_upto_def all_acked_def filter_id_conv)

text \<open>Safety of a position survives any step that keeps what is on disk and acknowledges only
  records beyond the end of the log.\<close>

lemma safe_mono:
  assumes "safe r acked w p" "disk r \<subseteq># disk r'" "position w \<le> position w'"
  shows "safe r' acked w' p" "position w < fst e \<Longrightarrow> safe r' (acked @ [e]) w' p"
  using assms by (auto simp: safe_def acked_upto_append intro: order_trans subset_mset.order_trans)

lemma stage_ok_mono:
  assumes "stage_ok r acked w cov miss m i st" "\<And>p. safe r acked w p \<Longrightarrow> safe r' acked' w' p"
  shows "stage_ok r' acked' w' cov miss m i st"
  using assms by (auto simp: stage_ok_def split: job_stage.splits option.splits)

subsubsection \<open>Pushes\<close>

lemma ledger_push:
  assumes l: "ledger r acked w cov miss" and pe: "push_effect r pts ok r'" and pos: "position w \<le> position w'"
  shows "ledger r' acked w' cov miss"
    "ok \<Longrightarrow> position w < fst e \<Longrightarrow> fst e \<le> position w' \<Longrightarrow> mset (snd (snd e)) = pts \<Longrightarrow> ledger r' (acked @ [e]) w' cov miss"
proof -
  let ?n = "or_next_seq (ro_order r)"
  have f: "ro_order r' = ro_order r" "disk r \<subseteq># disk r'"
    "disk r + in_writers r + (if ok then pts else {#}) \<subseteq># disk r' + in_writers r'"
    using pe by (simp_all add: push_effect_def)
  have s: "acked_upto (cov s) acked \<subseteq># disk r' + sum miss {..s} \<and> cov s \<le> position w \<and> cov s \<le> position w'" if "s < ?n" for s
    using l that pos f (2) unfolding ledger_def
    by (meson order_trans subset_mset.add_right_mono subset_mset.order_trans)
  have all: "all_acked acked \<subseteq># disk r + in_writers r + sum miss {..<?n}" using l by (simp add: ledger_def)
  then have tot: "all_acked acked + (if ok then pts else {#}) \<subseteq># disk r' + in_writers r' + sum miss {..<?n}"
  proof -
    have "all_acked acked + (if ok then pts else {#}) \<subseteq># (disk r + in_writers r + (if ok then pts else {#})) + sum miss {..<?n}"
      using all by (simp add: ac_simps)
    also have "\<dots> \<subseteq># (disk r' + in_writers r') + sum miss {..<?n}" using f (3) by (rule subset_mset.add_right_mono)
    finally show ?thesis .
  qed
  have le: "\<forall>e \<in> set acked. fst e \<le> position w'" using l pos by (auto simp: ledger_def)
  have "all_acked acked \<subseteq># disk r' + in_writers r' + sum miss {..<?n}"
    using tot by (rule subset_mset.order_trans [rotated]) simp
  then show "ledger r' acked w' cov miss" using s le by (simp add: ledger_def f (1))
  show "ledger r' (acked @ [e]) w' cov miss"
    if "ok" "position w < fst e" "fst e \<le> position w'" "mset (snd (snd e)) = pts"
  proof -
    have "\<not> fst e \<le> cov s" if "s < ?n" for s using s [OF that] \<open>position w < fst e\<close> by (meson leD order_trans)
    then show ?thesis using s le tot that by (simp add: ledger_def f (1) acked_upto_append all_acked_append)
  qed
qed

lemma log_metric_log:
  assumes li: "log_inv env r acked w d h" and fits: "fits w (frame (re_crc env) payload)" and small: "small payload"
    and log: "log_metric io (Some (frame (re_crc env) payload)) r = (u, r1)"
  obtains w' d' where "ro_wal r1 = Some (w', d')" "wal_inv (re_crc env) w' d'" "pos_ok w'" "read_commit d' = read_commit d"
    "position w \<le> position w'" "set (wal_log (re_crc env) d) \<subseteq> set (wal_log (re_crc env) d')"
    "u = Inr () \<Longrightarrow> position w < record_position w payload \<and> record_position w payload \<le> position w'
       \<and> (record_position w payload, payload) \<in> set (wal_log (re_crc env) d')"
proof -
  let ?c = "re_crc env"
  have wal: "ro_wal r = Some (w, d)" and inv: "wal_inv ?c w d" and ok: "pos_ok w" using li by (auto simp: log_inv_def)
  obtain a w' d' where a: "append_encoded (pi_append io) w d (frame ?c payload) = (a, w', d')"
    and w': "ro_wal r1 = Some (w', d')" and u: "\<And>x. u = Inr x \<Longrightarrow> \<exists>pos. a = Inr pos"
    using log_metric_fields (5) [OF log wal refl] by auto
  have fr: "frames ?c [payload] = frame ?c payload" by simp
  have fits': "fits w (frames ?c [payload])" and sm: "list_all small [payload]" using fits small by simp_all
  have out: "append_outcome ?c [payload] w d a w' d'" using append_encoded_spec [OF inv fits' sm, unfolded fr, OF a] by simp
  note p = append_position [OF inv ok fits' sm, unfolded fr, OF a]
  have rp: "\<exists>pos. a = Inr pos \<and> pos = record_position w payload
      \<and> (record_position w payload, payload) \<in> set (wal_log ?c d')" if "u = Inr ()"
  proof -
    have "\<exists>pos. a = Inr pos" using that by (rule u)
    then obtain pos where pos: "a = Inr pos" ..
    have mk: "pos = record_position w payload"
      using out pos unfolding append_outcome_def record_position_def fr by (simp add: add.assoc)
    obtain log1 where "wal_log ?c d' = log1 @ seg_entries (ww_segment w) (unat (ww_offset w)) [payload]"
      using out pos unfolding append_outcome_def by blast
    then have "(record_position w payload, payload) \<in> set (wal_log ?c d')" by (simp add: record_position_def)
    with pos mk show ?thesis by blast
  qed
  show thesis
  proof (rule that [OF w'])
    show "wal_inv ?c w' d'" "set (wal_log ?c d) \<subseteq> set (wal_log ?c d')"
      using out unfolding append_outcome_def by (blast, blast dest: set_mono_prefix)
    show "pos_ok w'" "position w \<le> position w'" by (rule p)+
    show "read_commit d' = read_commit d" by (rule read_commit_cong) (use out in \<open>unfold append_outcome_def, blast\<close>)
    show "position w < record_position w payload \<and> record_position w payload \<le> position w'
       \<and> (record_position w payload, payload) \<in> set (wal_log ?c d')" if "u = Inr ()"
      using rp [OF that] p (3) by blast
  qed
qed

lemma rot_inv_push:
  assumes inv: "rot_inv env (r, js, acked)" and wal: "ro_wal r = Some (w, d)"
    and small: "small payload" and fits: "fits w (frame (re_crc env) payload)"
    and run: "push_section env io (shard_for (re_shard_hash env) (m_name m) (length (ro_shards r)))
       (Some (frame (re_crc env) payload)) m bdps r = (res, r')"
  shows "rot_inv env (r', js, case res of
      Inl e \<Rightarrow> acked | Inr b \<Rightarrow> acked @ [(record_position w payload, payload, m_data_points m)])"
proof -
  let ?e = "(record_position w payload, payload, m_data_points m)"
  from inv obtain w0 d0 h cov miss mm where wi: "writers_inv r" and li: "log_inv env r acked w0 d0 h"
    and le: "ledger r acked w0 cov miss" and oi: "order_inv r cov miss mm" and len: "length js = or_next_seq (ro_order r)"
    and st: "\<And>i. i < length js \<Longrightarrow> stage_ok r acked w0 cov miss mm i (js ! i)" by (rule rot_invE) blast
  have [simp]: "w0 = w" "d0 = d" using li wal by (simp_all add: log_inv_def)
  note eff = push_section_effect [OF wi shard_for_less [OF wi] run]
  obtain u r1 where log: "log_metric io (Some (frame (re_crc env) payload)) r = (u, r1)"
    and r1: "ro_wal r' = ro_wal r1" "\<And>b. res = Inr b \<Longrightarrow> u = Inr ()" using eff (2) by blast
  obtain w' d' where w': "ro_wal r1 = Some (w', d')" "wal_inv (re_crc env) w' d'" "pos_ok w'" "read_commit d' = read_commit d"
    "position w \<le> position w'" "set (wal_log (re_crc env) d) \<subseteq> set (wal_log (re_crc env) d')"
    "u = Inr () \<Longrightarrow> position w < record_position w payload \<and> record_position w payload \<le> position w'
       \<and> (record_position w payload, payload) \<in> set (wal_log (re_crc env) d')"
    using log_metric_log [OF li [simplified] fits small log] by blast
  have dk: "disk r \<subseteq># disk r'" "writers_inv r'" "ro_order r' = ro_order r" using eff (1) by (simp_all add: push_effect_def)
  have oi': "order_inv r' cov miss mm" using oi by (simp add: order_inv_def dk)
  define acked' where "acked' = (case res of Inl e \<Rightarrow> acked | Inr b \<Rightarrow> acked @ [?e])"
  have sf: "safe r' acked' w' p" if "safe r acked w p" for p
    using safe_mono [OF that dk (1) w' (5)] r1 (2) w' (7) by (auto simp: acked'_def split: sum.splits)
  have "ledger r' acked' w' cov miss"
    using ledger_push [OF le [simplified] eff (1) w' (5)] r1 (2) w' (7) by (auto simp: acked'_def split: sum.splits)
  moreover have "log_inv env r' acked' w' d' h"
    using li w' r1 sf [of h] by (auto simp: log_inv_def acked'_def split: sum.splits)
  moreover have "stage_ok r' acked' w' cov miss mm i (js ! i)" if "i < length js" for i
    using st [OF that] sf by (auto intro: stage_ok_mono)
  ultimately show ?thesis unfolding acked'_def [symmetric]
    using dk oi' len by (intro rot_invI) auto
qed

subsubsection \<open>Swaps and job phases\<close>

lemma order_begin_seq [simp]: "or_next_seq (snd (order_begin od)) = or_next_seq od + 1"
  by (simp add: order_begin_def)

lemma sum_upd_upto: "s < n \<Longrightarrow> sum (f(n := x)) {..s} = sum f {..(s :: nat)}"
  by (intro sum.cong) auto

lemma sum_upd_last: "sum (f(n := x)) {..(n :: nat)} = sum f {..<n} + (x :: 'a :: comm_monoid_add)"
proof -
  have "sum (f(n := x)) {..<n} = sum f {..<n}" by (intro sum.cong) auto
  then have "sum (f(n := x)) {..<Suc n} = sum f {..<n} + x" by (simp only: sum.lessThan_Suc fun_upd_same)
  then show ?thesis by (simp only: lessThan_Suc_atMost)
qed

lemma ledger_swap:
  assumes le: "ledger r acked w cov miss" and f: "disk r' = disk r" "in_writers r' = {#}"
    "or_next_seq (ro_order r') = or_next_seq (ro_order r) + 1"
  shows "ledger r' acked w (cov(or_next_seq (ro_order r) := position w)) (miss(or_next_seq (ro_order r) := in_writers r))"
    (is "ledger r' acked w ?cov ?miss")
  unfolding ledger_def
proof (intro conjI allI impI)
  let ?n = "or_next_seq (ro_order r)"
  have all: "all_acked acked \<subseteq># disk r + (sum miss {..<?n} + in_writers r)" "\<forall>e \<in> set acked. fst e \<le> position w"
    using le by (simp_all add: ledger_def ac_simps)
  then show "all_acked acked \<subseteq># disk r' + in_writers r' + sum ?miss {..<or_next_seq (ro_order r')}"
    by (simp add: f lessThan_Suc_atMost sum_upd_last del: sum.lessThan_Suc fun_upd_apply)
  show "\<forall>e \<in> set acked. fst e \<le> position w" by (fact all)
  fix s assume s: "s < or_next_seq (ro_order r')"
  show "?cov s \<le> position w" using s le by (auto simp: f ledger_def)
  show "acked_upto (?cov s) acked \<subseteq># disk r' + sum ?miss {..s}"
  proof (cases "s = ?n")
    case True
    have "acked_upto (position w) acked = all_acked acked" using all (2) by (rule acked_upto_all)
    with all (1) True show ?thesis unfolding True f sum_upd_last by simp
  next
    case False
    then show ?thesis using s le by (simp add: f sum_upd_upto ledger_def)
  qed
qed

lemma rot_inv_swap:
  assumes inv: "rot_inv env (r, js, acked)" and run: "flush_swap r = (Some job, r')"
  shows "rot_inv env (r', js @ [Encoding job], acked)"
proof -
  from inv obtain w d h cov miss m where wi: "writers_inv r" and li: "log_inv env r acked w d h"
    and le: "ledger r acked w cov miss" and oi: "order_inv r cov miss m" and len: "length js = or_next_seq (ro_order r)"
    and st: "\<And>i. i < length js \<Longrightarrow> stage_ok r acked w cov miss m i (js ! i)" by (rule rot_invE) blast
  let ?n = "or_next_seq (ro_order r)"
  have wal: "ro_wal r = Some (w, d)" using li by (simp add: log_inv_def)
  note f = flush_swap_effect [OF wi wal run]
  have n: "or_next_seq (ro_order r') = ?n + 1" by (simp add: f)
  define cov' where "cov' = cov(?n := position w)"
  define miss' where "miss' = miss(?n := in_writers r)"
  have new: "cov' ?n = position w" "miss' ?n = in_writers r" by (simp_all add: cov'_def miss'_def)
  have old: "cov' i = cov i" "miss' i = miss i" if "i < ?n" for i using that by (simp_all add: cov'_def miss'_def)
  have sf: "safe r acked w p \<Longrightarrow> safe r' acked w p" for p by (simp add: safe_def f)
  have "ledger r' acked w cov' miss'" unfolding cov'_def miss'_def by (rule ledger_swap [OF le f (2, 3) n])
  moreover have mn: "m ?n = None" using oi by (cases "m ?n") (auto simp: order_inv_def)
  moreover have "order_inv r' cov' miss' m"
    using oi wal_order_ok_begin old by (auto simp: order_inv_def f intro: less_SucI)
  moreover have "log_inv env r' acked w d h" using li sf by (simp add: log_inv_def f)
  moreover have "stage_ok r' acked w cov' miss' m i ((js @ [Encoding job]) ! i)" if "i < length (js @ [Encoding job])" for i
  proof (cases "i < length js")
    case True
    from stage_ok_mono [OF st [OF True] sf] True len old [of i] show ?thesis
      by (auto simp: stage_ok_def nth_append split: job_stage.splits)
  next
    case False
    then have "i = ?n" using that len by simp
    then show ?thesis using len f mn new by (simp add: stage_ok_def nth_append)
  qed
  ultimately show ?thesis using f len by (intro rot_invI) auto
qed

text \<open>A step that changes one job's stage and at most adds blocks.\<close>

lemma rot_inv_stage:
  assumes "writers_inv r'" "log_inv env r' acked w d h" "ledger r' acked w cov miss" "order_inv r' cov miss m"
    "length js = or_next_seq (ro_order r')" "i < length js" "stage_ok r' acked w cov miss m i st"
    "\<And>j. j < length js \<Longrightarrow> j \<noteq> i \<Longrightarrow> stage_ok r' acked w cov miss m j (js ! j)"
  shows "rot_inv env (r', js[i := st], acked)"
  using assms by (intro rot_invI) (auto simp: nth_list_update)

lemma sum_moved:
  assumes "finite A"
  shows "D + sum f A \<subseteq># (D + f i) + sum (f(i := {#})) A"
proof (cases "i \<in> A")
  case True
  then have "sum f A = f i + sum f (A - {i})" "sum (f(i := {#})) A = sum f (A - {i})"
    using assms by (simp_all add: sum.remove)
  then show ?thesis by (simp add: ac_simps)
next
  case False
  then have "sum (f(i := {#})) A = sum f A" by (intro sum.cong) auto
  then show ?thesis by simp
qed

lemma ledger_encode:
  assumes le: "ledger r acked w cov miss" and f: "disk r' = disk r + miss i" "in_writers r' = in_writers r"
    "ro_order r' = ro_order r"
  shows "ledger r' acked w cov (miss(i := {#}))"
  unfolding ledger_def f (3)
proof (intro conjI allI impI)
  let ?n = "or_next_seq (ro_order r)"
  show "\<forall>e \<in> set acked. fst e \<le> position w" using le by (simp add: ledger_def)
  have "all_acked acked \<subseteq># disk r + sum miss {..<?n} + in_writers r" using le by (simp add: ledger_def ac_simps)
  also have "\<dots> \<subseteq># disk r + miss i + sum (miss(i := {#})) {..<?n} + in_writers r"
    by (rule subset_mset.add_right_mono) (rule sum_moved, simp)
  finally show "all_acked acked \<subseteq># disk r' + in_writers r' + sum (miss(i := {#})) {..<?n}"
    by (simp only: f ac_simps)
  fix s assume s: "s < ?n"
  show "cov s \<le> position w" using s le by (simp add: ledger_def)
  have "acked_upto (cov s) acked \<subseteq># disk r + sum miss {..s}" using s le by (simp add: ledger_def)
  also have "\<dots> \<subseteq># disk r' + sum (miss(i := {#})) {..s}" unfolding f by (rule sum_moved) simp
  finally show "acked_upto (cov s) acked \<subseteq># disk r' + sum (miss(i := {#})) {..s}" .
qed

lemma rot_inv_encode:
  assumes inv: "rot_inv env (r, js, acked)" and i: "i < length js" "js ! i = Encoding job"
    and e: "encode_job io job = Inr blk"
  shows "rot_inv env (publish_block blk r, js[i := Published job], acked)"
proof -
  from inv obtain w d h cov miss m where wi: "writers_inv r" and li: "log_inv env r acked w d h"
    and le: "ledger r acked w cov miss" and oi: "order_inv r cov miss m" and len: "length js = or_next_seq (ro_order r)"
    and st: "\<And>i. i < length js \<Longrightarrow> stage_ok r acked w cov miss m i (js ! i)" by (rule rot_invE) blast
  let ?r = "publish_block blk r"
  have si: "m i = None" "job_ok job" "(\<Sum>w\<leftarrow>fj_writers job. mset (all_points w)) = miss i" "fj_seq job = i" "fj_covered job = cov i"
    using st [OF i (1)] i (2) by (simp_all add: stage_ok_def)
  have f: "ro_order ?r = ro_order r" "ro_shards ?r = ro_shards r" "ro_config ?r = ro_config r" "ro_wal ?r = ro_wal r"
    "disk ?r = disk r + miss i" "in_writers ?r = in_writers r"
    using encode_job_points [OF si (2) e] si (3) by (simp_all add: publish_block_def disk_def in_writers_def)
  define miss' where "miss' = miss(i := {#})"
  have miss': "miss' i = {#}" "\<And>j. j \<noteq> i \<Longrightarrow> miss' j = miss j" "\<And>j. miss j = {#} \<Longrightarrow> miss' j = {#}"
    by (simp_all add: miss'_def)
  have sf: "safe r acked w p \<Longrightarrow> safe ?r acked w p" for p using safe_mono (1) [of r acked w p ?r w] by (simp add: f)
  have "ledger ?r acked w cov miss'" unfolding miss'_def by (rule ledger_encode [OF le f (5, 6, 1)])
  moreover have "order_inv ?r cov miss' m" using oi miss' (3) by (simp add: order_inv_def f)
  moreover have "log_inv env ?r acked w d h" using li sf by (simp add: log_inv_def f)
  moreover have "writers_inv ?r" using wi by (simp add: writers_inv_def f)
  moreover have "stage_ok ?r acked w cov miss' m j (js ! j)" if "j < length js" "j \<noteq> i" for j
    using stage_ok_mono [OF st [OF that (1)] sf] miss' (2) [OF that (2)] by (auto simp: stage_ok_def split: job_stage.splits)
  moreover have "stage_ok ?r acked w cov miss' m i (Published job)" using si miss' (1) by (simp add: stage_ok_def)
  moreover have "length js = or_next_seq (ro_order ?r)" using len by (simp add: f)
  ultimately show ?thesis using i (1) by (blast intro: rot_inv_stage)
qed

lemma rot_inv_restage:
  assumes inv: "rot_inv env (r, js, acked)" and i: "i < length js" and st: "stage_job st = stage_job (js ! i)"
    and free: "st = Failed j \<or> st = Committed j \<or> st = Finished j"
  shows "rot_inv env (r, js[i := st], acked)"
proof -
  from inv obtain w d h cov miss m where a: "writers_inv r" "log_inv env r acked w d h" "ledger r acked w cov miss"
    "order_inv r cov miss m" "length js = or_next_seq (ro_order r)"
    and s: "\<And>i. i < length js \<Longrightarrow> stage_ok r acked w cov miss m i (js ! i)" by (rule rot_invE) blast
  from s [OF i] have "stage_ok r acked w cov miss m i st" using free st by (auto simp: stage_ok_def)
  with a s i show ?thesis by (intro rot_inv_stage) auto
qed

lemma rot_inv_durable:
  assumes inv: "rot_inv env (r, js, acked)" and i: "i < length js" "js ! i = Published job"
    and c: "complete_job job r = (p, r')"
  shows "rot_inv env (r', js[i := Releasable job p], acked)"
proof -
  from inv obtain w d h cov miss m where wi: "writers_inv r" and li: "log_inv env r acked w d h"
    and le: "ledger r acked w cov miss" and oi: "order_inv r cov miss m" and len: "length js = or_next_seq (ro_order r)"
    and st: "\<And>i. i < length js \<Longrightarrow> stage_ok r acked w cov miss m i (js ! i)" by (rule rot_invE) blast
  have si: "m i = None" "miss i = {#}" "fj_seq job = i" "fj_covered job = cov i"
    using st [OF i (1)] i (2) by (simp_all add: stage_ok_def)
  obtain od where wc: "wal_complete i (cov i) (ro_order r) = (p, od)" and r': "r' = r\<lparr>ro_order := od\<rparr>"
    using c si by (auto simp: complete_job_def split: prod.splits)
  define m' where "m' = m(i \<mapsto> cov i)"
  have new: "i \<notin> dom m" using si (1) by auto
  have ok: "wal_order_ok m (ro_order r)" using oi by (simp add: order_inv_def)
  note w' = wal_complete_spec [OF ok new wc, folded m'_def]
  have m': "t < or_next_seq (ro_order r) \<and> c = cov t \<and> miss t = {#}" if "m' t = Some c" for t c
    using that oi si i len by (auto simp: m'_def order_inv_def split: if_splits)
  have f: "disk r' = disk r" "in_writers r' = in_writers r" "ro_wal r' = ro_wal r" "writers_inv r'"
    "or_next_seq (ro_order r') = or_next_seq (ro_order r)" "ro_order r' = od"
    using wi w' (4) by (simp_all add: r' disk_def in_writers_def writers_inv_def)
  have sf: "safe r acked w q \<Longrightarrow> safe r' acked w q" for q by (simp add: safe_def f)
  have "safe r' acked w q" if q: "p = Some q" for q
  proof -
    have "combined max m' [or_wal_frontier (ro_order r)..<or_wal_frontier od] None = Some q" using w' (3) q by simp
    from combined_max (1) [OF this] obtain n where n: "n < or_wal_frontier od" "q = the (m' n)" by auto
    have pre: "{..<or_wal_frontier od} \<subseteq> dom m'" using w' (1) by (simp add: wal_order_ok_def)
    then have qn: "m' n = Some (the (m' n))" using n (1) by (auto simp: subset_iff)
    have "miss t = {#}" if "t \<le> n" for t
    proof -
      have "t \<in> dom m'" using pre that n (1) by (auto simp: subset_iff)
      then show ?thesis using m' by blast
    qed
    then have "sum miss {..n} = {#}" by simp
    then show ?thesis using m' [OF qn] le n (2) by (auto simp: safe_def ledger_def f)
  qed
  then have "stage_ok r' acked w cov miss m' i (Releasable job p)"
    using si by (auto simp: stage_ok_def split: option.splits)
  moreover have "stage_ok r' acked w cov miss m' j (js ! j)" if "j < length js" "j \<noteq> i" for j
    using stage_ok_mono [OF st [OF that (1)] sf] that (2) by (auto simp: stage_ok_def m'_def split: job_stage.splits)
  moreover have "order_inv r' cov miss m'" using w' (1) m' by (simp add: order_inv_def f (5, 6) flip: f (6))
  moreover have "ledger r' acked w cov miss" using le by (simp add: ledger_def f (1, 2, 5))
  moreover have "log_inv env r' acked w d h" using li sf by (simp add: log_inv_def f)
  ultimately show ?thesis using f len i by (intro rot_inv_stage) auto
qed

lemma commit_outcome:
  assumes "commit io rm p d = (res, d')"
  shows "d' = d \<or> read_commit d' = p"
proof (cases "p = START \<or> io \<noteq> None")
  case True
  then show ?thesis using assms by (auto simp: commit_def split: if_splits)
next
  case False
  then have "d' = remove_covered_segments rm p (write_commit p d)" using assms by (auto simp: commit_def)
  then have "wd_commit d' = wd_commit (write_commit p d)"
    by (simp add: remove_covered_segments_def remove_while_spec (3))
  then show ?thesis using read_write_commit [of p d] read_commit_cong by metis
qed

lemma log_inv_commit:
  assumes li: "log_inv env r acked w d h" and p: "safe r acked w p" and c: "commit io rm p d = (res, d')"
    and r': "ro_wal r' = Some (w, d')" "disk r' = disk r"
  shows "\<exists>h. log_inv env r' acked w d' h"
proof -
  have inv: "wal_inv (re_crc env) w d" "pos_ok w" "safe r acked w h" "read_commit d \<le> h"
    using li by (simp_all add: log_inv_def)
  have sf: "safe r' acked w q" if "safe r acked w q" for q using that by (simp add: safe_def r')
  have seg: "pos_segment p \<le> ww_segment w"
    using pos_segment_mono [of p "position w"] p inv (2) by (simp add: safe_def pos_segment_position)
  have wf: "wf_dir d" using inv (1) by (simp add: wal_inv_def)
  show ?thesis
  proof (cases "d' = d")
    case True
    then have "log_inv env r' acked w d' h" using li sf [OF inv (3)] by (simp add: log_inv_def r')
    then show ?thesis by blast
  next
    case False
    then have rc: "read_commit d' = p" using commit_outcome [OF c] by blast
    have "(fst e, fst (snd e)) \<in> set (wal_log (re_crc env) d')" if "e \<in> set acked" "max h p < fst e" for e
    proof -
      have "(fst e, fst (snd e)) \<in> set (uncovered p (wal_log (re_crc env) d))"
        using li that by (simp add: log_inv_def uncovered_set)
      then show ?thesis
        unfolding commit_spec (1) [OF wf c, where crc = "re_crc env", symmetric] by (simp add: uncovered_set)
    qed
    moreover have "safe r' acked w (max h p)" using sf inv (3) p by (simp add: max_def)
    moreover have "wal_inv (re_crc env) w d'" by (rule commit_inv [OF inv (1) seg c])
    ultimately have "log_inv env r' acked w d' (max h p)" using inv (2) rc by (simp add: log_inv_def r')
    then show ?thesis by blast
  qed
qed

lemma rot_inv_commit:
  assumes inv: "rot_inv env (r, js, acked)" and i: "i < length js" "js ! i = Releasable job p"
  shows "rot_inv env (commit_job io p r, js[i := Committed job], acked)"
proof -
  have re: "rot_inv env (r, js[i := Committed job], acked)"
    by (rule rot_inv_restage [OF inv i (1), where j = job]) (simp_all add: i)
  from inv obtain w d h cov miss m where wi: "writers_inv r" and li: "log_inv env r acked w d h"
    and le: "ledger r acked w cov miss" and oi: "order_inv r cov miss m" and len: "length js = or_next_seq (ro_order r)"
    and st: "\<And>i. i < length js \<Longrightarrow> stage_ok r acked w cov miss m i (js ! i)" by (rule rot_invE) blast
  have wal: "ro_wal r = Some (w, d)" using li by (simp add: log_inv_def)
  show ?thesis
  proof (cases p)
    case None
    then show ?thesis using re by (simp add: commit_job_def wal)
  next
    case (Some q)
    obtain res d' where c: "commit (ji_commit io) (ji_removed io) q d = (res, d')" by fastforce
    have r': "commit_job io p r = r\<lparr>ro_wal := Some (w, d')\<rparr>" (is "_ = ?r") by (simp add: commit_job_def wal Some c)
    have q: "safe r acked w q" using st [OF i (1)] i (2) Some by (simp add: stage_ok_def)
    have dk: "disk ?r = disk r" "in_writers ?r = in_writers r" by (simp_all add: disk_def in_writers_def)
    obtain h' where "log_inv env ?r acked w d' h'" using log_inv_commit [OF li q c, of ?r] dk by auto
    moreover have "ledger ?r acked w cov miss" using le by (simp add: ledger_def dk)
    moreover have "order_inv ?r cov miss m" using oi by (simp add: order_inv_def)
    moreover have "writers_inv ?r" using wi by (simp add: writers_inv_def)
    moreover have "stage_ok ?r acked w cov miss m j (js ! j)" if "j < length js" for j
      using st [OF that] by (rule stage_ok_mono) (simp add: safe_def dk)
    moreover have "stage_ok ?r acked w cov miss m i (Committed job)"
      using st [OF i (1)] i (2) by (simp add: stage_ok_def)
    moreover have "length js = or_next_seq (ro_order ?r)" using len by simp
    ultimately show ?thesis unfolding r' using i (1) by (blast intro: rot_inv_stage)
  qed
qed

lemma release_buffer_drops_fields:
  "ro_shards (release_buffer_drops seq sealed r) = ro_shards r" "ro_files (release_buffer_drops seq sealed r) = ro_files r"
  "ro_wal (release_buffer_drops seq sealed r) = ro_wal r" "ro_config (release_buffer_drops seq sealed r) = ro_config r"
  "or_next_seq (ro_order (release_buffer_drops seq sealed r)) = or_next_seq (ro_order r)"
  "or_wal_frontier (ro_order (release_buffer_drops seq sealed r)) = or_wal_frontier (ro_order r)"
  "or_wal_done (ro_order (release_buffer_drops seq sealed r)) = or_wal_done (ro_order r)"
  by (auto simp: release_buffer_drops_def drop_complete_def split: prod.splits option.splits)

lemma rot_inv_drops:
  assumes "rot_inv env (r, js, acked)" shows "rot_inv env (release_buffer_drops seq sealed r, js, acked)"
proof -
  let ?r = "release_buffer_drops seq sealed r"
  note f = release_buffer_drops_fields [of seq sealed r]
  from assms obtain w d h cov miss m where wi: "writers_inv r" and li: "log_inv env r acked w d h"
    and le: "ledger r acked w cov miss" and oi: "order_inv r cov miss m" and len: "length js = or_next_seq (ro_order r)"
    and st: "\<And>i. i < length js \<Longrightarrow> stage_ok r acked w cov miss m i (js ! i)" by (rule rot_invE) blast
  have dk: "disk ?r = disk r" "in_writers ?r = in_writers r" by (simp_all add: disk_def in_writers_def f)
  have "stage_ok ?r acked w cov miss m j (js ! j)" if "j < length js" for j
    using st [OF that] by (rule stage_ok_mono) (simp add: safe_def dk)
  then show ?thesis
    using wi li le oi len by (intro rot_invI [where w = w and d = d and h = h and cov = cov and miss = miss and m = m])
      (simp_all add: writers_inv_def log_inv_def ledger_def order_inv_def wal_order_ok_def safe_def f dk)
qed

lemma rot_inv_step:
  assumes "rot_step env s t" "rot_inv env s"
  shows "rot_inv env t"
  using assms
proof (induction rule: rot_step.induct)
  case step_push
  then show ?case by (blast intro: rot_inv_push)
next
  case step_swap
  then show ?case by (blast intro: rot_inv_swap)
next
  case step_encode
  then show ?case by (blast intro: rot_inv_encode)
next
  case (step_fail i js job)
  then show ?case by (intro rot_inv_restage [where j = job]) auto
next
  case step_durable
  then show ?case by (blast intro: rot_inv_durable)
next
  case (step_not_durable i js job)
  then show ?case by (intro rot_inv_restage [where j = job]) auto
next
  case step_commit_job
  then show ?case by (blast intro: rot_inv_commit)
next
  case (step_drop i js job)
  then show ?case by (intro rot_inv_drops rot_inv_restage [where j = job]) auto
next
  case (step_drop_failed i js job)
  then show ?case by (intro rot_inv_drops rot_inv_restage [where j = job]) auto
qed

lemma rot_inv_init:
  assumes "rot_init s" shows "rot_inv env s"
proof -
  obtain now config n b mode mx w d where s: "s = (set_buffer b (with_wal (w, d) (with_shards now config n)), [], [])"
    and op: "open_with_segment_limit None mode mx empty_dir = Inr (w, d)"
    and cap: "0 < bc_max_rows_per_block config" "bc_max_rows_per_block config \<le> 2 ^ 24"
    using assms unfolding rot_init_def by blast
  let ?r = "set_buffer b (with_wal (w, d) (with_shards now config n))"
  have f: "ro_config ?r = config" "ro_shards ?r = replicate (max 1 (min 256 n)) (block_writer_new config)" "ro_files ?r = []"
    "ro_wal ?r = Some (w, d)" "ro_order ?r = flush_order_default"
    by (simp_all add: set_buffer_def with_wal_def with_shards_def Let_def)
  have cs: "crash_state (re_crc env) empty_dir"
    by (simp add: crash_state_def empty_dir_def wf_dir_def segments_def)
  note o = open_with_segment_limit_spec [OF cs op]
  have "read_commit d = START"
    using read_commit_cong [OF o (3)] by (simp add: read_commit_def read_commit_inner_def empty_dir_def)
  then have li: "log_inv env ?r [] w d START"
    using o wal_inv_pos_ok [OF o (1, 4)] by (simp add: log_inv_def f safe_def acked_upto_def START_def)
  have wi: "writers_inv ?r"
    using cap by (auto simp: writers_inv_def Let_def f list_all_iff block_writer_new_def writer_ok_def with_epoch_ok)
      (auto simp: with_epoch_def)
  show ?thesis unfolding s
    by (rule rot_invI [OF wi li, where m = Map.empty])
      (simp_all add: ledger_def order_inv_def wal_order_ok_default f, simp_all add: flush_order_default_def all_acked_def)
qed

interpretation rot: state_machine rot_init "rot_step env" "rot_inv env" for env
  by standard (auto intro: rot_inv_init rot_inv_step)

text \<open>Concrete values for the examples: a rotator of one shard on an empty log, and one push.\<close>

definition sample_env :: rotator_env where
  "sample_env = \<lparr>re_shard_hash = (\<lambda>_. 3), re_map_hash = (\<lambda>_. 3), re_ser = (\<lambda>_. Inr [5]), re_crc = sum_crc\<rparr>"

definition sample_config :: "nat \<Rightarrow> block_config" where
  "sample_config cap = \<lparr>bc_data_dir = ''d'', bc_block_duration_secs = 60, bc_max_rows_per_block = cap\<rparr>"

definition sample_rotator :: "nat \<Rightarrow> rotator" where
  "sample_rotator cap = set_buffer (Some buffer_new) (with_wal (writer0, dir0) (with_shards 0 (sample_config cap) 1))"

definition sample_push_io :: push_io where
  "sample_push_io = \<lparr>pi_append = io_ok, pi_files = (\<lambda>_. sample_file None)\<rparr>"

lemma sample_rotator_init: "0 < cap \<Longrightarrow> cap \<le> 2 ^ 24 \<Longrightarrow> rot_init (sample_rotator cap, [], [])"
  using open_empty unfolding rot_init_def sample_rotator_def by (force simp: sample_config_def)

lemma sample_push:
  "\<exists>r'. push_section sample_env sample_push_io 0 (Some (frame sum_crc [5])) (sample_metric [10, 20]) None (sample_rotator 7)
     = (Inr False, r')"
  by (simp add: push_section_def log_metric_def append_one [simplified] sample_rotator_def set_buffer_def with_wal_def
      with_shards_def sample_push_io_def push_to_buffer_def bw_push_run_def bw_push_loop.simps block_writer_new_def
      with_epoch_def sample_config_def sample_metric_def Let_def)

subsection \<open>Properties\<close>

text \<open>C2: No acknowledged point is lost, however pushes, swaps and the phases of concurrent flush jobs
  interleave and whichever of their I/O operations fail. At every moment there is a position at or
  above the commit point such that every point acknowledged up to it is in a block file, counted with
  multiplicity, and every record acknowledged above it is returned by a replay of the log.\<close>

theorem no_acknowledged_point_is_lost:
  assumes "rot_init s" "(rot_step env)\<^sup>*\<^sup>* s (r, js, acked)"
  shows "\<exists>w d h. ro_wal r = Some (w, d) \<and> read_commit d \<le> h \<and> acked_upto h acked \<subseteq># disk r
    \<and> (\<forall>e \<in> set acked. h < fst e \<longrightarrow> (\<forall>v. de (fst (snd e)) = Some v \<longrightarrow>
         v \<in> set (fst (snd (replay de (re_crc env) (\<lambda>_. None) (read_commit d) d)))))"
proof -
  have "rot_inv env (r, js, acked)" using assms by (rule rot.inv_reachable)
  then obtain w d h where li: "log_inv env r acked w d h" by (rule rot_invE) blast
  then have wf: "wf_dir d" and c: "read_commit d \<le> h" by (auto simp: log_inv_def wal_inv_def)
  have "v \<in> set (fst (snd (replay de (re_crc env) (\<lambda>_. None) (read_commit d) d)))"
    if "e \<in> set acked" "h < fst e" "de (fst (snd e)) = Some v" for e v
  proof -
    have "(fst e, fst (snd e)) \<in> set (uncovered (read_commit d) (wal_log (re_crc env) d))"
      using li that c by (auto simp: log_inv_def uncovered_set)
    then have "v \<in> set (replayed de (read_commit d) (wal_log (re_crc env) d))"
      using that (3) by (force simp: replayed_def map_filter_def)
    then show ?thesis unfolding replay_values [OF wf] .
  qed
  then show ?thesis using li by (intro exI [of _ w] exI [of _ d] exI [of _ h]) (auto simp: log_inv_def safe_def)
qed

theorem no_acknowledged_point_is_lost_witness:
  "\<exists>r acked. map snd acked = [([5], [sample_dp 10, sample_dp 20])]
     \<and> (rot_step sample_env)\<^sup>*\<^sup>* (sample_rotator 7, [], []) (r, [], acked)
     \<and> (\<exists>w d h. ro_wal r = Some (w, d) \<and> read_commit d \<le> h \<and> acked_upto h acked \<subseteq># disk r)"
proof -
  obtain r' where p: "push_section sample_env sample_push_io 0 (Some (frame sum_crc [5])) (sample_metric [10, 20]) None
      (sample_rotator 7) = (Inr False, r')" using sample_push by blast
  have "rot_step sample_env (sample_rotator 7, [], []) (r', [], case (Inr False :: bool result) of Inl e \<Rightarrow> []
      | Inr b \<Rightarrow> [] @ [(record_position writer0 [5], [5], m_data_points (sample_metric [10, 20]))])"
    by (rule step_push [where d = dir0 and io = sample_push_io and bdps = None])
      (use p in \<open>simp_all add: sample_rotator_def set_buffer_def with_wal_def with_shards_def sample_env_def small_def
        fits_def writer0_def shard_for_def Let_def\<close>)
  then have run: "(rot_step sample_env)\<^sup>*\<^sup>* (sample_rotator 7, [], [])
      (r', [], [(record_position writer0 [5], [5], [sample_dp 10, sample_dp 20])])" by simp
  have init: "rot_init (sample_rotator 7, [], [])" by (rule sample_rotator_init) simp_all
  have "\<exists>w d h. ro_wal r' = Some (w, d) \<and> read_commit d \<le> h \<and>
      acked_upto h [(record_position writer0 [5], [5], [sample_dp 10, sample_dp 20])] \<subseteq># disk r'"
    using no_acknowledged_point_is_lost [OF init run, of Some] by blast
  with run show ?thesis
    by (intro exI [of _ r'] exI [of _ "[(record_position writer0 [5], [5], [sample_dp 10, sample_dp 20])]"]) simp
qed

subsection \<open>The row counter\<close>

definition counter_ok :: "rotator \<Rightarrow> bool" where
  "counter_ok r \<longleftrightarrow> ro_buffered r = of_nat (actual_rows r)"

lemma closed_rows:
  assumes "pushed fos i remaining w None blks w' left" "writer_ok w"
  shows "bw_rows w' + sum_list (map (\<lambda>b. bm_row_count (fst b)) blks) = bw_rows w + length remaining"
proof -
  have all: "list_all (\<lambda>b. bm_row_count (fst b) = bw_capacity w \<and> length (block_points (snd b)) = bw_capacity w) blks"
    and bal: "mset (points_of_blocks blks) + mset (all_points w') + mset left = mset (all_points w) + mset remaining"
    and left: "left = []" and ok: "writer_ok w'" using assms by (auto simp: pushed_def)
  have "sum_list (map (\<lambda>b. bm_row_count (fst b)) blks) = length (points_of_blocks blks)"
    using all by (induction blks) auto
  moreover have "length (points_of_blocks blks) + length (all_points w') = length (all_points w) + length remaining"
    using arg_cong [OF bal, of size] left by simp
  ultimately show ?thesis using ok assms (2) by (simp add: writer_ok_def writer_inv_def)
qed

lemma sum_list_update_nat: "i < length xs \<Longrightarrow> sum_list (map f (xs[i := y])) + f (xs ! i) = sum_list (map f xs) + (f y :: nat)"
  by (rule sum_list_update)

lemma push_section_counter:
  assumes inv: "writers_inv r" "counter_ok r" and idx: "idx < length (ro_shards r)"
    and run: "push_section env io idx rec m bdps r = (Inr b, r')"
  shows "counter_ok r'" "writers_inv r'"
proof -
  show "writers_inv r'" using push_section_effect (1) [OF inv (1) idx run] by (simp add: push_effect_def)
  obtain u r1 where log: "log_metric io rec r = (u, r1)" by fastforce
  have f: "ro_shards r1 = ro_shards r" "ro_buffered r1 = ro_buffered r"
    using log by (auto simp: log_metric_def split: option.splits prod.splits sum.splits)
  have bp: "ro_buffered (push_to_buffer env i n dps ep r1) = ro_buffered r1" for i n dps ep
    by (simp add: push_to_buffer_def split: option.splits)
  have dc: "ro_buffered (drop_closed i ep q) = ro_buffered q" for i ep q
    by (simp add: drop_closed_def split: option.splits)
  obtain written shard where sh: "bw_push_run (pi_files io) m (ro_shards r ! idx) = (None, written, shard)"
    and r': "ro_shards r' = (ro_shards r)[idx := shard]"
      "ro_buffered r' = ro_buffered r + of_nat (length (m_data_points m)) - of_nat (sum_list (map (\<lambda>b. bm_row_count (fst b)) written))"
    using run log f by (cases u) (auto simp: push_section_def Let_def bp dc split: prod.splits option.splits if_splits)
  note w = writers_inv_shard [OF inv (1) idx]
  obtain left where "pushed (pi_files io) 0 (m_data_points m) (ro_shards r ! idx) None written shard left"
    using bw_push_run_pushed [OF w (1, 3) sh] by blast
  from closed_rows [OF this w (1)]
  have rows: "bw_rows shard + sum_list (map (\<lambda>b. bm_row_count (fst b)) written) = bw_rows (ro_shards r ! idx) + length (m_data_points m)" .
  have "actual_rows r' + bw_rows (ro_shards r ! idx) = actual_rows r + bw_rows shard"
    unfolding actual_rows_def r' by (rule sum_list_update_nat [OF idx])
  with rows have "actual_rows r' + sum_list (map (\<lambda>b. bm_row_count (fst b)) written) = actual_rows r + length (m_data_points m)"
    by simp
  then have "of_nat (actual_rows r') + of_nat (sum_list (map (\<lambda>b. bm_row_count (fst b)) written)) =
      (of_nat (actual_rows r) + of_nat (length (m_data_points m)) :: u64)" by (metis of_nat_add)
  from arg_cong [OF this, of "\<lambda>x. x - of_nat (sum_list (map (\<lambda>b. bm_row_count (fst b)) written))"]
  show "counter_ok r'" using inv (2) by (simp add: counter_ok_def r')
qed

lemma flush_swap_counter:
  assumes "flush_swap r = (j, r')" "counter_ok r" "writers_inv r"
  shows "counter_ok r'" "writers_inv r'" "ro_flush_tx r' = ro_flush_tx r" "length (ro_shards r') = length (ro_shards r)"
proof -
  have r': "ro_shards r' = map (swap_writer (ro_config r)) (ro_shards r)" "ro_config r' = ro_config r"
    "ro_buffered r' = ro_buffered r - of_nat (\<Sum>w\<leftarrow>filter (\<lambda>w. \<not> bw_is_empty w) (ro_shards r). bw_rows w)"
    "ro_flush_tx r' = ro_flush_tx r"
    using assms (1) by (auto simp: flush_swap_def Let_def order_begin_def split: if_splits)
  show "ro_flush_tx r' = ro_flush_tx r" "length (ro_shards r') = length (ro_shards r)" by (simp_all add: r')
  have taken: "(\<Sum>w\<leftarrow>filter (\<lambda>w. \<not> bw_is_empty w) ws. bw_rows w) = (\<Sum>w\<leftarrow>ws. bw_rows w)" for ws
    by (induction ws) (auto simp: bw_is_empty_def)
  have zero: "sum_list (map bw_rows (map (swap_writer c) ws)) = 0" for c ws
    by (induction ws) (auto simp: swap_writer_def bw_is_empty_def with_epoch_def)
  show "counter_ok r'" using assms (2) unfolding counter_ok_def actual_rows_def r' taken zero by simp
  show "writers_inv r'"
    using assms (3) with_epoch_ok [of "ro_config r"]
    by (auto simp: writers_inv_def Let_def r' list_all_iff swap_writer_def writer_ok_def)
      (auto simp: with_epoch_def)
qed

definition same_rows :: "rotator \<Rightarrow> rotator \<Rightarrow> bool" where
  "same_rows r r' \<longleftrightarrow> ro_shards r' = ro_shards r \<and> ro_buffered r' = ro_buffered r \<and> ro_config r' = ro_config r"

lemma same_rows_counter: "same_rows r r' \<Longrightarrow> counter_ok r \<Longrightarrow> counter_ok r'" "same_rows r r' \<Longrightarrow> writers_inv r \<Longrightarrow> writers_inv r'"
  by (simp_all add: same_rows_def counter_ok_def actual_rows_def writers_inv_def)

lemma same_rows_trans: "same_rows a b \<Longrightarrow> same_rows b c \<Longrightarrow> same_rows a c"
  by (simp add: same_rows_def)

lemma phases_same_rows:
  "same_rows r (release_buffer_drops seq sealed r)" "same_rows r (publish_block blk r)"
  "same_rows r (commit_job io p r)" "complete_job job r = (q, r') \<Longrightarrow> same_rows r r'"
  by (auto simp: same_rows_def release_buffer_drops_def publish_block_def commit_job_def complete_job_def
      split: prod.splits option.splits)

lemma encode_publish_commit_same_rows:
  assumes "encode_publish_commit io job r = (res, r')" shows "same_rows r r'"
proof (cases "encode_job io job")
  case (Inl e)
  then show ?thesis using assms by (simp add: encode_publish_commit_def same_rows_def)
next
  case (Inr blk)
  obtain q r1 where c: "complete_job job (publish_block blk r) = (q, r1)" by fastforce
  have "same_rows r (commit_job io q r1)"
    using phases_same_rows (2, 3) phases_same_rows (4) [OF c] same_rows_trans by blast
  moreover have "same_rows r (publish_block blk r)" by (rule phases_same_rows)
  moreover have "same_rows r x \<Longrightarrow> same_rows r (release_buffer_drops seq sealed x)" for seq sealed x
    using phases_same_rows (1) same_rows_trans by blast
  ultimately show ?thesis
    using assms Inr c by (auto simp: encode_publish_commit_def Let_def split: option.splits index_reply.splits)
qed

lemma run_flush_job_same_rows: "run_flush_job io job r = (res, r') \<Longrightarrow> same_rows r r'"
  using encode_publish_commit_same_rows [of io job r] phases_same_rows (1) same_rows_trans
  by (auto simp: run_flush_job_def split: sum.splits prod.splits)

lemma flush_locked_counter:
  assumes "flush_locked io r = (res, r')" "counter_ok r" "writers_inv r"
  shows "counter_ok r'" "writers_inv r'" "length (ro_shards r') = length (ro_shards r)"
proof -
  obtain j r1 where sw: "flush_swap r = (j, r1)" by fastforce
  note c = flush_swap_counter [OF sw assms (2, 3)]
  have "same_rows r1 r'"
    using assms (1) sw run_flush_job_same_rows
    by (auto simp: flush_locked_def same_rows_def split: option.splits if_splits)
  with c same_rows_counter show "counter_ok r'" "writers_inv r'" "length (ro_shards r') = length (ro_shards r)"
    by (auto simp: same_rows_def)
qed

lemma flush_if_over_capacity_counter:
  assumes "flush_if_over_capacity io r = (res, r')" "counter_ok r" "writers_inv r"
  shows "counter_ok r'" "writers_inv r'" "length (ro_shards r') = length (ro_shards r)"
  using assms flush_locked_counter by (auto simp: flush_if_over_capacity_def split: if_splits)

subsection \<open>Synchronous operation\<close>

text \<open>Running a job to its end is a sequence of its phases.\<close>

lemma update_steps:
  assumes "i < length js" "(rot_step env)\<^sup>*\<^sup>* (r, js[i := st], acked) t"
    "rot_step env (r0, js, acked) (r, js[i := st], acked)"
  shows "(rot_step env)\<^sup>*\<^sup>* (r0, js, acked) t"
  using assms by (meson converse_rtranclp_into_rtranclp)

lemma publish_then_finish:
  assumes i: "i < length js" "js ! i = Published job" and wal: "ro_wal r \<noteq> None"
    and r2_def: "r2 = (case ji_index io of
      IndexDurable \<Rightarrow> (case complete_job job r of (p, r') \<Rightarrow> commit_job io p r') | IndexDropped \<Rightarrow> r | IndexTimedOut \<Rightarrow> r)"
  shows "(rot_step env)\<^sup>*\<^sup>* (r, js, acked)
    (release_buffer_drops (fj_seq job) (fj_sealed job) r2, js[i := Finished job], acked)"
proof -
  have last: "(rot_step env)\<^sup>*\<^sup>* (q, js[i := Committed job], acked)
      (release_buffer_drops (fj_seq job) (fj_sealed job) q, js[i := Finished job], acked)" for q
    using step_drop [of i "js[i := Committed job]" job env q acked] i (1) by (simp add: r_into_rtranclp)
  show ?thesis
  proof (cases "ji_index io = IndexDurable")
    case True
    obtain p r' where c: "complete_job job r = (p, r')" by fastforce
    have "rot_step env (r', js[i := Releasable job p], acked) (commit_job io p r', js[i := Committed job], acked)"
      using step_commit_job [of i "js[i := Releasable job p]" job p env r' acked io] i (1) by simp
    then have "(rot_step env)\<^sup>*\<^sup>* (r', js[i := Releasable job p], acked)
        (release_buffer_drops (fj_seq job) (fj_sealed job) r2, js[i := Finished job], acked)"
      using last [of "commit_job io p r'"] True c by (simp add: r2_def converse_rtranclp_into_rtranclp)
    then show ?thesis using i step_durable [OF i c] by (meson converse_rtranclp_into_rtranclp)
  next
    case False
    then have "r2 = r" by (cases "ji_index io") (simp_all add: r2_def)
    then show ?thesis using last [of r] step_not_durable [OF i, of env r acked] by (simp add: converse_rtranclp_into_rtranclp)
  qed
qed

lemma run_flush_job_steps:
  assumes i: "i < length js" "js ! i = Encoding job" and wal: "ro_wal r \<noteq> None"
    and run: "run_flush_job io job r = (res, r')"
  shows "(rot_step env)\<^sup>*\<^sup>* (r, js, acked) (r', js[i := Finished job], acked)"
proof (cases "encode_job io job")
  case (Inl e)
  have "r' = release_buffer_drops (fj_seq job) (replicate (length (fj_sealed job)) 0) r"
    using run Inl by (simp add: run_flush_job_def encode_publish_commit_def)
  then have "(rot_step env)\<^sup>*\<^sup>* (r, js[i := Failed job], acked) (r', js[i := Finished job], acked)"
    using step_drop_failed [of i "js[i := Failed job]" job env r acked] i (1) by (simp add: r_into_rtranclp)
  then show ?thesis using step_fail [OF i Inl] by (meson converse_rtranclp_into_rtranclp)
next
  case (Inr blk)
  let ?r = "publish_block blk r"
  have wal': "ro_wal ?r \<noteq> None" using wal by (simp add: publish_block_def)
  have "r' = release_buffer_drops (fj_seq job) (fj_sealed job) (case ji_index io of
      IndexDurable \<Rightarrow> (case complete_job job ?r of (p, r') \<Rightarrow> commit_job io p r') | IndexDropped \<Rightarrow> ?r | IndexTimedOut \<Rightarrow> ?r)"
    using run Inr wal' by (auto simp: run_flush_job_def encode_publish_commit_def Let_def)
  then have "(rot_step env)\<^sup>*\<^sup>* (?r, js[i := Published job], acked) (r', js[i := Finished job], acked)"
    using publish_then_finish [of i "js[i := Published job]" job ?r _ io env acked] i wal' by simp
  then show ?thesis using step_encode [OF i Inr] by (meson converse_rtranclp_into_rtranclp)
qed

lemma run_flush_job_wal:
  assumes "run_flush_job io job r = (res, r')" "ro_wal r = Some (w, d)"
  shows "\<exists>d'. ro_wal r' = Some (w, d')" "ro_flush_tx r' = ro_flush_tx r"
proof -
  have rel: "ro_wal (release_buffer_drops a b q) = ro_wal q" "ro_flush_tx (release_buffer_drops a b q) = ro_flush_tx q" for a b q
    by (auto simp: release_buffer_drops_def split: prod.splits option.splits)
  show "\<exists>d'. ro_wal r' = Some (w, d')" "ro_flush_tx r' = ro_flush_tx r"
    using assms
    by (auto simp: run_flush_job_def encode_publish_commit_def Let_def rel publish_block_def complete_job_def
        commit_job_def split: sum.splits index_reply.splits prod.splits option.splits)
qed

lemma flush_swap_None:
  assumes "flush_swap r = (None, r')" shows "r' = r"
proof -
  have empty: "filter (\<lambda>w. \<not> bw_is_empty w) (ro_shards r) = []"
    using assms by (auto simp: flush_swap_def Let_def order_begin_def split: if_splits)
  then have "map (swap_writer (ro_config r)) (ro_shards r) = ro_shards r"
    by (intro map_idI) (auto simp: swap_writer_def filter_empty_conv)
  then show ?thesis using assms empty by (simp add: flush_swap_def Let_def)
qed

lemma flush_locked_steps:
  assumes tx: "ro_flush_tx r = None" and wal: "ro_wal r = Some (w, d)" and run: "flush_locked io r = (res, r')"
  shows "(\<exists>js'. (rot_step env)\<^sup>*\<^sup>* (r, js, acked) (r', js', acked)) \<and> (\<exists>d'. ro_wal r' = Some (w, d'))
    \<and> length (ro_shards r') = length (ro_shards r)"
proof -
  obtain j r1 where sw: "flush_swap r = (j, r1)" by fastforce
  have f: "ro_flush_tx r1 = None" "ro_wal r1 = Some (w, d)" "length (ro_shards r1) = length (ro_shards r)"
    using sw tx wal by (auto simp: flush_swap_def Let_def order_begin_def split: if_splits)
  show ?thesis
  proof (cases j)
    case None
    then have "r' = r" using run sw flush_swap_None by (auto simp: flush_locked_def)
    then show ?thesis using wal by auto
  next
    case (Some job)
    then have r': "run_flush_job io job r1 = (res, r')" using run sw f (1) by (simp add: flush_locked_def)
    have "rot_step env (r, js, acked) (r1, js @ [Encoding job], acked)" using sw Some by (simp add: step_swap)
    moreover have "(rot_step env)\<^sup>*\<^sup>* (r1, js @ [Encoding job], acked) (r', (js @ [Encoding job])[length js := Finished job], acked)"
      by (rule run_flush_job_steps [OF _ _ _ r']) (use f in auto)
    ultimately have "\<exists>js'. (rot_step env)\<^sup>*\<^sup>* (r, js, acked) (r', js', acked)"
      by (meson converse_rtranclp_into_rtranclp)
    then show ?thesis
      using run_flush_job_wal (1) [OF r' f (2)] run_flush_job_same_rows [OF r'] f (3) by (simp add: same_rows_def)
  qed
qed

subsection \<open>Properties of the operations\<close>


definition sample_job_io :: job_io where
  "sample_job_io = \<lparr>ji_panic = None, ji_file = sample_file None, ji_index = IndexDurable, ji_commit = None, ji_removed = (\<lambda>_. True)\<rparr>"

definition plain_rotator :: "nat \<Rightarrow> rotator" where
  "plain_rotator cap = set_buffer (Some buffer_new) (with_shards 0 (sample_config cap) 1)"

lemma plain_rotator_ok: "0 < cap \<Longrightarrow> cap \<le> 2 ^ 24 \<Longrightarrow> writers_inv (plain_rotator cap)" "counter_ok (plain_rotator cap)"
  by (auto simp: writers_inv_def plain_rotator_def set_buffer_def with_shards_def sample_config_def block_writer_new_def
      writer_ok_def writer_inv_def all_points_def with_epoch_def counter_ok_def actual_rows_def)


text \<open>A push that fails to write a block leaves the counter behind: the rows the writer took before
  the failure are not counted, the next flush subtracts them all the same, and the counter wraps
  around. From then on every push finds the rotator over capacity although it holds no row.\<close>

theorem failed_push_wraps_counter:
  "\<exists>e r1 r2. push_buffered sample_env sample_job_io
       \<lparr>pi_append = io_ok, pi_files = (\<lambda>_. sample_file (Some (Internal ''disk full'')))\<rparr>
       (sample_metric [10, 20, 30]) None (plain_rotator 2) = (Inl e, r1)
     \<and> rotator_flush sample_job_io r1 = (Inr (), r2)
     \<and> actual_rows r2 = 0 \<and> ro_buffered r2 = - 2 \<and> (\<forall>n. would_overflow n r2)
     \<and> \<not> unat (ro_buffered r2) < bc_max_rows_per_block (ro_config r2)"
proof -
  define io where "io = \<lparr>pi_append = io_ok, pi_files = (\<lambda>_. sample_file (Some (Internal ''disk full'')))\<rparr>"
  obtain r1 where push: "push_buffered sample_env sample_job_io io (sample_metric [10, 20, 30]) None (plain_rotator 2)
      = (Inl (Internal ''disk full''), r1)"
    and r1: "ro_shards r1 = [(block_writer_new (sample_config 2))\<lparr>bw_rows := 2, bw_batches := [\<lparr>pb_name = ''up'', pb_kind = Gauge,
        pb_resource = default_labels, pb_points = [sample_dp 10, sample_dp 20]\<rparr>]\<rparr>]"
      "ro_buffered r1 = 0" "ro_config r1 = sample_config 2" "ro_flush_tx r1 = None" "ro_wal r1 = None"
    by (simp add: push_buffered_def would_overflow_def flush_if_over_capacity_def wal_record_of_def push_section_def
        log_metric_def plain_rotator_def set_buffer_def with_shards_def sample_config_def block_writer_new_def with_epoch_def
        sample_metric_def bw_push_run_def bw_push_loop.simps push_to_buffer_def bw_flush_def io_def shard_for_def sample_env_def
        Let_def)
  obtain r2 where flush: "rotator_flush sample_job_io r1 = (Inr (), r2)"
    and r2: "ro_shards r2 = [with_epoch (sample_config 2) 2]" "ro_buffered r2 = - 2" "ro_config r2 = sample_config 2"
  proof -
    obtain job r3 where sw: "flush_swap r1 = (Some job, r3)" and r3: "ro_shards r3 = [with_epoch (sample_config 2) 2]"
        "ro_buffered r3 = - 2" "ro_config r3 = sample_config 2" "ro_flush_tx r3 = None" "ro_wal r3 = None"
      and job: "fj_writers job = ro_shards r1"
      using r1 by (simp add: flush_swap_def Let_def bw_is_empty_def swap_writer_def order_begin_def block_writer_new_def with_epoch_def)
    have "\<exists>blk. encode_job sample_job_io job = Inr blk"
      by (simp add: encode_job_def merge_and_flush_def bw_merge_def job r1 sample_job_io_def bw_flush_def bw_set_wal_range_def
          sample_file_def Let_def)
    then have "fst (run_flush_job sample_job_io job r3) = Inr ()"
      by (auto simp: run_flush_job_def encode_publish_commit_def Let_def)
    then obtain r2 where run: "run_flush_job sample_job_io job r3 = (Inr (), r2)" by (metis prod.collapse)
    then have "rotator_flush sample_job_io r1 = (Inr (), r2)" using sw r3 by (simp add: rotator_flush_def flush_locked_def)
    then show thesis using that run_flush_job_same_rows [OF run] r3 by (simp add: same_rows_def)
  qed
  have "unat (- 2 :: u64) = 2 ^ 64 - 2" by simp
  then show ?thesis using push flush r2
    by (auto simp: io_def would_overflow_def actual_rows_def with_epoch_def sample_config_def)
qed

text \<open>C26: With no worker running, a push is a run of the interleaved machine: the steps of the flush it
  triggers, if any, and then the push section. Its effect, acknowledgement included, is therefore
  covered by everything shown of that machine.\<close>

theorem synchronous_push_is_a_run:
  assumes tx: "ro_flush_tx r = None" and wal: "ro_wal r = Some (w, d)"
    and ser: "re_ser env m = Inr payload" and small: "small payload" and fits: "fits w (frame (re_crc env) payload)"
    and run: "push_buffered env jio io m bdps r = (res, r')"
  shows "\<exists>js'. (rot_step env)\<^sup>*\<^sup>* (r, js, acked) (r', js', case res of
      Inl e \<Rightarrow> acked | Inr b \<Rightarrow> acked @ [(record_position w payload, payload, m_data_points m)])"
proof -
  let ?idx = "\<lambda>r. shard_for (re_shard_hash env) (m_name m) (length (ro_shards r))"
  obtain u r1 where first: "(if would_overflow (length (m_data_points m)) r then flush_if_over_capacity jio r else (Inr (), r)) = (u, r1)"
    by fastforce
  have rec: "encode_record (re_ser env) (re_crc env) m = Inr (frame (re_crc env) payload)"
    using ser by (simp add: encode_record_def encode_record_into_frame)
  have steps: "(\<exists>js'. (rot_step env)\<^sup>*\<^sup>* (r, js, acked) (r1, js', acked)) \<and> (\<exists>d'. ro_wal r1 = Some (w, d'))
      \<and> length (ro_shards r1) = length (ro_shards r)"
    using first wal flush_locked_steps [OF tx wal] by (auto simp: flush_if_over_capacity_def split: if_splits)
  then obtain js' d' where js': "(rot_step env)\<^sup>*\<^sup>* (r, js, acked) (r1, js', acked)" and w1: "ro_wal r1 = Some (w, d')"
    and len: "length (ro_shards r1) = length (ro_shards r)" by blast
  show ?thesis
  proof (cases u)
    case (Inl e)
    then have "r' = r1" "res = Inl e" using run first by (auto simp: push_buffered_def Let_def)
    then show ?thesis using js' by auto
  next
    case (Inr x)
    obtain res' where sec: "push_section env io (?idx r1) (Some (frame (re_crc env) payload)) m bdps r1 = (res', r')"
      and res': "(\<exists>e. res = Inl e \<and> res' = Inl e) \<or> (\<exists>a b. res = Inr a \<and> res' = Inr b)"
      using run first w1 rec len Inr
      by (auto simp: push_buffered_def Let_def wal_record_of_def split: prod.splits sum.splits)
    have "(rot_step env)\<^sup>*\<^sup>* (r, js, acked) (r', js', case res' of
        Inl e \<Rightarrow> acked | Inr b \<Rightarrow> acked @ [(record_position w payload, payload, m_data_points m)])"
      using js' step_push [OF w1 ser small fits sec] by (rule rtranclp.rtrancl_into_rtrancl)
    then show ?thesis using res' by auto
  qed
qed

theorem synchronous_push_is_a_run_witness:
  "\<exists>r' js'. push_buffered sample_env sample_job_io sample_push_io (sample_metric [10, 20]) None (sample_rotator 7) = (Inr False, r')
     \<and> (rot_step sample_env)\<^sup>*\<^sup>* (sample_rotator 7, [], []) (r', js', [(record_position writer0 [5], [5], [sample_dp 10, sample_dp 20])])"
proof -
  have f: "ro_flush_tx (sample_rotator 7) = None" "ro_wal (sample_rotator 7) = Some (writer0, dir0)"
    "re_ser sample_env (sample_metric [10, 20]) = Inr [5]" "re_crc sample_env = sum_crc" "length (ro_shards (sample_rotator 7)) = 1"
    "re_shard_hash sample_env x = 3" "ro_buffered (sample_rotator 7) = 0" "bc_max_rows_per_block (ro_config (sample_rotator 7)) = 7" for x
    by (simp_all add: sample_rotator_def set_buffer_def with_wal_def with_shards_def sample_env_def sample_config_def Let_def)
  obtain r' where "push_section sample_env sample_push_io 0 (Some (frame sum_crc [5])) (sample_metric [10, 20]) None (sample_rotator 7)
      = (Inr False, r')" using sample_push by blast
  then have run: "push_buffered sample_env sample_job_io sample_push_io (sample_metric [10, 20]) None (sample_rotator 7) = (Inr False, r')"
    by (simp add: push_buffered_def would_overflow_def wal_record_of_def encode_record_def encode_record_into_frame f shard_for_def Let_def)
  have "small [5]" "fits writer0 (frame (re_crc sample_env) [5])" by (simp_all add: small_def fits_def writer0_def)
  from synchronous_push_is_a_run [OF f (1, 2, 3) this run, of "[]" "[]"] run show ?thesis by auto
qed

text \<open>A metric that does not fit its shard is tagged in the memory buffer with the epoch of the
  block it starts in. When that block is closed during the push the whole metric leaves the buffer,
  also the points that went into the next block: until it is flushed they are in the writer only,
  and no query sees them.\<close>

theorem split_push_hides_points:
  "\<exists>r' b. push_buffered sample_env sample_job_io sample_push_io (sample_metric [10, 20, 30])
       (Some (map sample_dp [10, 20, 30])) (plain_rotator 2) = (Inr True, r')
     \<and> ro_buffer r' = Some b \<and> scan_metrics (re_map_hash sample_env) ''up'' 0 100 b = []
     \<and> in_writers r' = {#sample_dp 30#} \<and> length (points_of_blocks (ro_published r')) = 2"
proof -
  let ?pts = "[sample_dp 10, sample_dp 20, sample_dp 30]"
  let ?batch = "\<lparr>pb_name = ''up'', pb_kind = Gauge, pb_resource = default_labels, pb_points = [sample_dp 10, sample_dp 20]\<rparr>"
  let ?b = "drop_sealed_metrics [1] (push_metrics_tagged (\<lambda>_. 3) ''up'' ?pts 0 1 buffer_new)"
  obtain r' blk where push: "push_buffered sample_env sample_job_io sample_push_io (sample_metric [10, 20, 30])
       (Some (map sample_dp [10, 20, 30])) (plain_rotator 2) = (Inr True, r')"
    and r': "ro_buffer r' = Some ?b" "ro_published r' = [blk]" "snd blk = metric_runs [?batch]"
      "in_writers r' = {#sample_dp 30#}"
    by (simp add: push_buffered_def would_overflow_def flush_if_over_capacity_def wal_record_of_def push_section_def
        log_metric_def plain_rotator_def set_buffer_def with_shards_def sample_config_def block_writer_new_def with_epoch_def
        sample_metric_def bw_push_run_def bw_push_loop.simps push_to_buffer_def bw_flush_def sample_push_io_def shard_for_def
        sample_env_def drop_closed_def sat_sub_u64_def in_writers_def all_points_def sample_file_def Let_def)
  have "buffered (\<lambda>_. 3) buffer_new ''up'' = []" by (simp add: buffered_def find_slot_def buffer_new_def)
  then have "scan_metrics (\<lambda>_. 3) ''up'' 0 100 ?b = []"
    by (simp add: scan_metrics_buffered drop_sealed_metrics_spec push_metrics_tagged_spec wf_buffer_new tag_sealed_def UNTRACKED_def)
  moreover have "length (block_points (metric_runs [?batch])) = 2"
    using mset_eq_length [OF metric_runs_points [of "[?batch]"]] by (simp add: u32_sized_def)
  ultimately show ?thesis using push r' by (auto simp: sample_env_def)
qed

end
