(* ===== verification/Serial_Rotator.thy ===== *)
theory Serial_Rotator
  imports Rotator
begin

section \<open>The log and trace rotators\<close>

text \<open>
  The model of \<open>SerialRotator\<close> in \<^verbatim>\<open>parqtel-ingest/src/service.rs\<close>, which rotates the blocks
  of logs and of traces. The trait \<open>RowWriter\<close> is a record of operations, with one value for each
  implementation; the laws the rotator relies on are the locale \<open>row_writer_api\<close>, interpreted for
  both. The rotator is used behind one lock, so an operation is one function; the one flush task
  in flight is the job behind the gate, and an operation that waits for the gate takes the
  outcome of that job as an argument.
\<close>

subsection \<open>Row writers\<close>

record 'r row_writer =
  rw_push :: "file_out \<Rightarrow> 'r \<Rightarrow> 'r row_buffer \<Rightarrow> (block_metadata \<times> 'r list) option result \<times> 'r row_buffer"
  rw_write_block :: "file_out \<Rightarrow> 'r row_buffer \<Rightarrow> (block_metadata \<times> 'r list) result \<times> 'r row_buffer"
  rw_feed_buffer :: "'r list \<Rightarrow> memory_buffer \<Rightarrow> memory_buffer"
  rw_drop_flushed :: "nat \<Rightarrow> memory_buffer \<Rightarrow> memory_buffer"

definition log_rows :: "log_record row_writer" where
  "log_rows = \<lparr>rw_push = log_push, rw_write_block = log_flush, rw_feed_buffer = push_logs,
     rw_drop_flushed = drop_flushed_logs\<rparr>"

definition trace_rows :: "span row_writer" where
  "trace_rows = \<lparr>rw_push = trace_push, rw_write_block = trace_flush, rw_feed_buffer = push_spans,
     rw_drop_flushed = drop_flushed_spans\<rparr>"

subsection \<open>State and operations\<close>

record 'r serial_job =
  sj_writer :: "'r row_buffer"
  sj_covered :: wal_position
  sj_rows :: nat

record 'r serial_rotator =
  sr_writer :: "'r row_buffer"
  sr_data_dir :: string
  sr_max_rows_per_block :: nat
  sr_last_flush :: nat
  sr_max_duration :: nat
  sr_wal :: "(wal_writer \<times> wal_dir) option"
  sr_covered :: wal_position
  sr_wal_cursor :: wal_position
  sr_gate :: "'r serial_job option"
  sr_buffer :: "memory_buffer option"
  sr_published :: "(block_metadata \<times> 'r list) list"

definition serial_new :: "nat \<Rightarrow> string \<Rightarrow> nat \<Rightarrow> nat \<Rightarrow> 'r serial_rotator" where
  "serial_new now dir max_rows duration =
     \<lparr>sr_writer = row_buffer_new dir max_rows, sr_data_dir = dir, sr_max_rows_per_block = max_rows,
      sr_last_flush = now, sr_max_duration = duration, sr_wal = None, sr_covered = START,
      sr_wal_cursor = START, sr_gate = None, sr_buffer = None, sr_published = []\<rparr>"

definition serial_with_wal :: "wal_writer \<times> wal_dir \<Rightarrow> 'r serial_rotator \<Rightarrow> 'r serial_rotator" where
  "serial_with_wal wal r = r\<lparr>sr_wal := Some wal\<rparr>"

definition serial_set_buffer :: "memory_buffer option \<Rightarrow> 'r serial_rotator \<Rightarrow> 'r serial_rotator" where
  "serial_set_buffer b r = r\<lparr>sr_buffer := b\<rparr>"

definition has_wal :: "'r serial_rotator \<Rightarrow> bool" where
  "has_wal r \<longleftrightarrow> sr_wal r \<noteq> None"

definition drop_from_buffer :: "'r row_writer \<Rightarrow> nat \<Rightarrow> 'r serial_rotator \<Rightarrow> 'r serial_rotator" where
  "drop_from_buffer ops n r =
     (case sr_buffer r of None \<Rightarrow> r | Some b \<Rightarrow> r\<lparr>sr_buffer := Some (rw_drop_flushed ops n b)\<rparr>)"

text \<open>The flush task. A failed write and a panic are only logged.\<close>

definition serial_flush :: "'r row_writer \<Rightarrow> job_io \<Rightarrow> 'r serial_job \<Rightarrow> 'r serial_rotator \<Rightarrow> 'r serial_rotator" where
  "serial_flush ops io job r =
     (let encoded = (case ji_panic io of
                       Some e \<Rightarrow> Inl (Internal e)
                     | None \<Rightarrow> fst (rw_write_block ops (ji_file io) (sj_writer job)))
      in case encoded of
           Inl e \<Rightarrow> drop_from_buffer ops (sj_rows job) r
         | Inr blk \<Rightarrow>
             let r1 = r\<lparr>sr_published := sr_published r @ [blk]\<rparr>;
                 r2 = (case sr_wal r1 of
                         None \<Rightarrow> r1
                       | Some (w, d) \<Rightarrow>
                           (case ji_index io of
                              IndexDurable \<Rightarrow>
                                r1\<lparr>sr_wal := Some (w, snd (commit (ji_commit io) (ji_removed io) (sj_covered job) d))\<rparr>
                            | IndexDropped \<Rightarrow> r1
                            | IndexTimedOut \<Rightarrow> r1))
             in drop_from_buffer ops (sj_rows job) r2)"

text \<open>Taking the gate waits for the task in flight.\<close>

definition wait_idle :: "'r row_writer \<Rightarrow> job_io \<Rightarrow> 'r serial_rotator \<Rightarrow> 'r serial_rotator" where
  "wait_idle ops io r =
     (case sr_gate r of None \<Rightarrow> r | Some job \<Rightarrow> serial_flush ops io job (r\<lparr>sr_gate := None\<rparr>))"

definition start_flush :: "'r row_writer \<Rightarrow> nat \<Rightarrow> job_io \<Rightarrow> 'r serial_rotator \<Rightarrow> 'r serial_rotator" where
  "start_flush ops now io r =
     (if rb_rows (sr_writer r) = [] then r
      else let r1 = wait_idle ops io r;
               covered = sr_covered r1;
               writer = (if sr_wal r1 = None then sr_writer r1
                         else rb_set_wal_range (Some (sr_wal_cursor r1, covered)) (sr_writer r1))
           in r1\<lparr>sr_covered := START,
                 sr_writer := row_buffer_new (sr_data_dir r1) (sr_max_rows_per_block r1),
                 sr_wal_cursor := (if sr_wal r1 = None then sr_wal_cursor r1 else covered),
                 sr_last_flush := now,
                 sr_gate := Some \<lparr>sj_writer = writer, sj_covered = covered, sj_rows = length (rb_rows (sr_writer r1))\<rparr>\<rparr>)"

text \<open>The loop over the rows of a batch, with the outcome of each write.\<close>

fun push_rows :: "'r row_writer \<Rightarrow> (nat \<Rightarrow> file_out) \<Rightarrow> nat \<Rightarrow> 'r list \<Rightarrow> bool \<Rightarrow> 'r serial_rotator
    \<Rightarrow> bool result \<times> 'r serial_rotator" where
  "push_rows ops fos i [] flushed r = (Inr flushed, r)"
| "push_rows ops fos i (row # rows) flushed r =
     (case rw_push ops (fos i) row (sr_writer r) of
        (Inl e, w) \<Rightarrow> (Inl e, r\<lparr>sr_writer := w\<rparr>)
      | (Inr None, w) \<Rightarrow> push_rows ops fos (i + 1) rows flushed (r\<lparr>sr_writer := w\<rparr>)
      | (Inr (Some blk), w) \<Rightarrow>
          (let r1 = drop_from_buffer ops (bm_row_count (fst blk)) (r\<lparr>sr_writer := w\<rparr>)
           in push_rows ops fos (i + 1) rows True (r1\<lparr>sr_published := sr_published r1 @ [blk]\<rparr>)))"

definition log_batch :: "append_io \<Rightarrow> byte list option \<Rightarrow> 'r serial_rotator \<Rightarrow> unit result \<times> 'r serial_rotator" where
  "log_batch io wal_records r =
     (case (sr_wal r, wal_records) of
        (Some (w, d), Some records) \<Rightarrow>
          (case append_encoded io w d records of
             (Inl e, w', d') \<Rightarrow> (Inl e, r\<lparr>sr_wal := Some (w', d')\<rparr>)
           | (Inr p, w', d') \<Rightarrow> (Inr (), r\<lparr>sr_wal := Some (w', d'), sr_covered := p\<rparr>))
      | _ \<Rightarrow> (Inr (), r))"

definition feed_buffer :: "'r row_writer \<Rightarrow> 'r list \<Rightarrow> 'r serial_rotator \<Rightarrow> 'r serial_rotator" where
  "feed_buffer ops rows r =
     (case sr_buffer r of None \<Rightarrow> r | Some b \<Rightarrow> r\<lparr>sr_buffer := Some (rw_feed_buffer ops rows b)\<rparr>)"

text \<open>The two waits of a batch take the outcomes \<open>jio\<close> and \<open>jio'\<close>.\<close>

definition push_batch ::
  "'r row_writer \<Rightarrow> nat \<Rightarrow> job_io \<Rightarrow> job_io \<Rightarrow> append_io \<Rightarrow> (nat \<Rightarrow> file_out) \<Rightarrow> 'r list \<Rightarrow> byte list option
     \<Rightarrow> 'r serial_rotator \<Rightarrow> bool result \<times> 'r serial_rotator" where
  "push_batch ops now jio jio' io fos rows wal_records r =
     (let max_rows = max (sr_max_rows_per_block r) 1;
          n = length (rb_rows (sr_writer r));
          full = n > 0 \<and> n + length rows > max_rows;
          r1 = (if full then start_flush ops now jio r else r);
          r2 = (if length rows \<ge> max_rows then wait_idle ops jio' r1 else r1)
      in case log_batch io wal_records r2 of
           (Inl e, r3) \<Rightarrow> (Inl e, r3)
         | (Inr _, r3) \<Rightarrow> push_rows ops fos 0 rows full (feed_buffer ops rows r3))"

definition serial_push ::
  "('r \<Rightarrow> string + byte list) \<Rightarrow> (byte list \<Rightarrow> u32) \<Rightarrow> 'r row_writer \<Rightarrow> nat \<Rightarrow> job_io \<Rightarrow> job_io \<Rightarrow> append_io
     \<Rightarrow> (nat \<Rightarrow> file_out) \<Rightarrow> 'r \<Rightarrow> 'r serial_rotator \<Rightarrow> bool result \<times> 'r serial_rotator" where
  "serial_push ser crc ops now jio jio' io fos row r =
     (if sr_wal r = None then push_batch ops now jio jio' io fos [row] None r
      else case encode_record ser crc row of
             Inl e \<Rightarrow> (Inl e, r)
           | Inr bytes \<Rightarrow> push_batch ops now jio jio' io fos [row] (Some bytes) r)"

definition serial_check_and_flush :: "'r row_writer \<Rightarrow> nat \<Rightarrow> job_io \<Rightarrow> 'r serial_rotator \<Rightarrow> bool result \<times> 'r serial_rotator" where
  "serial_check_and_flush ops now io r =
     (if now - sr_last_flush r \<ge> sr_max_duration r then (Inr True, start_flush ops now io r) else (Inr False, r))"

definition serial_rotator_flush :: "'r row_writer \<Rightarrow> nat \<Rightarrow> job_io \<Rightarrow> job_io \<Rightarrow> 'r serial_rotator \<Rightarrow> unit result \<times> 'r serial_rotator" where
  "serial_rotator_flush ops now jio jio' r = (Inr (), wait_idle ops jio' (start_flush ops now jio r))"

subsection \<open>The contract of a row writer\<close>

text \<open>The memory buffer in step with the rotator: it holds the rows of the flush in flight followed by
  those of the open block.\<close>

definition gate_rows :: "'r serial_rotator \<Rightarrow> 'r list" where
  "gate_rows r = (case sr_gate r of None \<Rightarrow> [] | Some j \<Rightarrow> rb_rows (sj_writer j))"

definition in_step :: "(memory_buffer \<Rightarrow> 'r list) \<Rightarrow> 'r serial_rotator \<Rightarrow> bool" where
  "in_step rows_of r \<longleftrightarrow>
     (case sr_buffer r of None \<Rightarrow> True | Some b \<Rightarrow> rows_of b = gate_rows r @ rb_rows (sr_writer r))
     \<and> (case sr_gate r of None \<Rightarrow> True | Some j \<Rightarrow> sj_rows j = length (rb_rows (sj_writer j)))
     \<and> rb_capacity (sr_writer r) = sr_max_rows_per_block r \<and> 0 < sr_max_rows_per_block r
     \<and> length (rb_rows (sr_writer r)) \<le> sr_max_rows_per_block r"

text \<open>Rows are buffered in order and dropped from the front; a writer below its capacity appends, a
  full one first writes a block of exactly its rows.\<close>

locale row_writer_api =
  fixes ops :: "'r row_writer" and rows_of :: "memory_buffer \<Rightarrow> 'r list"
  assumes feed: "rows_of (rw_feed_buffer ops rs b) = rows_of b @ rs"
    and drop_oldest: "rows_of (rw_drop_flushed ops n b) = drop n (rows_of b)"
    and push_room: "length (rb_rows w) < rb_capacity w \<Longrightarrow>
      rw_push ops fo row w = (Inr None, w\<lparr>rb_rows := rb_rows w @ [row]\<rparr>)"
    and push_full: "length (rb_rows w) \<ge> rb_capacity w \<Longrightarrow>
      rw_push ops fo row w = (Inr (Some blk), w') \<Longrightarrow>
      bm_row_count (fst blk) = length (rb_rows w) \<and> rb_rows w' = [row] \<and> rb_capacity w' = rb_capacity w
        \<and> mset (snd blk) = mset (rb_rows w)"
    and push_full_None: "length (rb_rows w) \<ge> rb_capacity w \<Longrightarrow> rw_push ops fo row w \<noteq> (Inr None, w')"
    and write_block: "rw_write_block ops fo w = (Inr blk, w') \<Longrightarrow> mset (snd blk) = mset (rb_rows w)"
begin

lemma drop_from_buffer_fields:
  "sr_writer (drop_from_buffer ops n r) = sr_writer r" "sr_gate (drop_from_buffer ops n r) = sr_gate r"
  "sr_max_rows_per_block (drop_from_buffer ops n r) = sr_max_rows_per_block r"
  "sr_buffer (drop_from_buffer ops n r) = map_option (rw_drop_flushed ops n) (sr_buffer r)"
  by (auto simp: drop_from_buffer_def split: option.splits)

lemma serial_flush_fields:
  "sr_writer (serial_flush ops io job r) = sr_writer r" "sr_gate (serial_flush ops io job r) = sr_gate r"
  "sr_max_rows_per_block (serial_flush ops io job r) = sr_max_rows_per_block r"
  "sr_buffer (serial_flush ops io job r) = map_option (rw_drop_flushed ops (sj_rows job)) (sr_buffer r)"
  by (auto simp: serial_flush_def drop_from_buffer_fields Let_def split: sum.splits option.splits index_reply.splits)

lemma wait_idle_in_step:
  assumes "in_step rows_of r"
  shows "in_step rows_of (wait_idle ops io r)" "sr_gate (wait_idle ops io r) = None"
    "sr_writer (wait_idle ops io r) = sr_writer r" "sr_max_rows_per_block (wait_idle ops io r) = sr_max_rows_per_block r"
  using assms
  by (auto simp: in_step_def wait_idle_def gate_rows_def serial_flush_fields drop_oldest split: option.splits)

lemma start_flush_in_step: "in_step rows_of r \<Longrightarrow> in_step rows_of (start_flush ops now io r)"
  using wait_idle_in_step [of r io]
  by (auto simp: in_step_def start_flush_def gate_rows_def row_buffer_new_def rb_set_wal_range_def Let_def split: option.splits)

lemma start_flush_fields:
  assumes "in_step rows_of r"
  shows "sr_max_rows_per_block (start_flush ops now io r) = sr_max_rows_per_block r"
    "rb_rows (sr_writer r) \<noteq> [] \<Longrightarrow> rb_rows (sr_writer (start_flush ops now io r)) = []"
  using wait_idle_in_step [OF assms, of io] by (auto simp: start_flush_def row_buffer_new_def Let_def)

text \<open>The loop over a batch already fed to the buffer: either no flush is in flight, or the batch fits
  the open block and none is closed.\<close>

lemma push_rows_in_step:
  assumes "push_rows ops fos i rows flushed r = (Inr f, r')"
    "case sr_buffer r of None \<Rightarrow> True | Some b \<Rightarrow> rows_of b = gate_rows r @ rb_rows (sr_writer r) @ rows"
    "case sr_gate r of None \<Rightarrow> True | Some j \<Rightarrow> sj_rows j = length (rb_rows (sj_writer j))"
    "rb_capacity (sr_writer r) = sr_max_rows_per_block r" "0 < sr_max_rows_per_block r"
    "length (rb_rows (sr_writer r)) \<le> sr_max_rows_per_block r"
    "sr_gate r = None \<or> length (rb_rows (sr_writer r)) + length rows \<le> sr_max_rows_per_block r"
  shows "in_step rows_of r'"
  using assms
proof (induction rows arbitrary: i flushed r)
  case Nil
  then show ?case by (auto simp: in_step_def split: option.splits)
next
  case (Cons row rows)
  show ?case
  proof (cases "length (rb_rows (sr_writer r)) < rb_capacity (sr_writer r)")
    case True
    then have "push_rows ops fos (i + 1) rows flushed (r\<lparr>sr_writer := (sr_writer r)\<lparr>rb_rows := rb_rows (sr_writer r) @ [row]\<rparr>\<rparr>)
        = (Inr f, r')" using Cons.prems (1) by (simp add: push_room)
    from Cons.IH [OF this] True Cons.prems (2-) show ?thesis by (auto simp: gate_rows_def split: option.splits)
  next
    case False
    then have gate: "sr_gate r = None" using Cons.prems by auto
    obtain blk w where p: "rw_push ops (fos i) row (sr_writer r) = (Inr (Some blk), w)"
      using Cons.prems (1) push_full_None [of "sr_writer r" "fos i" row] False
      by (auto split: sum.splits option.splits prod.splits)
    have pf: "bm_row_count (fst blk) = length (rb_rows (sr_writer r))" "rb_rows w = [row]" "rb_capacity w = rb_capacity (sr_writer r)"
      using push_full [OF _ p] False by auto
    let ?r1 = "drop_from_buffer ops (bm_row_count (fst blk)) (r\<lparr>sr_writer := w\<rparr>)"
    have "push_rows ops fos (i + 1) rows True (?r1\<lparr>sr_published := sr_published ?r1 @ [blk]\<rparr>) = (Inr f, r')"
      using Cons.prems (1) p by (simp add: Let_def)
    from Cons.IH [OF this] Cons.prems (2-) gate pf show ?thesis
      by (auto simp: drop_from_buffer_fields gate_rows_def drop_oldest split: option.splits)
  qed
qed

lemma push_batch_in_step:
  assumes step: "in_step rows_of r" and run: "push_batch ops now jio jio' io fos rows wal_records r = (Inr f, r')"
  shows "in_step rows_of r'"
proof -
  let ?max = "max (sr_max_rows_per_block r) 1" and ?n = "length (rb_rows (sr_writer r))"
  define full where "full \<longleftrightarrow> ?n > 0 \<and> ?n + length rows > ?max"
  define r1 where "r1 = (if full then start_flush ops now jio r else r)"
  define r2 where "r2 = (if length rows \<ge> ?max then wait_idle ops jio' r1 else r1)"
  have s1: "in_step rows_of r1" "sr_max_rows_per_block r1 = sr_max_rows_per_block r"
    "full \<Longrightarrow> rb_rows (sr_writer r1) = []" "\<not> full \<Longrightarrow> rb_rows (sr_writer r1) = rb_rows (sr_writer r)"
    using start_flush_in_step [OF step] start_flush_fields [OF step] step by (auto simp: r1_def full_def)
  have s2: "in_step rows_of r2" "sr_max_rows_per_block r2 = sr_max_rows_per_block r"
    "rb_rows (sr_writer r2) = rb_rows (sr_writer r1)" "length rows \<ge> ?max \<Longrightarrow> sr_gate r2 = None"
    using wait_idle_in_step [OF s1 (1), of jio'] s1 by (auto simp: r2_def)
  obtain u r3 where log: "log_batch io wal_records r2 = (Inr u, r3)"
    and push: "push_rows ops fos 0 rows full (feed_buffer ops rows r3) = (Inr f, r')"
    using run unfolding push_batch_def Let_def full_def [symmetric] r1_def [symmetric] r2_def [symmetric]
    by (auto split: prod.splits sum.splits)
  have r3: "sr_writer r3 = sr_writer r2" "sr_gate r3 = sr_gate r2" "sr_buffer r3 = sr_buffer r2"
    "sr_max_rows_per_block r3 = sr_max_rows_per_block r2"
    using log by (auto simp: log_batch_def split: option.splits prod.splits sum.splits)
  have room: "sr_gate r2 = None \<or> length (rb_rows (sr_writer r2)) + length rows \<le> sr_max_rows_per_block r"
  proof (cases "length rows \<ge> ?max")
    case False
    have "length (rb_rows (sr_writer r)) \<le> sr_max_rows_per_block r" using step by (simp add: in_step_def)
    then show ?thesis using False s1 s2 step by (cases full) (auto simp: full_def in_step_def)
  qed (use s2 in simp)
  show ?thesis
    by (rule push_rows_in_step [OF push]; use s2 r3 room in
      \<open>auto simp: feed_buffer_def in_step_def gate_rows_def feed split: option.splits\<close>)
qed

end

interpretation logs: row_writer_api log_rows mb_logs
  by standard (auto simp: log_rows_def push_logs_def drop_flushed_logs_def log_push_def log_flush_def Let_def min_def
      split: if_splits option.splits sum.splits prod.splits)

interpretation spans: row_writer_api trace_rows mb_spans
  by standard (auto simp: trace_rows_def push_spans_def drop_flushed_spans_def trace_push_def trace_flush_def Let_def min_def
      split: if_splits option.splits sum.splits prod.splits)

subsection \<open>Properties\<close>


definition sample_serial :: "log_record serial_rotator" where
  "sample_serial = serial_set_buffer (Some buffer_new) (serial_with_wal (writer0, dir0) (serial_new 0 ''d'' 7 60))"


text \<open>The second record of a log that holds one.\<close>

definition dir2 :: wal_dir where
  "dir2 = \<lparr>wd_segs = [(0, frame sum_crc [5] @ frame sum_crc [6])], wd_commit = None\<rparr>"

lemma append_second:
  "append_encoded io_ok (writer0\<lparr>ww_offset := 9\<rparr>) \<lparr>wd_segs = [(0, frame sum_crc [5])], wd_commit = None\<rparr> (frame sum_crc [6])
     = (Inr 19, writer0\<lparr>ww_offset := 18\<rparr>, dir2)"
  by (simp add: append_encoded_def io_ok_def writer0_def dir2_def write_seg_def seg_bytes_def Let_def position_def
      mk_position_def maybe_sync_def)

lemma committed_dir2:
  defines "d \<equiv> snd (commit None (\<lambda>_. True) 19 dir2)"
  shows "read_commit d = 19" "fst (snd (replay Some sum_crc (\<lambda>_. None) 19 d)) = []"
proof -
  have last: "parse_frames sum_crc (frame sum_crc [6]) = [[6]]"
    using parse_frames_frames [of "[[6]]" sum_crc] by (simp add: small_def)
  have wf: "wf_dir dir2" and log: "wal_log sum_crc dir2 = [(10, [5]), (19, [6])]"
    by (simp_all add: dir2_def wf_dir_def wal_log_def segments_def seg_bytes_def seg_log_def small_def mk_position_def last)
  obtain r where c: "commit None (\<lambda>_. True) 19 dir2 = (r, d)" by (metis d_def prod.collapse)
  have "r = Inr ()" using c by (auto simp: commit_def START_def split: if_splits)
  then show "read_commit d = 19" using commit_spec (3) [OF wf c] by (simp add: START_def)
  have "uncovered 19 (wal_log sum_crc d) = []"
    unfolding commit_spec (1) [OF wf c] log by (simp add: uncovered_def is_covered_by_def)
  then show "fst (snd (replay Some sum_crc (\<lambda>_. None) 19 d)) = []"
    unfolding replay_values [OF commit_spec (2) [OF wf c]] by (simp add: replayed_def)
qed

definition failing_io :: job_io where
  "failing_io = \<lparr>ji_panic = None, ji_file = sample_file (Some (Internal ''disk full'')), ji_index = IndexDurable,
     ji_commit = None, ji_removed = (\<lambda>_. True)\<rparr>"

definition working_io :: job_io where
  "working_io = failing_io\<lparr>ji_file := sample_file None\<rparr>"

text \<open>When the block of one flush cannot be written, its rows leave the memory buffer, and the commit of
  the next flush passes their records: two acknowledged rows, of which the first is then in no block,
  not in the buffer and not returned by a replay of the log.\<close>

theorem failed_serial_flush_loses_rows:
  "\<exists>r1 r2 r3 w d b. push_batch log_rows 0 failing_io failing_io io_ok (\<lambda>_. sample_file None) [sample_log 10]
       (Some (frame sum_crc [5])) sample_serial = (Inr False, r1)
     \<and> push_batch log_rows 1 failing_io failing_io io_ok (\<lambda>_. sample_file None) [sample_log 20]
         (Some (frame sum_crc [6])) (wait_idle log_rows failing_io (start_flush log_rows 1 failing_io r1)) = (Inr False, r2)
     \<and> serial_rotator_flush log_rows 2 working_io working_io r2 = (Inr (), r3)
     \<and> concat (map snd (sr_published r3)) = [sample_log 20] \<and> sr_buffer r3 = Some b \<and> mb_logs b = []
     \<and> sr_wal r3 = Some (w, d) \<and> fst (snd (replay Some sum_crc (\<lambda>_. None) (read_commit d) d)) = []"
  by (simp add: push_batch_def sample_serial_def serial_set_buffer_def serial_with_wal_def serial_new_def row_buffer_new_def
      log_batch_def append_one [simplified] append_second feed_buffer_def log_rows_def log_push_def log_flush_def
      start_flush_def wait_idle_def serial_flush_def failing_io_def working_io_def drop_from_buffer_def
      serial_rotator_flush_def push_logs_def drop_flushed_logs_def buffer_new_def rb_set_wal_range_def Let_def
      committed_dir2)

end
