(* ===== verification/Tail_Sampling.thy ===== *)
theory Tail_Sampling
  imports Models "HOL-Library.AList" Complex_Main
begin

section \<open>Tail sampling and span metrics\<close>

text \<open>
  The model of \<^verbatim>\<open>parqtel-ingest/src/tail_sampling.rs\<close>, which decides per trace which spans of a
  batch are stored, and of \<^verbatim>\<open>parqtel-ingest/src/span_metrics.rs\<close>, which derives request metrics
  from spans. A double is read as not a number, an infinity or a rational; the rounding of a
  product and the conversion of a duration are parameters, as are the hash of a trace id and the order in
  which a hash map of groups is iterated.
\<close>

subsection \<open>Doubles\<close>

datatype fval = F_NaN | F_NegInf | F_Fin rat | F_PosInf

text \<open>Comparisons are false when an operand is not a number.\<close>

fun f_le :: "fval \<Rightarrow> fval \<Rightarrow> bool" where
  "f_le F_NaN y = False"
| "f_le x F_NaN = False"
| "f_le F_NegInf y = True"
| "f_le x F_PosInf = True"
| "f_le (F_Fin x) (F_Fin y) = (x \<le> y)"
| "f_le x y = False"

definition f_lt :: "fval \<Rightarrow> fval \<Rightarrow> bool" where
  "f_lt x y \<longleftrightarrow> f_le x y \<and> \<not> f_le y x"

definition f_clamp :: "fval \<Rightarrow> rat \<Rightarrow> rat \<Rightarrow> fval" where
  "f_clamp x lo hi = (if f_lt x (F_Fin lo) then F_Fin lo else if f_lt (F_Fin hi) x then F_Fin hi else x)"

subsection \<open>Sampling\<close>

datatype tail_policy = Tail_Policy
  (keep_errors: bool) (slow_trace_ms: "u64 option") (sampling_ratio: fval)
  (per_service: "(string \<times> tail_policy) list")

definition tail_policy_default :: tail_policy where
  "tail_policy_default = Tail_Policy True None (F_Fin 1) []"

definition SERVER_KIND :: int where "SERVER_KIND = 2"

datatype sample_decision = Keep | Drop

definition is_error_span :: "span \<Rightarrow> bool" where
  "is_error_span s \<longleftrightarrow> ss_code (sp_status s) = 2"

definition has_slow_span :: "u64 \<Rightarrow> span list \<Rightarrow> bool" where
  "has_slow_span ms spans \<longleftrightarrow>
     list_ex (\<lambda>s. duration_ns s \<ge> int (unat ms) * 1000000) (filter (\<lambda>s. sp_kind s = SERVER_KIND) spans)"

definition decide :: "(u8 list \<Rightarrow> u64) \<Rightarrow> (rat \<Rightarrow> fval) \<Rightarrow> tail_policy \<Rightarrow> u8 list \<Rightarrow> span list \<Rightarrow> sample_decision" where
  "decide hash fl policy trace_id spans =
     (if keep_errors policy \<and> list_ex is_error_span spans then Keep
      else if (case slow_trace_ms policy of None \<Rightarrow> False | Some ms \<Rightarrow> has_slow_span ms spans) then Keep
      else let ratio = f_clamp (sampling_ratio policy) 0 1
           in if f_le (F_Fin 1) ratio then Keep
              else if f_le ratio (F_Fin 0) then Drop
              else let bucket = hash trace_id mod 10000;
                       bound = (case ratio of F_Fin q \<Rightarrow> fl (q * 10000) | r \<Rightarrow> r)
                   in if f_lt (F_Fin (of_nat (unat bucket))) bound then Keep else Drop)"

definition policy_is_keep_all :: "tail_policy \<Rightarrow> bool" where
  "policy_is_keep_all policy \<longleftrightarrow> per_service policy = [] \<and> f_le (F_Fin 1) (sampling_ratio policy)"

definition policy_for_service :: "tail_policy \<Rightarrow> string \<Rightarrow> tail_policy" where
  "policy_for_service policy service =
     (case map_of (per_service policy) service of Some p \<Rightarrow> p | None \<Rightarrow> policy)"

definition group_by_trace :: "span list \<Rightarrow> (u8 list \<times> span list) list" where
  "group_by_trace spans = fold (\<lambda>s m. AList.update (sp_trace_id s)
     ((case map_of m (sp_trace_id s) of None \<Rightarrow> [] | Some g \<Rightarrow> g) @ [s]) m) spans []"

definition service_of :: "span list \<Rightarrow> string" where
  "service_of grp = (case grp of [] \<Rightarrow> [] | s # _ \<Rightarrow>
     (case ls_get (sp_attributes s) ''service.name'' of None \<Rightarrow> [] | Some v \<Rightarrow> v))"

definition decide_group :: "(u8 list \<Rightarrow> u64) \<Rightarrow> (rat \<Rightarrow> fval) \<Rightarrow> tail_policy \<Rightarrow> span list \<Rightarrow> sample_decision" where
  "decide_group hash fl policy grp =
     (let tid = (case grp of [] \<Rightarrow> replicate 16 0 | s # _ \<Rightarrow> sp_trace_id s)
      in decide hash fl (policy_for_service policy (service_of grp)) tid grp)"

type_synonym trace_groups = "(u8 list \<times> span list) list"

definition sample_spans ::
  "(u8 list \<Rightarrow> u64) \<Rightarrow> (rat \<Rightarrow> fval) \<Rightarrow> (trace_groups \<Rightarrow> trace_groups) \<Rightarrow> tail_policy \<Rightarrow> span list \<Rightarrow> span list \<times> u64" where
  "sample_spans hash fl order policy spans =
     (if policy_is_keep_all policy then (spans, 0)
      else fold (\<lambda>(tid, grp) (kept, dropped).
             case decide_group hash fl policy grp of
               Keep \<Rightarrow> (kept @ grp, dropped)
             | Drop \<Rightarrow> (kept, dropped + of_nat (length grp)))
           (order (group_by_trace spans)) ([], 0))"

subsection \<open>Span metrics\<close>

record span_acc =
  sa_requests :: "data_point list"
  sa_errors :: "data_point list"
  sa_durations :: "data_point list"

definition ONE_F64 :: f64 where "ONE_F64 = 0x3FF0000000000000"

definition ZERO_F64 :: f64 where "ZERO_F64 = 0"

definition span_point :: "i64 \<Rightarrow> f64 \<Rightarrow> label_set \<Rightarrow> data_point" where
  "span_point ts v ls = \<lparr>dp_timestamp_ns = ts, dp_value = Double v, dp_labels = ls\<rparr>"

text \<open>One span: \<open>a\<close> is the address of its label set, \<open>ms\<close> the double of a duration in milliseconds.\<close>

definition span_service :: "span \<Rightarrow> string" where
  "span_service s = (case ls_get (sp_attributes s) ''service.name'' of None \<Rightarrow> ''unknown'' | Some v \<Rightarrow> v)"

definition span_labels :: "nat \<Rightarrow> span \<Rightarrow> label_set result" where
  "span_labels a s = try_from_iter a [(''service'', span_service s), (''operation'', sp_name s), (''service.name'', span_service s)]"

definition observe_span ::
  "(i64 \<Rightarrow> f64) \<Rightarrow> nat \<times> span \<Rightarrow> ((string \<times> string) \<times> span_acc) list \<Rightarrow> ((string \<times> string) \<times> span_acc) list" where
  "observe_span ms as by_series =
     (case as of (a, s) \<Rightarrow>
        if sp_kind s \<noteq> SERVER_KIND then by_series
        else let key = (span_service s, sp_name s);
                 entry = (case map_of by_series key of
                            None \<Rightarrow> \<lparr>sa_requests = [], sa_errors = [], sa_durations = []\<rparr> | Some e \<Rightarrow> e)
             in case span_labels a s of
                  Inl _ \<Rightarrow> AList.update key entry by_series
                | Inr ls \<Rightarrow>
                    AList.update key
                      \<lparr>sa_requests = sa_requests entry @ [span_point (sp_start_time_ns s) ONE_F64 ls],
                       sa_errors = sa_errors entry @ [span_point (sp_start_time_ns s)
                         (if is_error_span s then ONE_F64 else ZERO_F64) ls],
                       sa_durations = sa_durations entry @ [span_point (sp_start_time_ns s) (ms (duration_ns s)) ls]\<rparr>
                      by_series)"

definition span_metric :: "string \<Rightarrow> string \<Rightarrow> data_point list \<Rightarrow> metric list" where
  "span_metric name unit_name dps =
     (if dps = [] then []
      else [\<lparr>m_name = name, m_description = ''Derived from trace spans by the span-metrics RED bridge'',
             m_unit = unit_name, m_kind = Gauge, m_resource_attributes = default_labels, m_data_points = dps\<rparr>])"

definition derive_span_metrics :: "(i64 \<Rightarrow> f64) \<Rightarrow> nat \<Rightarrow> span list \<Rightarrow> metric list" where
  "derive_span_metrics ms base spans =
     (let by_series = sort_key fst (fold (observe_span ms) (enumerate base spans) []);
          accs = map snd by_series
      in span_metric ''traces_service_requests_total'' ''1'' (concat (map sa_requests accs))
         @ span_metric ''traces_service_errors_total'' ''1'' (concat (map sa_errors accs))
         @ span_metric ''traces_service_duration_ms'' ''ms'' (concat (map sa_durations accs)))"

subsection \<open>Groups are whole traces\<close>

definition trace_spans :: "u8 list \<Rightarrow> span list \<Rightarrow> span list" where
  "trace_spans tid spans = filter (\<lambda>s. sp_trace_id s = tid) spans"

lemma group_by_trace_snoc:
  "group_by_trace (spans @ [s]) = AList.update (sp_trace_id s)
     ((case map_of (group_by_trace spans) (sp_trace_id s) of None \<Rightarrow> [] | Some g \<Rightarrow> g) @ [s]) (group_by_trace spans)"
  by (simp add: group_by_trace_def)

lemma group_by_trace_lookup:
  "map_of (group_by_trace spans) tid = (if trace_spans tid spans = [] then None else Some (trace_spans tid spans))"
proof (induction spans rule: rev_induct)
  case Nil
  then show ?case by (simp add: group_by_trace_def trace_spans_def)
next
  case (snoc s spans)
  then show ?case by (auto simp: group_by_trace_snoc update_conv' trace_spans_def split: if_splits)
qed

lemma group_by_trace_distinct: "distinct (map fst (group_by_trace spans))"
proof (induction spans rule: rev_induct)
  case (snoc s spans)
  then show ?case by (simp add: group_by_trace_snoc distinct_update)
qed (simp add: group_by_trace_def)

lemma group_by_trace_group: "(tid, g) \<in> set (group_by_trace spans) \<Longrightarrow> g = trace_spans tid spans"
  using map_of_is_SomeI [OF group_by_trace_distinct] group_by_trace_lookup [of spans tid] by (fastforce split: if_splits)

lemma group_by_trace_keys: "s \<in> set spans \<Longrightarrow> sp_trace_id s \<in> fst ` set (group_by_trace spans)"
  using group_by_trace_lookup [of spans "sp_trace_id s"]
  by (auto simp: trace_spans_def filter_empty_conv dom_map_of_conv_image_fst [symmetric] dom_def)

lemma sample_fold:
  "fold (\<lambda>(tid, grp) (kept, dropped). case decide_group hash fl policy grp of
       Keep \<Rightarrow> (kept @ grp, dropped) | Drop \<Rightarrow> (kept, dropped + of_nat (length grp))) gs (k, d)
   = (k @ concat (map snd (filter (\<lambda>g. decide_group hash fl policy (snd g) = Keep) gs)),
      d + of_nat (sum_list (map (\<lambda>g. length (snd g)) (filter (\<lambda>g. decide_group hash fl policy (snd g) \<noteq> Keep) gs))))"
proof (induction gs arbitrary: k d)
  case (Cons g gs)
  then show ?case by (cases g; cases "decide_group hash fl policy (snd g)") (auto simp: add.assoc)
qed simp

lemma sum_groups_permuted:
  fixes F :: "span list \<Rightarrow> 'c :: comm_monoid_add"
  assumes "mset gs' = mset gs"
  shows "(\<Sum>g\<leftarrow>filter Q gs'. F (snd g)) = (\<Sum>g\<leftarrow>filter Q gs. F (snd g))"
proof -
  have "mset (map (\<lambda>g. F (snd g)) (filter Q gs')) = mset (map (\<lambda>g. F (snd g)) (filter Q gs))"
    by (simp add: assms)
  then show ?thesis by (metis sum_mset_sum_list)
qed

lemma sum_groups_filter:
  "(\<Sum>g\<leftarrow>filter (\<lambda>g. Q (snd g)) (group_by_trace spans). F (snd g)) =
    (\<Sum>tid\<leftarrow>filter (\<lambda>tid. Q (trace_spans tid spans)) (map fst (group_by_trace spans)). F (trace_spans tid spans))"
proof -
  let ?gs = "filter (\<lambda>g. Q (trace_spans (fst g) spans)) (group_by_trace spans)"
  have "filter (\<lambda>g. Q (snd g)) (group_by_trace spans) = ?gs"
    using group_by_trace_group by (intro filter_cong) auto
  moreover have "map (\<lambda>g. F (snd g)) ?gs = map (\<lambda>g. F (trace_spans (fst g) spans)) ?gs"
    using group_by_trace_group by (intro map_cong) auto
  ultimately show ?thesis unfolding filter_map map_map comp_def by metis
qed

lemma sum_traces_filter:
  fixes m :: "span \<Rightarrow> 'c :: comm_monoid_add"
  shows "(\<Sum>tid\<leftarrow>filter P (map fst (group_by_trace spans)). \<Sum>s\<leftarrow>trace_spans tid spans. m s) =
    (\<Sum>s\<leftarrow>filter (\<lambda>s. P (sp_trace_id s)) spans. m s)"
proof -
  let ?ks = "filter P (map fst (group_by_trace spans))"
  have "(\<Sum>k\<leftarrow>?ks. \<Sum>s\<leftarrow>filter (\<lambda>s. sp_trace_id s = k) (filter (\<lambda>s. P (sp_trace_id s)) spans). m s) =
      (\<Sum>s\<leftarrow>filter (\<lambda>s. P (sp_trace_id s)) spans. m s)"
    using group_by_trace_keys by (intro sum_list_groups) (auto simp: group_by_trace_distinct)
  moreover have "(\<Sum>s\<leftarrow>filter (\<lambda>s. sp_trace_id s = k) (filter (\<lambda>s. P (sp_trace_id s)) spans). m s) =
      (\<Sum>s\<leftarrow>trace_spans k spans. m s)" if "k \<in> set ?ks" for k
    using that by (auto simp: trace_spans_def intro!: arg_cong [where f = "\<lambda>xs. sum_list (map m xs)"] filter_cong)
  then have "map (\<lambda>k. \<Sum>s\<leftarrow>filter (\<lambda>s. sp_trace_id s = k) (filter (\<lambda>s. P (sp_trace_id s)) spans). m s) ?ks =
      map (\<lambda>k. \<Sum>s\<leftarrow>trace_spans k spans. m s) ?ks"
    by (intro map_cong refl)
  ultimately show ?thesis by metis
qed

lemma sum_sampled_groups:
  fixes m :: "span \<Rightarrow> 'c :: comm_monoid_add"
  assumes "\<And>gs. mset (order gs) = mset gs"
  shows "(\<Sum>g\<leftarrow>filter (\<lambda>g. Q (snd g)) (order (group_by_trace spans)). \<Sum>s\<leftarrow>snd g. m s) =
    (\<Sum>s\<leftarrow>filter (\<lambda>s. Q (trace_spans (sp_trace_id s) spans)) spans. m s)"
  using sum_groups_permuted [OF assms [of "group_by_trace spans"], where F = "\<lambda>grp. \<Sum>s\<leftarrow>grp. m s" and Q = "\<lambda>g. Q (snd g)"]
    sum_groups_filter [where Q = Q and F = "\<lambda>grp. \<Sum>s\<leftarrow>grp. m s" and spans = spans]
    sum_traces_filter [where m = m and P = "\<lambda>tid. Q (trace_spans tid spans)" and spans = spans]
  by simp

text \<open>The traces of a batch that are stored.\<close>

definition keeps_trace :: "(u8 list \<Rightarrow> u64) \<Rightarrow> (rat \<Rightarrow> fval) \<Rightarrow> tail_policy \<Rightarrow> span list \<Rightarrow> u8 list \<Rightarrow> bool" where
  "keeps_trace hash fl policy spans tid \<longleftrightarrow>
     policy_is_keep_all policy \<or> decide_group hash fl policy (trace_spans tid spans) = Keep"

lemma mset_sum_singletons: "mset xs = (\<Sum>x\<leftarrow>xs. {#x#})"
  by (induction xs) auto

lemma length_sum_ones: "length xs = (\<Sum>x\<leftarrow>xs. 1)"
  by (induction xs) auto

lemma kept_groups:
  assumes "\<And>gs. mset (order gs) = mset gs"
  shows "mset (concat (map snd (filter (\<lambda>g. Q (snd g)) (order (group_by_trace spans))))) =
    mset (filter (\<lambda>s. Q (trace_spans (sp_trace_id s) spans)) spans)"
  using sum_sampled_groups [OF assms, where m = "\<lambda>s. {#s#}" and Q = Q and spans = spans]
  by (simp only: mset_concat_sum map_map comp_def mset_sum_singletons [symmetric])

lemma dropped_groups:
  assumes "\<And>gs. mset (order gs) = mset gs"
  shows "(\<Sum>g\<leftarrow>filter (\<lambda>g. Q (snd g)) (order (group_by_trace spans)). length (snd g)) =
    length (filter (\<lambda>s. Q (trace_spans (sp_trace_id s) spans)) spans)"
  using sum_sampled_groups [OF assms, where m = "\<lambda>s. 1 :: nat" and Q = Q and spans = spans]
  by (simp only: length_sum_ones [symmetric])

lemma sample_spans_result:
  assumes "\<And>gs. mset (order gs) = mset gs"
  shows "mset (fst (sample_spans hash fl order policy spans)) =
      mset (filter (\<lambda>s. keeps_trace hash fl policy spans (sp_trace_id s)) spans)"
    and "snd (sample_spans hash fl order policy spans) =
      of_nat (length (filter (\<lambda>s. \<not> keeps_trace hash fl policy spans (sp_trace_id s)) spans))"
proof -
  note kept = kept_groups [OF assms, where Q = "\<lambda>grp. decide_group hash fl policy grp = Keep" and spans = spans]
  note dropped = dropped_groups [OF assms, where Q = "\<lambda>grp. decide_group hash fl policy grp \<noteq> Keep" and spans = spans]
  show "mset (fst (sample_spans hash fl order policy spans)) =
      mset (filter (\<lambda>s. keeps_trace hash fl policy spans (sp_trace_id s)) spans)"
  proof (cases "policy_is_keep_all policy")
    case False
    then show ?thesis using kept
      by (simp only: sample_spans_def sample_fold keeps_trace_def if_False fst_conv append_Nil simp_thms)
  qed (simp add: sample_spans_def keeps_trace_def)
  show "snd (sample_spans hash fl order policy spans) =
      of_nat (length (filter (\<lambda>s. \<not> keeps_trace hash fl policy spans (sp_trace_id s)) spans))"
  proof (cases "policy_is_keep_all policy")
    case False
    then show ?thesis using dropped
      by (simp only: sample_spans_def sample_fold keeps_trace_def if_False snd_conv add_0 simp_thms)
  qed (simp add: sample_spans_def keeps_trace_def)
qed

text \<open>The policy that applies to a trace is the one of the service of its first span.\<close>

definition trace_policy :: "tail_policy \<Rightarrow> span list \<Rightarrow> u8 list \<Rightarrow> tail_policy" where
  "trace_policy policy spans tid = policy_for_service policy (service_of (trace_spans tid spans))"

lemma decide_keeps:
  assumes "(keep_errors policy \<and> (\<exists>s\<in>set spans. is_error_span s)) \<or>
    (\<exists>ms. slow_trace_ms policy = Some ms \<and> has_slow_span ms spans)"
  shows "decide hash fl policy tid spans = Keep"
  using assms by (auto simp: decide_def list_ex_iff)

lemma keeps_trace_group:
  "decide_group hash fl policy (trace_spans tid spans) =
     decide hash fl (trace_policy policy spans tid)
       (case trace_spans tid spans of [] \<Rightarrow> replicate 16 0 | s # _ \<Rightarrow> sp_trace_id s) (trace_spans tid spans)"
  by (simp add: decide_group_def trace_policy_def)

text \<open>C29: 
  C0: Whatever order the hash map of groups is iterated in, sampling a batch stores whole
  traces: the stored spans are exactly those of the traces that are kept, with their
  multiplicities, the dropped ones are counted, and a trace that has an error or a slow
  server span under the policy of its service is stored in full.
\<close>

theorem sampling_keeps_whole_traces:
  assumes order: "\<And>gs. mset (order gs) = mset gs"
    and bound: "length spans < 2 ^ 64"
    and result: "sample_spans hash fl order policy spans = (kept, dropped)"
  shows "(\<exists>keep. mset kept = mset (filter (\<lambda>s. keep (sp_trace_id s)) spans)) \<and>
    length kept + unat dropped = length spans \<and>
    (keep_errors (trace_policy policy spans tid) \<and> (\<exists>s\<in>set (trace_spans tid spans). is_error_span s) \<longrightarrow>
       mset (trace_spans tid kept) = mset (trace_spans tid spans)) \<and>
    (slow_trace_ms (trace_policy policy spans tid) = Some ms \<and> has_slow_span ms (trace_spans tid spans) \<longrightarrow>
       mset (trace_spans tid kept) = mset (trace_spans tid spans))"
proof -
  let ?keep = "keeps_trace hash fl policy spans"
  have kept: "mset kept = mset (filter (\<lambda>s. ?keep (sp_trace_id s)) spans)"
    and dropped: "dropped = of_nat (length (filter (\<lambda>s. \<not> ?keep (sp_trace_id s)) spans))"
    using sample_spans_result [OF order, of hash fl policy spans] by (simp_all add: result)
  have "length kept = length (filter (\<lambda>s. ?keep (sp_trace_id s)) spans)"
    using kept by (metis size_mset)
  moreover have "unat dropped = length (filter (\<lambda>s. \<not> ?keep (sp_trace_id s)) spans)"
    unfolding dropped using le_less_trans [OF length_filter_le bound] by (simp add: unat_of_nat take_bit_nat_eq_self)
  ultimately have count: "length kept + unat dropped = length spans"
    by (simp add: sum_length_filter_compl)
  have whole: "mset (trace_spans tid kept) = mset (trace_spans tid spans)" if "?keep tid"
  proof -
    have "mset (trace_spans tid kept) = filter_mset (\<lambda>s. sp_trace_id s = tid) (mset (filter (\<lambda>s. ?keep (sp_trace_id s)) spans))"
      unfolding trace_spans_def kept [symmetric] by (rule mset_filter)
    also have "\<dots> = mset (trace_spans tid spans)"
      using that by (auto simp: trace_spans_def simp flip: mset_filter intro!: arg_cong [where f = mset] filter_cong)
    finally show ?thesis .
  qed
  have "?keep tid" if "(keep_errors (trace_policy policy spans tid) \<and> (\<exists>s\<in>set (trace_spans tid spans). is_error_span s)) \<or>
      (\<exists>ms. slow_trace_ms (trace_policy policy spans tid) = Some ms \<and> has_slow_span ms (trace_spans tid spans))"
    using decide_keeps [OF that] by (simp add: keeps_trace_def keeps_trace_group)
  then show ?thesis using whole by (intro conjI exI [of _ ?keep] kept count) blast+
qed

definition sampled_span :: "u8 \<Rightarrow> int \<Rightarrow> i64 \<Rightarrow> span" where
  "sampled_span tid code end_ns = \<lparr>sp_trace_id = [tid], sp_span_id = [], sp_trace_state = [], sp_name = ''GET'', sp_kind = 2,
     sp_start_time_ns = 0, sp_end_time_ns = end_ns, sp_attributes = default_labels, sp_events = [], sp_links = [],
     sp_status = \<lparr>ss_code = code, ss_message = []\<rparr>, sp_parent_span_id = [], sp_flags = 0\<rparr>"

definition sampled_batch :: "span list" where
  "sampled_batch = [sampled_span 1 0 5, sampled_span 2 0 7, sampled_span 1 2 6, sampled_span 3 0 9000000]"

definition errors_only :: tail_policy where
  "errors_only = Tail_Policy True (Some 9) (F_Fin 0) []"

theorem sampling_keeps_whole_traces_witness:
  "sample_spans (\<lambda>_. 0) F_Fin rev errors_only sampled_batch =
     ([sampled_span 3 0 9000000, sampled_span 1 0 5, sampled_span 1 2 6], 1) \<and>
   mset (trace_spans [1] [sampled_span 3 0 9000000, sampled_span 1 0 5, sampled_span 1 2 6]) = mset (trace_spans [1] sampled_batch) \<and>
   length [sampled_span 3 0 9000000, sampled_span 1 0 5, sampled_span 1 2 6] + unat (1 :: u64) = length sampled_batch"
proof -
  have run: "sample_spans (\<lambda>_. 0) F_Fin rev errors_only sampled_batch =
     ([sampled_span 3 0 9000000, sampled_span 1 0 5, sampled_span 1 2 6], 1)"
    by code_simp
  have "keep_errors (trace_policy errors_only sampled_batch [1])" "list_ex is_error_span (trace_spans [1] sampled_batch)"
    by code_simp+
  then show ?thesis
    using sampling_keeps_whole_traces [OF _ _ run, of "[1]" 0] run by (simp add: list_ex_iff sampled_batch_def)
qed

end
