(* ===== verification/Ingest.thy ===== *)
theory Ingest
  imports Serial_Rotator Rotator_Proofs Tail_Sampling
begin

section \<open>The ingestion services\<close>

text \<open>
  The three services of \<^verbatim>\<open>parqtel-ingest/src/service.rs\<close> that the transports call: metrics in
  front of the sharded rotator, logs and traces in front of a serial one. A request arrives as
  bytes or decoded; the protobuf and JSON parsers and the decoder are arguments, as is a panic of
  the task that runs them. The shared memory buffer is the one of the rotator, so a service only
  records that it has one. Lock-wait histograms and log lines have no part here.
\<close>

subsection \<open>Counters and decoding\<close>

record ingestion_stats =
  st_total_batches :: u64
  st_failed_batches :: u64
  st_ingested_points :: u64
  st_dropped_spans :: u64

definition stats_default :: ingestion_stats where
  "stats_default = \<lparr>st_total_batches = 0, st_failed_batches = 0, st_ingested_points = 0, st_dropped_spans = 0\<rparr>"

definition decode_offloading :: "string option \<Rightarrow> 'a result \<Rightarrow> 'a result" where
  "decode_offloading panic decoded =
     (case panic of Some e \<Rightarrow> Inl (Internal (''decode task panicked: '' @ e)) | None \<Rightarrow> decoded)"

text \<open>The two byte decoders: a parser of the wire format, then the decoder of the parsed request.\<close>

definition decode_proto :: "(byte list \<Rightarrow> string + 'req) \<Rightarrow> ('req \<Rightarrow> 'a result) \<Rightarrow> byte list \<Rightarrow> 'a result" where
  "decode_proto parse decoder body =
     (case parse body of Inl e \<Rightarrow> Inl (Validation (''Protobuf decode error: '' @ e)) | Inr req \<Rightarrow> decoder req)"

definition decode_json :: "(byte list \<Rightarrow> string + 'req) \<Rightarrow> ('req \<Rightarrow> 'a result) \<Rightarrow> byte list \<Rightarrow> 'a result" where
  "decode_json parse decoder body =
     (case parse body of Inl e \<Rightarrow> Inl (Validation (''JSON parse error: '' @ e)) | Inr json \<Rightarrow> decoder json)"

subsection \<open>The points of the memory buffer\<close>

text \<open>The labels of one point: \<open>resolved\<close> is the hash map of the label sets already built, keyed by
  contents, \<open>a\<close> a fresh address for a set the interner has to build.\<close>

definition resolve_labels ::
  "(string \<Rightarrow> string \<Rightarrow> u64) \<Rightarrow> string \<Rightarrow> nat \<Rightarrow> label_set \<Rightarrow> (entries \<times> label_set) list \<times> interner
     \<Rightarrow> label_set \<times> (entries \<times> label_set) list \<times> interner" where
  "resolve_labels hp svc a ls memo =
     (case memo of (resolved, st) \<Rightarrow>
        case map_of resolved (ls_entries ls) of
          Some l \<Rightarrow> (l, resolved, st)
        | None \<Rightarrow>
            (case (if ls_get ls ''service.name'' \<noteq> None then (ls, st) else intern_with hp a st ls ''service.name'' svc) of
               (l, st1) \<Rightarrow> (l, (ls_entries ls, l) # resolved, st1)))"

fun resolve_points ::
  "(string \<Rightarrow> string \<Rightarrow> u64) \<Rightarrow> string \<Rightarrow> nat \<Rightarrow> (entries \<times> label_set) list \<times> interner \<Rightarrow> data_point list
     \<Rightarrow> data_point list \<times> interner" where
  "resolve_points hp svc a memo [] = ([], snd memo)"
| "resolve_points hp svc a memo (dp # dps) =
     (case resolve_labels hp svc a (dp_labels dp) memo of
        (l, memo1) \<Rightarrow>
          (case resolve_points hp svc (a + 1) memo1 dps of
             (dps', st2) \<Rightarrow> (dp\<lparr>dp_labels := l\<rparr> # dps', st2)))"

definition buffer_points ::
  "(string \<Rightarrow> string \<Rightarrow> u64) \<Rightarrow> nat \<Rightarrow> interner \<Rightarrow> metric \<Rightarrow> data_point list \<times> interner" where
  "buffer_points hp a st m =
     (case ls_get (m_resource_attributes m) ''service.name'' of
        None \<Rightarrow> (m_data_points m, st)
      | Some svc \<Rightarrow> resolve_points hp svc a ([], st) (m_data_points m))"

subsection \<open>Metrics\<close>

record ingestion_service =
  isv_rotator :: rotator
  isv_stats :: ingestion_stats
  isv_memory_buffer :: bool

definition ingestion_with_shards :: "u64 \<Rightarrow> block_config \<Rightarrow> nat \<Rightarrow> (wal_writer \<times> wal_dir) option \<Rightarrow> ingestion_service" where
  "ingestion_with_shards now config shards wal =
     \<lparr>isv_rotator = (case wal of None \<Rightarrow> with_shards now config shards | Some w \<Rightarrow> with_wal w (with_shards now config shards)),
      isv_stats = stats_default, isv_memory_buffer = False\<rparr>"

definition ingestion_new :: "u64 \<Rightarrow> block_config \<Rightarrow> ingestion_service" where
  "ingestion_new now config = ingestion_with_shards now config 1 None"

definition rotator_shards :: "ingestion_service \<Rightarrow> nat" where
  "rotator_shards s = length (ro_shards (isv_rotator s))"

definition with_memory_buffer :: "memory_buffer \<Rightarrow> ingestion_service \<Rightarrow> ingestion_service" where
  "with_memory_buffer b s = s\<lparr>isv_rotator := set_buffer (Some b) (isv_rotator s), isv_memory_buffer := True\<rparr>"

definition ingestion_start_flush_worker :: "nat \<Rightarrow> ingestion_service \<Rightarrow> ingestion_service" where
  "ingestion_start_flush_worker n s = s\<lparr>isv_rotator := start_flush_worker n (isv_rotator s)\<rparr>"

text \<open>The outcomes of the I/O of a request: for the push of the \<open>i\<close>-th metric, and for the check of the
  block's age that ends it.\<close>

record ingest_io =
  ii_jobs :: "nat \<Rightarrow> job_io"
  ii_pushes :: "nat \<Rightarrow> push_io"
  ii_addr :: "nat \<Rightarrow> nat"
  ii_now :: u64
  ii_check :: job_io

fun push_each_metric ::
  "rotator_env \<Rightarrow> (string \<Rightarrow> string \<Rightarrow> u64) \<Rightarrow> ingest_io \<Rightarrow> nat \<Rightarrow> metric list \<Rightarrow> u64
     \<Rightarrow> ingestion_service \<times> interner \<Rightarrow> u64 result \<times> ingestion_service \<times> interner" where
  "push_each_metric env hp io i [] cnt (s, st) = (Inr cnt, s, st)"
| "push_each_metric env hp io i (m # ms) cnt (s, st) =
     (let cnt' = cnt + of_nat (length (m_data_points m));
          (buffered_points, st1) = (if isv_memory_buffer s
             then (case buffer_points hp (ii_addr io i) st m of (dps, st') \<Rightarrow> (Some dps, st')) else (None, st))
      in case push_buffered env (ii_jobs io i) (ii_pushes io i) m buffered_points (isv_rotator s) of
           (Inl e, r) \<Rightarrow> (Inl e, s\<lparr>isv_rotator := r\<rparr>, st1)
         | (Inr _, r) \<Rightarrow> push_each_metric env hp io (i + 1) ms cnt' (s\<lparr>isv_rotator := r\<rparr>, st1))"

definition add_ingested :: "u64 \<Rightarrow> ingestion_stats \<Rightarrow> ingestion_stats" where
  "add_ingested n st = st\<lparr>st_ingested_points := st_ingested_points st + n\<rparr>"

definition process_metrics ::
  "rotator_env \<Rightarrow> (string \<Rightarrow> string \<Rightarrow> u64) \<Rightarrow> ingest_io \<Rightarrow> metric list
     \<Rightarrow> ingestion_service \<times> interner \<Rightarrow> u64 result \<times> ingestion_service \<times> interner" where
  "process_metrics env hp io ms sst =
     (case push_each_metric env hp io 0 ms 0 sst of
        (Inl e, sst1) \<Rightarrow> (Inl e, sst1)
      | (Inr cnt, s, st) \<Rightarrow>
          (case check_and_flush (ii_now io) (ii_check io) (isv_rotator s) of
             (Inl e, r) \<Rightarrow> (Inl e, s\<lparr>isv_rotator := r\<rparr>, st)
           | (Inr _, r) \<Rightarrow>
               (Inr cnt, s\<lparr>isv_rotator := r, isv_stats := add_ingested cnt (isv_stats s)\<rparr>, st)))"

definition count_batch :: "ingestion_stats \<Rightarrow> ingestion_stats" where
  "count_batch st = st\<lparr>st_total_batches := st_total_batches st + 1\<rparr>"

definition count_failed :: "ingestion_stats \<Rightarrow> ingestion_stats" where
  "count_failed st = st\<lparr>st_failed_batches := st_failed_batches st + 1\<rparr>"

definition ingest_metrics ::
  "rotator_env \<Rightarrow> (string \<Rightarrow> string \<Rightarrow> u64) \<Rightarrow> ingest_io \<Rightarrow> metric list
     \<Rightarrow> ingestion_service \<times> interner \<Rightarrow> u64 result \<times> ingestion_service \<times> interner" where
  "ingest_metrics env hp io ms sst =
     (case sst of (s, st) \<Rightarrow> process_metrics env hp io ms (s\<lparr>isv_stats := count_batch (isv_stats s)\<rparr>, st))"

text \<open>What the three decoding entry points share: count the batch, decode, count a failure.\<close>

definition ingest_decoded ::
  "rotator_env \<Rightarrow> (string \<Rightarrow> string \<Rightarrow> u64) \<Rightarrow> ingest_io \<Rightarrow> string option \<Rightarrow> metric list result
     \<Rightarrow> ingestion_service \<times> interner \<Rightarrow> u64 result \<times> ingestion_service \<times> interner" where
  "ingest_decoded env hp io panic decoded sst =
     (case sst of (s, st) \<Rightarrow>
        let s1 = s\<lparr>isv_stats := count_batch (isv_stats s)\<rparr>
        in case decode_offloading panic decoded of
             Inl e \<Rightarrow> (Inl e, s1\<lparr>isv_stats := count_failed (isv_stats s1)\<rparr>, st)
           | Inr ms \<Rightarrow> process_metrics env hp io ms (s1, st))"

definition ingest_proto where
  "ingest_proto env hp io panic parse decode_metrics body sst =
     ingest_decoded env hp io panic (decode_proto parse decode_metrics body) sst"

definition ingest_request where
  "ingest_request env hp io panic decode_metrics request sst =
     ingest_decoded env hp io panic (decode_metrics request) sst"

definition ingest_json where
  "ingest_json env hp io panic parse decode_metrics_json body sst =
     ingest_decoded env hp io panic (decode_json parse decode_metrics_json body) sst"

definition ingestion_check_and_flush :: "u64 \<Rightarrow> job_io \<Rightarrow> ingestion_service \<Rightarrow> bool result \<times> ingestion_service" where
  "ingestion_check_and_flush now io s =
     (case check_and_flush now io (isv_rotator s) of (res, r) \<Rightarrow> (res, s\<lparr>isv_rotator := r\<rparr>))"

definition schedule_flush_for_test :: "job_io \<Rightarrow> ingestion_service \<Rightarrow> bool result \<times> ingestion_service" where
  "schedule_flush_for_test io s =
     (case rotator_flush io (isv_rotator s) of
        (Inl e, r) \<Rightarrow> (Inl e, s\<lparr>isv_rotator := r\<rparr>)
      | (Inr _, r) \<Rightarrow> (Inr True, s\<lparr>isv_rotator := r\<rparr>))"

definition ingestion_shutdown :: "u64 \<Rightarrow> job_io \<Rightarrow> (nat \<Rightarrow> job_io) \<Rightarrow> ingestion_service \<Rightarrow> unit result \<times> ingestion_service" where
  "ingestion_shutdown now io ios s =
     (Inr (), s\<lparr>isv_rotator := stop_flush_worker now ios (snd (rotator_flush io (isv_rotator s)))\<rparr>)"

definition read_stats :: "ingestion_stats \<Rightarrow> u64 \<times> u64 \<times> u64" where
  "read_stats st = (st_total_batches st, st_failed_batches st, st_ingested_points st)"

subsection \<open>Logs and traces\<close>

text \<open>Both services keep a serial rotator; the trace service has a sampling policy and the channel of
  the span metrics, here the batches sent to it.\<close>

record 'r serial_service =
  sv_rotator :: "'r serial_rotator"
  sv_wal_enabled :: bool
  sv_stats :: ingestion_stats
  sv_memory_buffer :: bool

record trace_service = "span serial_service" +
  ts_span_metrics_tx :: "metric list list option"
  ts_tail_sampling :: tail_policy

definition wal_rotator :: "nat \<Rightarrow> string \<Rightarrow> nat \<Rightarrow> nat \<Rightarrow> (wal_writer \<times> wal_dir) option \<Rightarrow> 'r serial_rotator" where
  "wal_rotator now dir max_rows duration wal =
     (case wal of None \<Rightarrow> serial_new now dir max_rows duration
      | Some w \<Rightarrow> serial_with_wal w (serial_new now dir max_rows duration))"

definition log_service_with_wal ::
  "nat \<Rightarrow> string \<Rightarrow> nat \<Rightarrow> nat \<Rightarrow> (wal_writer \<times> wal_dir) option \<Rightarrow> log_record serial_service" where
  "log_service_with_wal now dir max_rows duration wal =
     \<lparr>sv_rotator = wal_rotator now dir max_rows duration wal, sv_wal_enabled = (wal \<noteq> None),
      sv_stats = stats_default, sv_memory_buffer = False\<rparr>"

definition trace_service_with_wal ::
  "nat \<Rightarrow> string \<Rightarrow> nat \<Rightarrow> nat \<Rightarrow> (wal_writer \<times> wal_dir) option \<Rightarrow> trace_service" where
  "trace_service_with_wal now dir max_rows duration wal =
     \<lparr>sv_rotator = wal_rotator now dir max_rows duration wal, sv_wal_enabled = (wal \<noteq> None),
      sv_stats = stats_default, sv_memory_buffer = False,
      ts_span_metrics_tx = None, ts_tail_sampling = tail_policy_default\<rparr>"

definition serial_with_memory_buffer :: "memory_buffer \<Rightarrow> ('r, 'z) serial_service_scheme \<Rightarrow> ('r, 'z) serial_service_scheme" where
  "serial_with_memory_buffer b s =
     s\<lparr>sv_rotator := serial_set_buffer (Some b) (sv_rotator s), sv_memory_buffer := True\<rparr>"

definition with_span_metrics :: "metric list list \<Rightarrow> trace_service \<Rightarrow> trace_service" where
  "with_span_metrics tx s = s\<lparr>ts_span_metrics_tx := Some tx\<rparr>"

definition with_tail_sampling :: "tail_policy \<Rightarrow> trace_service \<Rightarrow> trace_service" where
  "with_tail_sampling policy s = s\<lparr>ts_tail_sampling := policy\<rparr>"

fun encode_rows :: "('r \<Rightarrow> string + byte list) \<Rightarrow> (byte list \<Rightarrow> u32) \<Rightarrow> 'r list \<Rightarrow> byte list \<Rightarrow> byte list result" where
  "encode_rows ser crc [] bytes = Inr bytes"
| "encode_rows ser crc (row # rows) bytes =
     (case encode_record_into ser crc row bytes of Inl e \<Rightarrow> Inl e | Inr bytes' \<Rightarrow> encode_rows ser crc rows bytes')"

definition wal_records_of ::
  "('r \<Rightarrow> string + byte list) \<Rightarrow> (byte list \<Rightarrow> u32) \<Rightarrow> bool \<Rightarrow> 'r list \<Rightarrow> byte list option result" where
  "wal_records_of ser crc wal_enabled rows =
     (if wal_enabled then (case encode_rows ser crc rows [] of Inl e \<Rightarrow> Inl e | Inr bytes \<Rightarrow> Inr (Some bytes))
      else Inr None)"

text \<open>The I/O outcomes of a batch: its two waits, the append, the block files, and the final check.\<close>

record batch_io =
  bi_now :: nat
  bi_full :: job_io
  bi_wait :: job_io
  bi_append :: append_io
  bi_files :: "nat \<Rightarrow> file_out"
  bi_check :: job_io

text \<open>From the framing of the rows to the counters, which the log and the trace service share.\<close>

definition store_rows ::
  "('r \<Rightarrow> string + byte list) \<Rightarrow> (byte list \<Rightarrow> u32) \<Rightarrow> 'r row_writer \<Rightarrow> batch_io \<Rightarrow> u64 \<Rightarrow> 'r list
     \<Rightarrow> ('r, 'z) serial_service_scheme \<Rightarrow> u64 result \<times> ('r, 'z) serial_service_scheme" where
  "store_rows ser crc ops io cnt rows s =
     (case wal_records_of ser crc (sv_wal_enabled s) rows of
        Inl e \<Rightarrow> (Inl e, s)
      | Inr wal_records \<Rightarrow>
          (case push_batch ops (bi_now io) (bi_full io) (bi_wait io) (bi_append io) (bi_files io) rows wal_records (sv_rotator s) of
             (Inl e, r) \<Rightarrow> (Inl e, s\<lparr>sv_rotator := r\<rparr>)
           | (Inr _, r) \<Rightarrow>
               (case serial_check_and_flush ops (bi_now io) (bi_check io) r of
                  (Inl e, r') \<Rightarrow> (Inl e, s\<lparr>sv_rotator := r'\<rparr>)
                | (Inr _, r') \<Rightarrow>
                    (Inr cnt, s\<lparr>sv_rotator := r', sv_stats := add_ingested cnt (sv_stats s)\<rparr>))))"

definition ingest_logs ::
  "(log_record \<Rightarrow> string + byte list) \<Rightarrow> (byte list \<Rightarrow> u32) \<Rightarrow> batch_io \<Rightarrow> log_record list
     \<Rightarrow> log_record serial_service \<Rightarrow> u64 result \<times> log_record serial_service" where
  "ingest_logs ser crc io logs s = store_rows ser crc log_rows io (of_nat (length logs)) logs s"

text \<open>The parameters of sampling and span metrics.\<close>

record trace_env =
  te_ser :: "span \<Rightarrow> string + byte list"
  te_crc :: "byte list \<Rightarrow> u32"
  te_hash :: "u8 list \<Rightarrow> u64"
  te_round :: "rat \<Rightarrow> fval"
  te_order :: "trace_groups \<Rightarrow> trace_groups"
  te_ms :: "i64 \<Rightarrow> f64"

definition send_span_metrics :: "trace_env \<Rightarrow> nat \<Rightarrow> span list \<Rightarrow> trace_service \<Rightarrow> trace_service" where
  "send_span_metrics env a spans s =
     (case ts_span_metrics_tx s of
        None \<Rightarrow> s
      | Some sent \<Rightarrow>
          (let derived = derive_span_metrics (te_ms env) a spans
           in if derived = [] then s else s\<lparr>ts_span_metrics_tx := Some (sent @ [derived])\<rparr>))"

definition ingest_spans :: "trace_env \<Rightarrow> nat \<Rightarrow> batch_io \<Rightarrow> span list \<Rightarrow> trace_service \<Rightarrow> u64 result \<times> trace_service" where
  "ingest_spans env a io spans s =
     (let cnt = of_nat (length spans);
          s1 = send_span_metrics env a spans s
      in case sample_spans (te_hash env) (te_round env) (te_order env) (ts_tail_sampling s1) spans of
           (kept, dropped) \<Rightarrow>
             (let s2 = (if dropped > 0
                        then s1\<lparr>sv_stats := (sv_stats s1)\<lparr>st_dropped_spans := st_dropped_spans (sv_stats s1) + dropped\<rparr>\<rparr>
                        else s1)
              in store_rows (te_ser env) (te_crc env) trace_rows io cnt kept s2))"

text \<open>The entry points that decode, for either service, given how it ingests decoded rows.\<close>

definition serial_ingest_decoded ::
  "('r list \<Rightarrow> ('r, 'z) serial_service_scheme \<Rightarrow> u64 result \<times> ('r, 'z) serial_service_scheme) \<Rightarrow> string option
     \<Rightarrow> 'r list result \<Rightarrow> ('r, 'z) serial_service_scheme \<Rightarrow> u64 result \<times> ('r, 'z) serial_service_scheme" where
  "serial_ingest_decoded ingest panic decoded s =
     (let s1 = s\<lparr>sv_stats := count_batch (sv_stats s)\<rparr>
      in case decode_offloading panic decoded of
           Inl e \<Rightarrow> (Inl e, s1\<lparr>sv_stats := count_failed (sv_stats s1)\<rparr>)
         | Inr rows \<Rightarrow> ingest rows s1)"

definition log_ingest_proto where
  "log_ingest_proto ser crc io panic parse decode_logs body s =
     serial_ingest_decoded (ingest_logs ser crc io) panic (decode_proto parse decode_logs body) s"

definition log_ingest_request where
  "log_ingest_request ser crc io panic decode_logs request s =
     serial_ingest_decoded (ingest_logs ser crc io) panic (decode_logs request) s"

definition log_ingest_json where
  "log_ingest_json ser crc io panic parse decode_logs_json body s =
     serial_ingest_decoded (ingest_logs ser crc io) panic (decode_json parse decode_logs_json body) s"

definition trace_ingest_proto where
  "trace_ingest_proto env a io panic parse decode_traces body s =
     serial_ingest_decoded (ingest_spans env a io) panic (decode_proto parse decode_traces body) s"

definition trace_ingest_request where
  "trace_ingest_request env a io panic decode_traces request s =
     serial_ingest_decoded (ingest_spans env a io) panic (decode_traces request) s"

definition trace_ingest_json where
  "trace_ingest_json env a io panic parse decode_traces_json body s =
     serial_ingest_decoded (ingest_spans env a io) panic (decode_json parse decode_traces_json body) s"

definition service_check_and_flush ::
  "'r row_writer \<Rightarrow> nat \<Rightarrow> job_io \<Rightarrow> ('r, 'z) serial_service_scheme \<Rightarrow> bool result \<times> ('r, 'z) serial_service_scheme" where
  "service_check_and_flush ops now io s =
     (case serial_check_and_flush ops now io (sv_rotator s) of (res, r) \<Rightarrow> (res, s\<lparr>sv_rotator := r\<rparr>))"

definition service_shutdown ::
  "'r row_writer \<Rightarrow> nat \<Rightarrow> job_io \<Rightarrow> job_io \<Rightarrow> ('r, 'z) serial_service_scheme \<Rightarrow> unit result \<times> ('r, 'z) serial_service_scheme" where
  "service_shutdown ops now jio jio' s =
     (Inr (), s\<lparr>sv_rotator := snd (serial_rotator_flush ops now jio jio' (sv_rotator s))\<rparr>)"

definition log_new :: "nat \<Rightarrow> string \<Rightarrow> nat \<Rightarrow> nat \<Rightarrow> log_record serial_service" where
  "log_new now dir max_rows duration = log_service_with_wal now dir max_rows duration None"

definition trace_new :: "nat \<Rightarrow> string \<Rightarrow> nat \<Rightarrow> nat \<Rightarrow> trace_service" where
  "trace_new now dir max_rows duration = trace_service_with_wal now dir max_rows duration None"

definition log_with_memory_buffer :: "memory_buffer \<Rightarrow> log_record serial_service \<Rightarrow> log_record serial_service" where
  "log_with_memory_buffer b s = serial_with_memory_buffer b s"

definition trace_with_memory_buffer :: "memory_buffer \<Rightarrow> trace_service \<Rightarrow> trace_service" where
  "trace_with_memory_buffer b s = serial_with_memory_buffer b s"

definition log_check_and_flush :: "nat \<Rightarrow> job_io \<Rightarrow> log_record serial_service \<Rightarrow> bool result \<times> log_record serial_service" where
  "log_check_and_flush now io s = service_check_and_flush log_rows now io s"

definition trace_check_and_flush :: "nat \<Rightarrow> job_io \<Rightarrow> trace_service \<Rightarrow> bool result \<times> trace_service" where
  "trace_check_and_flush now io s = service_check_and_flush trace_rows now io s"

definition log_shutdown :: "nat \<Rightarrow> job_io \<Rightarrow> job_io \<Rightarrow> log_record serial_service \<Rightarrow> unit result \<times> log_record serial_service" where
  "log_shutdown now jio jio' s = service_shutdown log_rows now jio jio' s"

definition trace_shutdown :: "nat \<Rightarrow> job_io \<Rightarrow> job_io \<Rightarrow> trace_service \<Rightarrow> unit result \<times> trace_service" where
  "trace_shutdown now jio jio' s = service_shutdown trace_rows now jio jio' s"

definition ingestion_service_stats :: "ingestion_service \<Rightarrow> u64 \<times> u64 \<times> u64" where
  "ingestion_service_stats s = read_stats (isv_stats s)"

definition log_stats :: "log_record serial_service \<Rightarrow> u64 \<times> u64 \<times> u64" where
  "log_stats s = read_stats (sv_stats s)"

definition trace_stats :: "trace_service \<Rightarrow> u64 \<times> u64 \<times> u64" where
  "trace_stats s = read_stats (sv_stats s)"

end
