(* ===== verification/Ingest_Proofs.thy ===== *)
theory Ingest_Proofs
  imports Ingest
begin

section \<open>What the ingestion services guarantee\<close>

text \<open>
  The points a service puts in the memory buffer are those of the request with the service name of
  their resource, although label sets are built once per distinct set and come from the interner.
  A batch of logs or spans that was acknowledged is in the write-ahead log above the commit point,
  whatever the flushes did meanwhile.
\<close>

subsection \<open>Buffer points\<close>

definition service_labels :: "string \<Rightarrow> label_set \<Rightarrow> label_set" where
  "service_labels svc ls =
     (if ls_get ls ''service.name'' \<noteq> None then ls else ls_with 0 ls ''service.name'' svc)"

text \<open>What a query can see of a point.\<close>

definition point_view :: "data_point \<Rightarrow> i64 \<times> metric_value \<times> entries" where
  "point_view dp = (dp_timestamp_ns dp, dp_value dp, ls_entries (dp_labels dp))"

lemma service_labels_cong:
  assumes "ls_entries a = ls_entries b"
  shows "ls_entries (service_labels svc a) = ls_entries (service_labels svc b)"
proof -
  have "ls_get a k = ls_get b k" for k unfolding ls_get_def by (simp only: assms)
  moreover have "ls_with 0 a k v = ls_with 0 b k v" for k v unfolding ls_with_def by (simp only: assms)
  ultimately show ?thesis by (simp add: service_labels_def assms)
qed

definition memo_ok :: "string \<Rightarrow> (entries \<times> label_set) list \<Rightarrow> bool" where
  "memo_ok svc resolved \<longleftrightarrow>
     (\<forall>ls :: label_set. \<forall>l. map_of resolved (ls_entries ls) = Some l \<longrightarrow> ls_entries l = ls_entries (service_labels svc ls))"

lemma memo_ok_Cons:
  assumes "memo_ok svc resolved" "ls_entries l = ls_entries (service_labels svc ls)"
  shows "memo_ok svc ((ls_entries ls, l) # resolved)"
  unfolding memo_ok_def
proof (intro allI impI)
  fix l' and ls' :: label_set
  assume m: "map_of ((ls_entries ls, l) # resolved) (ls_entries ls') = Some l'"
  show "ls_entries l' = ls_entries (service_labels svc ls')"
  proof (cases "ls_entries ls' = ls_entries ls")
    case True
    then show ?thesis using m assms (2) service_labels_cong [OF True] by simp
  next
    case False
    then show ?thesis using m assms (1) by (simp add: memo_ok_def)
  qed
qed

lemma resolve_labels_spec:
  assumes memo: "memo_ok svc resolved" and wf: "wf_interner st" "wf_labels ls"
    and res: "resolve_labels hp svc a ls (resolved, st) = (l, resolved1, st1)"
  shows "ls_entries l = ls_entries (service_labels svc ls) \<and> wf_interner st1 \<and> memo_ok svc resolved1"
proof (cases "map_of resolved (ls_entries ls)")
  case None
  obtain l1 st2 where i: "(if ls_get ls ''service.name'' \<noteq> None then (ls, st)
      else intern_with hp a st ls ''service.name'' svc) = (l1, st2)" by (rule prod.exhaust)
  have l1: "ls_entries l1 = ls_entries (service_labels svc ls) \<and> wf_interner st2"
  proof (cases "ls_get ls ''service.name''")
    case None
    then show ?thesis using i intern_with_cases [OF wf, of hp a "''service.name''" svc l1 st2 0]
      by (simp add: service_labels_def)
  qed (use i wf in \<open>simp add: service_labels_def\<close>)
  have "(l, resolved1, st1) = (l1, (ls_entries ls, l1) # resolved, st2)"
    using res unfolding resolve_labels_def prod.case None option.case i by (rule sym)
  then show ?thesis using l1 memo_ok_Cons [OF memo] by simp
next
  case (Some l1)
  then show ?thesis using res memo wf by (simp add: resolve_labels_def memo_ok_def)
qed

lemma resolve_points_spec:
  assumes "memo_ok svc resolved" "wf_interner st" "list_all (\<lambda>dp. wf_labels (dp_labels dp)) dps"
    and "resolve_points hp svc a (resolved, st) dps = (dps', st')"
  shows "wf_interner st' \<and> map point_view dps' =
    map (\<lambda>dp. point_view (dp\<lparr>dp_labels := service_labels svc (dp_labels dp)\<rparr>)) dps"
  using assms
proof (induction dps arbitrary: a resolved st dps' st')
  case (Cons dp dps)
  obtain l resolved1 st1 where step: "resolve_labels hp svc a (dp_labels dp) (resolved, st) = (l, resolved1, st1)"
    by (rule prod_cases3)
  obtain rest st2 where rest: "resolve_points hp svc (a + 1) (resolved1, st1) dps = (rest, st2)" by (rule prod.exhaust)
  have l: "ls_entries l = ls_entries (service_labels svc (dp_labels dp))" "wf_interner st1" "memo_ok svc resolved1"
    using resolve_labels_spec [OF Cons.prems (1,2) _ step] Cons.prems (3) by simp_all
  have "dps' = dp\<lparr>dp_labels := l\<rparr> # rest" "st' = st2" using Cons.prems (4) step rest by simp_all
  then show ?case using Cons.IH [OF l (3,2) _ rest] l (1) Cons.prems (3) by (simp add: point_view_def)
qed simp

text \<open>C34: The points of a metric as the memory buffer holds them are its points, in order and with their
  times and values, each with the labels a direct construction gives: its own, and the
  \<open>service.name\<close> of the resource where it has none. Building each distinct label set once and
  taking it from the interner changes nothing.\<close>

theorem buffer_points_are_the_points:
  assumes "wf_interner st" "list_all (\<lambda>dp. wf_labels (dp_labels dp)) (m_data_points m)"
    and "buffer_points hp a st m = (dps, st')"
  shows "wf_interner st' \<and> map point_view dps =
    map (\<lambda>dp. point_view (case ls_get (m_resource_attributes m) ''service.name'' of
        None \<Rightarrow> dp | Some svc \<Rightarrow> dp\<lparr>dp_labels := service_labels svc (dp_labels dp)\<rparr>)) (m_data_points m)"
proof (cases "ls_get (m_resource_attributes m) ''service.name''")
  case None
  then show ?thesis using assms by (simp add: buffer_points_def)
next
  case (Some svc)
  have "memo_ok svc []" by (simp add: memo_ok_def)
  then show ?thesis using resolve_points_spec [OF _ assms (1,2)] assms (3) Some by (simp add: buffer_points_def)
qed

definition checkout_metric :: metric where
  "checkout_metric = (sample_metric [3, 4])\<lparr>m_resource_attributes := from_sorted_unique 2 [(''service.name'', ''shop'')]\<rparr>"

theorem buffer_points_are_the_points_witness:
  "map point_view (fst (buffer_points (\<lambda>k v. 7) 5 interner_new checkout_metric)) =
     [(3, IntVal 1, [(''job'', ''x''), (''service.name'', ''shop'')]), (4, IntVal 1, [(''job'', ''x''), (''service.name'', ''shop'')])]"
proof -
  have "list_all (\<lambda>dp. wf_labels (dp_labels dp)) (m_data_points checkout_metric)"
    by (simp add: checkout_metric_def sample_metric_def sample_dp_def wf_labels_def from_sorted_unique_def)
  moreover have "map (\<lambda>dp. point_view (case ls_get (m_resource_attributes checkout_metric) ''service.name'' of
        None \<Rightarrow> dp | Some svc \<Rightarrow> dp\<lparr>dp_labels := service_labels svc (dp_labels dp)\<rparr>)) (m_data_points checkout_metric) =
     [(3, IntVal 1, [(''job'', ''x''), (''service.name'', ''shop'')]), (4, IntVal 1, [(''job'', ''x''), (''service.name'', ''shop'')])]"
    by code_simp
  ultimately show ?thesis
    using buffer_points_are_the_points [OF wf_interner_new _ surjective_pairing, of checkout_metric "\<lambda>k v. 7" 5] by simp
qed

subsection \<open>Batches in the write-ahead log\<close>

lemma encode_rows_frames:
  "encode_rows ser crc rows out = Inr bytes \<longleftrightarrow>
     (\<exists>ps. map ser rows = map Inr ps \<and> bytes = out @ frames crc ps)"
proof (induction rows arbitrary: out)
  case (Cons row rows)
  show ?case
  proof (cases "ser row")
    case (Inl e)
    then show ?thesis by (auto simp: encode_record_into_frame)
  next
    case (Inr p)
    then show ?thesis by (auto simp: encode_record_into_frame Cons.IH Cons_eq_map_conv)
  qed
qed auto

text \<open>A serial rotator whose log is in order and whose pending commits stay at or below \<open>p\<close>.\<close>

definition wal_below ::
  "(byte list \<Rightarrow> u32) \<Rightarrow> wal_position \<Rightarrow> wal_writer \<Rightarrow> wal_dir \<Rightarrow> 'r serial_rotator \<Rightarrow> bool" where
  "wal_below crc p w d r \<longleftrightarrow>
     sr_wal r = Some (w, d) \<and> wal_inv crc w d \<and> pos_ok w \<and> p \<le> position w \<and> read_commit d \<le> p
     \<and> (case sr_gate r of None \<Rightarrow> True | Some job \<Rightarrow> sj_covered job \<le> p)"

lemma drop_from_buffer_sel [simp]:
  "sr_wal (drop_from_buffer ops n r) = sr_wal r" "sr_gate (drop_from_buffer ops n r) = sr_gate r"
  "sr_covered (drop_from_buffer ops n r) = sr_covered r" "sr_writer (drop_from_buffer ops n r) = sr_writer r"
  by (simp_all add: drop_from_buffer_def split: option.split)

lemma uncovered_mono:
  "uncovered c xs = uncovered c ys \<Longrightarrow> c \<le> p \<Longrightarrow> uncovered p xs = uncovered p ys"
proof -
  assume eq: "uncovered c xs = uncovered c ys" and le: "c \<le> p"
  have "uncovered p zs = uncovered p (uncovered c zs)" for zs :: "(wal_position \<times> 'a) list"
    using le by (auto simp: uncovered_def is_covered_by_def intro!: filter_cong)
  with eq show ?thesis by metis
qed

lemma commit_below:
  assumes inv: "wal_inv crc w d" and ok: "pos_ok w" and p: "p \<le> position w" "read_commit d \<le> p" "cp \<le> p"
    and d': "d' = snd (commit io rm cp d)"
  shows "wal_inv crc w d' \<and> read_commit d' \<le> p \<and> uncovered p (wal_log crc d') = uncovered p (wal_log crc d)"
proof -
  obtain res where c: "commit io rm cp d = (res, d')" unfolding d' by (metis prod.collapse)
  have "wf_dir d" using inv by (simp add: wal_inv_def)
  from commit_spec (1) [OF this c] have "uncovered p (wal_log crc d') = uncovered p (wal_log crc d)"
    by (rule uncovered_mono) (rule p)
  moreover have "pos_segment cp \<le> ww_segment w"
    using pos_segment_mono [of cp "position w"] p pos_segment_position [OF ok] by simp
  moreover have "read_commit d' \<le> p" using commit_outcome [OF c] p by auto
  ultimately show ?thesis using commit_inv [OF inv _ c] by blast
qed

lemma wait_idle_below:
  assumes "wal_below crc p w d r"
  shows "\<exists>d'. wal_below crc p w d' (wait_idle ops io r) \<and> sr_gate (wait_idle ops io r) = None
    \<and> sr_covered (wait_idle ops io r) = sr_covered r \<and> uncovered p (wal_log crc d') = uncovered p (wal_log crc d)"
proof (cases "sr_gate r")
  case None
  then show ?thesis using assms by (auto simp: wait_idle_def)
next
  case (Some job)
  have wal: "sr_wal r = Some (w, d)" and below: "wal_inv crc w d" "pos_ok w" "p \<le> position w" "read_commit d \<le> p" "sj_covered job \<le> p"
    using assms Some by (simp_all add: wal_below_def)
  note c = commit_below [OF below refl, of "ji_commit io" "ji_removed io"]
  have "sr_wal (wait_idle ops io r) = Some (w, d) \<or>
      sr_wal (wait_idle ops io r) = Some (w, snd (commit (ji_commit io) (ji_removed io) (sj_covered job) d))"
    using Some wal by (auto simp: wait_idle_def serial_flush_def Let_def split: sum.split option.split index_reply.split)
  moreover have "sr_gate (wait_idle ops io r) = None" "sr_covered (wait_idle ops io r) = sr_covered r"
    using Some wal by (auto simp: wait_idle_def serial_flush_def Let_def split: sum.split option.split index_reply.split)
  ultimately show ?thesis using c below unfolding wal_below_def by auto
qed

lemma wal_below_mono: "wal_below crc p w d r \<Longrightarrow> p \<le> q \<Longrightarrow> q \<le> position w \<Longrightarrow> wal_below crc q w d r"
  by (auto simp: wal_below_def split: option.splits)

lemma start_flush_below:
  assumes "wal_below crc p w d r" "p \<le> q" "q \<le> position w" "sr_covered r \<le> q"
  shows "\<exists>d'. wal_below crc q w d' (start_flush ops now io r) \<and> sr_covered (start_flush ops now io r) \<le> q
    \<and> read_commit d' \<le> p \<and> uncovered p (wal_log crc d') = uncovered p (wal_log crc d)"
proof (cases "rb_rows (sr_writer r) = []")
  case True
  then show ?thesis using assms by (auto simp: start_flush_def wal_below_def split: option.splits)
next
  case False
  obtain d' where d': "wal_below crc p w d' (wait_idle ops io r)" "sr_covered (wait_idle ops io r) = sr_covered r"
    "uncovered p (wal_log crc d') = uncovered p (wal_log crc d)"
    using wait_idle_below [OF assms (1)] by blast
  have "wal_below crc q w d' (start_flush ops now io r)" "sr_covered (start_flush ops now io r) \<le> q" "read_commit d' \<le> p"
    using d' (1,2) assms (2-4) False by (auto simp: start_flush_def wal_below_def Let_def START_def)
  with d' (3) show ?thesis by blast
qed

lemma uncovered_suffix:
  assumes "sorted_wrt (<) (map fst xs)" "c \<le> p"
  shows "\<exists>pre. uncovered c xs = pre @ uncovered p xs"
  using assms (1)
proof (induction xs)
  case (Cons x xs)
  show ?case
  proof (cases "p < fst x")
    case True
    then have "p < fst y" "c < fst y" if "y \<in> set (x # xs)" for y using that Cons.prems assms (2) by auto
    then show ?thesis by (auto simp: uncovered_def is_covered_by_def filter_id_conv simp flip: not_less)
  next
    case False
    then show ?thesis using Cons assms (2)
      by (auto simp: uncovered_def is_covered_by_def not_less intro: exI [of _ "x # _"])
  qed
qed (simp add: uncovered_def)

lemma uncovered_append: "uncovered c (xs @ ys) = uncovered c xs @ uncovered c ys"
  by (simp add: uncovered_def)

lemma map_filter_append: "List.map_filter f (xs @ ys) = List.map_filter f xs @ List.map_filter f ys"
  by (simp add: map_filter_def)

lemma map_filter_all: "map f xs = map Some ys \<Longrightarrow> List.map_filter f xs = ys"
  by (induction xs arbitrary: ys) (auto simp: map_filter_simps)

lemma map_filter_snd: "List.map_filter (\<lambda>e. f (snd e)) es = List.map_filter f (map snd es)"
  by (induction es) (auto simp: map_filter_simps split: option.split)

lemma append_below:
  assumes below: "wal_below crc (position w) w d r" and fits: "fits w (frames crc ps)" and small: "list_all small ps"
    and a: "append_encoded io w d (frames crc ps) = (Inr pos, w', d')"
  shows "wal_below crc (position w) w' d' (r\<lparr>sr_wal := Some (w', d')\<rparr>) \<and> pos \<le> position w' \<and>
    (\<exists>log es. wal_log crc d' = log @ es \<and> map snd es = ps \<and> uncovered (position w) es = es)"
proof -
  have inv: "wal_inv crc w d" "pos_ok w" using below by (simp_all add: wal_below_def)
  have out: "append_outcome crc ps w d (Inr pos) w' d'" by (rule append_encoded_spec [OF inv (1) fits small a])
  note p = append_position [OF inv fits small a]
  obtain log where log: "wal_log crc d' = log @ seg_entries (ww_segment w) (unat (ww_offset w)) ps"
    using out unfolding append_outcome_def by blast
  have "position w < fst e" if e: "e \<in> set (seg_entries (ww_segment w) (unat (ww_offset w)) ps)" for e
  proof -
    obtain n where n: "fst e = mk_position (ww_segment w) (of_nat n)" "unat (ww_offset w) < n"
      "n \<le> unat (ww_offset w) + length (frames crc ps)"
      using seg_entries_mem [OF e] by blast
    have "mk_position (ww_segment w) (of_nat (unat (ww_offset w))) < mk_position (ww_segment w) (of_nat n)"
      using n fits by (intro mk_position_less) (auto simp: fits_def)
    then show ?thesis by (simp add: n position_def)
  qed
  then have "uncovered (position w) (seg_entries (ww_segment w) (unat (ww_offset w)) ps) =
      seg_entries (ww_segment w) (unat (ww_offset w)) ps"
    by (auto simp: uncovered_def is_covered_by_def filter_id_conv simp flip: not_less)
  moreover have "pos \<le> position w'"
  proof (cases "ps = []")
    case True
    then have "pos = position w"
      using out unfolding append_outcome_def by (simp add: position_def)
    then show ?thesis using p (2) by simp
  qed (use p (3) in blast)
  moreover have "wal_inv crc w' d'" using out unfolding append_outcome_def by blast
  moreover have "read_commit d' = read_commit d"
    by (rule read_commit_cong) (use out in \<open>unfold append_outcome_def, blast\<close>)
  ultimately show ?thesis using below p (1,2) log seg_entries_snd by (fastforce simp: wal_below_def)
qed

lemma push_rows_fields:
  "push_rows ops fos i rows flushed r = (res, r') \<Longrightarrow>
     sr_wal r' = sr_wal r \<and> sr_gate r' = sr_gate r \<and> sr_covered r' = sr_covered r"
proof (induction rows arbitrary: i flushed r)
  case (Cons row rows)
  from Cons.prems show ?case
    by (auto simp: Let_def split: prod.splits sum.splits option.splits dest!: Cons.IH)
qed simp

lemma feed_buffer_fields [simp]:
  "sr_wal (feed_buffer ops rows r) = sr_wal r" "sr_gate (feed_buffer ops rows r) = sr_gate r"
  "sr_covered (feed_buffer ops rows r) = sr_covered r"
  by (simp_all add: feed_buffer_def split: option.split)

lemma wal_below_cong:
  "sr_wal r' = sr_wal r \<Longrightarrow> sr_gate r' = sr_gate r \<Longrightarrow> wal_below crc p w d r' = wal_below crc p w d r"
  by (simp add: wal_below_def)

definition service_wal_ok ::
  "(byte list \<Rightarrow> u32) \<Rightarrow> wal_writer \<Rightarrow> wal_dir \<Rightarrow> ('r, 'z) serial_service_scheme \<Rightarrow> bool" where
  "service_wal_ok crc w d s \<longleftrightarrow> sv_wal_enabled s \<and> wal_below crc (position w) w d (sv_rotator s)
     \<and> sr_covered (sv_rotator s) \<le> position w"

text \<open>Rows the log has room for and whose payloads decode back.\<close>

definition storable ::
  "('r \<Rightarrow> string + byte list) \<Rightarrow> (byte list \<Rightarrow> 'r option) \<Rightarrow> (byte list \<Rightarrow> u32) \<Rightarrow> wal_writer \<Rightarrow> 'r list \<Rightarrow> bool" where
  "storable ser de crc w rows \<longleftrightarrow>
     (\<exists>ps. map ser rows = map Inr ps \<and> map de ps = map Some rows \<and> fits w (frames crc ps) \<and> list_all small ps)"

definition recoverable ::
  "(byte list \<Rightarrow> 'r option) \<Rightarrow> (byte list \<Rightarrow> u32) \<Rightarrow> 'r list \<Rightarrow> ('r, 'z) serial_service_scheme \<Rightarrow> bool" where
  "recoverable de crc rows s \<longleftrightarrow>
     (\<exists>w d earlier. service_wal_ok crc w d s \<and>
        fst (snd (replay de crc (\<lambda>_. None) (read_commit d) d)) = earlier @ rows)"

lemma log_batch_Inr:
  assumes "log_batch io (Some bytes) r = (Inr x, r')" "sr_wal r = Some (w, d)"
  obtains pos w' d' where "append_encoded io w d bytes = (Inr pos, w', d')"
    "r' = r\<lparr>sr_wal := Some (w', d'), sr_covered := pos\<rparr>"
  using assms by (auto simp: log_batch_def split: prod.splits sum.splits)

lemma push_batch_logged:
  assumes below: "wal_below crc (position w) w d r" "sr_covered r \<le> position w"
    and fits: "fits w (frames crc ps)" and small: "list_all small ps"
    and res: "push_batch ops now jio jio' io fos rows (Some (frames crc ps)) r = (Inr x, r')"
  obtains w' d' log es where "wal_below crc (position w) w' d' r'" "sr_covered r' \<le> position w'"
    "wal_log crc d' = log @ es" "map snd es = ps" "uncovered (position w) es = es"
proof -
  define full where "full = (length (rb_rows (sr_writer r)) > 0 \<and>
    length (rb_rows (sr_writer r)) + length rows > max (sr_max_rows_per_block r) 1)"
  define r1 where "r1 = (if full then start_flush ops now jio r else r)"
  define r2 where "r2 = (if length rows \<ge> max (sr_max_rows_per_block r) 1 then wait_idle ops jio' r1 else r1)"
  obtain d1 where r1: "wal_below crc (position w) w d1 r1" "sr_covered r1 \<le> position w"
    unfolding r1_def using below start_flush_below [OF below (1) order.refl order.refl below (2), of ops now jio] by (cases full) auto
  obtain d2 where r2: "wal_below crc (position w) w d2 r2"
    unfolding r2_def using r1 (1) wait_idle_below [OF r1 (1), of ops jio'] by (cases "length rows \<ge> max (sr_max_rows_per_block r) 1") auto
  obtain u r3 where log: "log_batch io (Some (frames crc ps)) r2 = (Inr u, r3)"
    and rows: "push_rows ops fos 0 rows full (feed_buffer ops rows r3) = (Inr x, r')"
    using res unfolding push_batch_def Let_def full_def [symmetric] r1_def [symmetric] r2_def [symmetric]
    by (auto split: prod.splits sum.splits)
  have "sr_wal r2 = Some (w, d2)" using r2 by (simp add: wal_below_def)
  from log_batch_Inr [OF log this] obtain pos w' d' where a: "append_encoded io w d2 (frames crc ps) = (Inr pos, w', d')"
    and r3: "r3 = r2\<lparr>sr_wal := Some (w', d'), sr_covered := pos\<rparr>" .
  have f: "sr_wal r' = sr_wal r3" "sr_gate r' = sr_gate r3" "sr_covered r' = sr_covered r3"
    using push_rows_fields [OF rows] by simp_all
  from append_below [OF r2 fits small a] obtain log es where
    ap: "wal_below crc (position w) w' d' (r2\<lparr>sr_wal := Some (w', d')\<rparr>)" "pos \<le> position w'"
      "wal_log crc d' = log @ es" "map snd es = ps" "uncovered (position w) es = es"
    by blast
  have "wal_below crc (position w) w' d' r'"
    using ap (1) wal_below_cong [of r' "r2\<lparr>sr_wal := Some (w', d')\<rparr>"] by (simp add: f r3)
  then show thesis using that ap f r3 by simp
qed

lemma store_rows_recoverable:
  assumes ok: "service_wal_ok crc w d s" and rows: "storable ser de crc w rows"
    and res: "store_rows ser crc ops io n rows s = (Inr m, s')"
  shows "recoverable de crc rows s' \<and> m = n \<and>
    st_ingested_points (sv_stats s') = st_ingested_points (sv_stats s) + n"
proof -
  obtain ps where ps: "map ser rows = map Inr ps" "map de ps = map Some rows" "fits w (frames crc ps)" "list_all small ps"
    using rows by (auto simp: storable_def)
  have enc: "wal_records_of ser crc (sv_wal_enabled s) rows = Inr (Some (frames crc ps))"
    using ok ps (1) encode_rows_frames [of ser crc rows "[]" "frames crc ps"]
    by (auto simp: wal_records_of_def service_wal_ok_def)
  obtain x r r' y where push: "push_batch ops (bi_now io) (bi_full io) (bi_wait io) (bi_append io) (bi_files io) rows
      (Some (frames crc ps)) (sv_rotator s) = (Inr x, r)"
    and chk: "serial_check_and_flush ops (bi_now io) (bi_check io) r = (Inr y, r')"
    and s': "m = n" "s' = s\<lparr>sv_rotator := r', sv_stats := add_ingested n (sv_stats s)\<rparr>"
    using res by (auto simp: store_rows_def enc split: prod.splits sum.splits)
  have "wal_below crc (position w) w d (sv_rotator s)" "sr_covered (sv_rotator s) \<le> position w"
    using ok by (simp_all add: service_wal_ok_def)
  from push_batch_logged [OF this ps (3,4) push] obtain w' d' log es where
    r: "wal_below crc (position w) w' d' r" "sr_covered r \<le> position w'"
      "wal_log crc d' = log @ es" "map snd es = ps" "uncovered (position w) es = es" .
  have p: "position w \<le> position w'" using r (1) by (simp add: wal_below_def)
  obtain d'' where fin: "wal_below crc (position w') w' d'' r'" "sr_covered r' \<le> position w'"
    "read_commit d'' \<le> position w" "uncovered (position w) (wal_log crc d'') = uncovered (position w) (wal_log crc d')"
  proof (cases "bi_now io - sr_last_flush r \<ge> sr_max_duration r")
    case True
    then show ?thesis using that chk start_flush_below [OF r (1) p order.refl r (2), of ops "bi_now io" "bi_check io"]
      by (auto simp: serial_check_and_flush_def)
  next
    case False
    then have "r' = r" using chk by (simp add: serial_check_and_flush_def)
    moreover have "read_commit d' \<le> position w" using r (1) by (simp add: wal_below_def)
    ultimately show ?thesis using that [of d'] wal_below_mono [OF r (1) p order.refl] r (2) by simp
  qed
  have wf: "wf_dir d''" using fin (1) by (simp add: wal_below_def wal_inv_def)
  obtain pre where "uncovered (read_commit d'') (wal_log crc d'') = pre @ uncovered (position w) (wal_log crc d'')"
    using uncovered_suffix [OF wal_log_sorted [OF wf] fin (3)] by blast
  also have "\<dots> = (pre @ uncovered (position w) log) @ es" by (simp add: fin (4) r (3,5) uncovered_append)
  finally have "replayed de (read_commit d'') (wal_log crc d'') =
      List.map_filter (\<lambda>e. de (snd e)) (pre @ uncovered (position w) log) @ rows"
    using map_filter_all [of de "map snd es" rows] ps (2) r (4) by (simp add: replayed_def map_filter_append map_filter_snd)
  then show ?thesis
    using fin ok s' unfolding recoverable_def replay_values [OF wf, symmetric]
    by (auto simp: service_wal_ok_def add_ingested_def)
qed

lemma store_rows_dropped:
  "store_rows ser crc ops io n rows s = (res, s') \<Longrightarrow> st_dropped_spans (sv_stats s') = st_dropped_spans (sv_stats s)"
  by (auto simp: store_rows_def add_ingested_def split: sum.splits prod.splits)


definition sample_trace_env :: trace_env where
  "sample_trace_env = \<lparr>te_ser = (\<lambda>_. Inr [5]), te_crc = sum_crc, te_hash = (\<lambda>_. 0), te_round = F_Fin, te_order = rev, te_ms = (\<lambda>_. 0)\<rparr>"

definition sample_batch_io :: batch_io where
  "sample_batch_io = \<lparr>bi_now = 0, bi_full = working_io, bi_wait = working_io, bi_append = io_ok,
     bi_files = (\<lambda>_. sample_file None), bi_check = working_io\<rparr>"

lemmas sample_batch_simps =
  store_rows_def wal_records_of_def encode_record_into_frame push_batch_def wal_rotator_def serial_with_wal_def serial_new_def
  row_buffer_new_def log_batch_def feed_buffer_def serial_check_and_flush_def sample_batch_io_def

lemma sample_batch:
  "\<exists>s'. ingest_logs (\<lambda>_. Inr [5]) sum_crc sample_batch_io [sample_log 3] (log_service_with_wal 0 ''d'' 7 60 (Some (writer0, dir0))) = (Inr 1, s')"
  "\<exists>t'. ingest_spans sample_trace_env 0 sample_batch_io [sample_span 3 4] (trace_service_with_wal 0 ''d'' 7 60 (Some (writer0, dir0))) = (Inr 1, t')"
  using append_one
  by (simp_all add: ingest_logs_def log_service_with_wal_def log_rows_def log_push_def ingest_spans_def trace_service_with_wal_def
      send_span_metrics_def sample_spans_def policy_is_keep_all_def tail_policy_default_def sample_trace_env_def trace_rows_def
      trace_push_def sample_batch_simps)

lemma sample_services:
  "service_wal_ok sum_crc writer0 dir0 (log_service_with_wal 0 ''d'' 7 60 (Some (writer0, dir0)))"
  "service_wal_ok sum_crc writer0 dir0 (trace_service_with_wal 0 ''d'' 7 60 (Some (writer0, dir0)))"
  by (simp_all add: service_wal_ok_def wal_below_def log_service_with_wal_def trace_service_with_wal_def wal_rotator_def
      serial_with_wal_def serial_new_def wal_inv_def writer0_def dir0_def wf_dir_def newest_def current_def seg_bytes_def
      pos_ok_def position_def mk_position_def read_commit_def read_commit_inner_def START_def)


end
