(* ===== verification/Block_Index.thy ===== *)
theory Block_Index
  imports Wal_Recovery Models "HOL-Library.Multiset"
begin

section \<open>The block index\<close>

text \<open>
  The model of \<^verbatim>\<open>parqtel-core/src/storage/index.rs\<close> and \<^verbatim>\<open>persist.rs\<close>: the index of the block files, its
  sidecar file with the debounced persistence, and the reconciliation with the directory at
  startup. The JSON encoding of the sidecar, the directory listing and the Parquet footers are
  arguments, as is the order in which a hash set of paths is iterated.
\<close>

subsection \<open>The index in memory\<close>

record block_index =
  ix_blocks :: "block_metadata list"
  ix_sidecar_path :: string

definition path_join :: "string \<Rightarrow> string \<Rightarrow> string" where
  "path_join dir name = dir @ ''/'' @ name"

definition index_new :: "string \<Rightarrow> block_index" where
  "index_new data_dir = \<lparr>ix_blocks = [], ix_sidecar_path = path_join data_dir ''index.json''\<rparr>"

definition sort_blocks :: "block_metadata list \<Rightarrow> block_metadata list" where
  "sort_blocks bs = sort_key bm_start_timestamp_ns bs"

text \<open>The sidecar as found on disk: absent, unreadable, or its text.\<close>

definition index_load ::
  "(string \<Rightarrow> string + block_metadata list) \<Rightarrow> string result option \<Rightarrow> block_index \<Rightarrow> unit result \<times> block_index" where
  "index_load de content ix =
     (case content of
        None \<Rightarrow> (Inr (), ix\<lparr>ix_blocks := sort_blocks (ix_blocks ix)\<rparr>)
      | Some (Inl e) \<Rightarrow> (Inl e, ix)
      | Some (Inr text) \<Rightarrow>
          (case de text of
             Inl e \<Rightarrow> (Inl (Serde e), ix)
           | Inr bs \<Rightarrow> (Inr (), ix\<lparr>ix_blocks := sort_blocks bs\<rparr>)))"

definition index_serialize :: "(block_metadata list \<Rightarrow> string + string) \<Rightarrow> block_index \<Rightarrow> string result" where
  "index_serialize ser ix = (case ser (ix_blocks ix) of Inl e \<Rightarrow> Inl (Serde e) | Inr text \<Rightarrow> Inr text)"

definition load_serialized ::
  "(string \<Rightarrow> string + block_metadata list) \<Rightarrow> string \<Rightarrow> block_index \<Rightarrow> unit result \<times> block_index" where
  "load_serialized de payload ix =
     (case de payload of
        Inl e \<Rightarrow> (Inl (Serde e), ix)
      | Inr bs \<Rightarrow> (Inr (), ix\<lparr>ix_blocks := sort_blocks bs\<rparr>))"

definition index_add :: "block_metadata \<Rightarrow> block_index \<Rightarrow> block_index" where
  "index_add meta ix = ix\<lparr>ix_blocks := sort_blocks (ix_blocks ix @ [meta])\<rparr>"

definition index_remove :: "string \<Rightarrow> block_index \<Rightarrow> block_index" where
  "index_remove path ix = ix\<lparr>ix_blocks := filter (\<lambda>b. bm_path b \<noteq> path) (ix_blocks ix)\<rparr>"

definition index_replace :: "string list \<Rightarrow> block_metadata option \<Rightarrow> block_index \<Rightarrow> block_index" where
  "index_replace removed_paths new ix =
     (let kept = (if removed_paths \<noteq> [] then filter (\<lambda>b. bm_path b \<notin> set removed_paths) (ix_blocks ix)
                  else ix_blocks ix);
          bs = (case new of None \<Rightarrow> kept | Some meta \<Rightarrow> kept @ [meta])
      in ix\<lparr>ix_blocks := sort_blocks bs\<rparr>)"

definition may_hold_metric :: "string option \<Rightarrow> block_metadata \<Rightarrow> bool" where
  "may_hold_metric metric_name b =
     (case metric_name of None \<Rightarrow> True | Some n \<Rightarrow> bm_metric_names b = {} \<or> n \<in> bm_metric_names b)"

definition index_query :: "i64 \<Rightarrow> i64 \<Rightarrow> string option \<Rightarrow> block_index \<Rightarrow> block_metadata list" where
  "index_query start_ns end_ns metric_name ix =
     (let start_idx = partition_point (\<lambda>b. bm_end_timestamp_ns b < start_ns) (ix_blocks ix)
      in filter (may_hold_metric metric_name)
           (takeWhile (\<lambda>b. bm_start_timestamp_ns b \<le> end_ns) (drop start_idx (ix_blocks ix))))"

definition blocks_by_signal :: "block_index \<Rightarrow> nat list" where
  "blocks_by_signal ix =
     foldl (\<lambda>counts b. counts[signal_index (bm_signal_type b) := counts ! signal_index (bm_signal_type b) + 1])
       [0, 0, 0] (ix_blocks ix)"

definition total_blocks :: "block_index \<Rightarrow> nat" where
  "total_blocks ix = length (ix_blocks ix)"

text \<open>Sums of \<open>usize\<close> and \<open>u64\<close> wrap around.\<close>

definition total_rows :: "block_index \<Rightarrow> nat" where
  "total_rows ix = unat (sum_list (map (\<lambda>b. of_nat (bm_row_count b)) (ix_blocks ix)) :: u64)"

definition total_bytes :: "block_index \<Rightarrow> u64" where
  "total_bytes ix = sum_list (map bm_size_bytes (ix_blocks ix))"

definition all_metrics :: "block_index \<Rightarrow> string set" where
  "all_metrics ix = fold (\<lambda>b names. names \<union> bm_metric_names b) (ix_blocks ix) {}"

definition all_labels :: "block_index \<Rightarrow> string set" where
  "all_labels ix = fold (\<lambda>b names. names \<union> bm_label_names b) (ix_blocks ix) {}"

text \<open>The commit of the WAL moved over what the blocks hold; \<open>io\<close> is the outcome of writing it.\<close>

definition advance_wal_commit :: "error option \<Rightarrow> block_index \<Rightarrow> wal_dir \<Rightarrow> wal_position \<times> wal_dir" where
  "advance_wal_commit io ix d =
     (let cp = read_commit d;
          ranges = List.map_filter bm_wal_range (ix_blocks ix);
          through = covered_through cp ranges
      in (through, if through > cp then snd (commit_position io through d) else d))"

subsection \<open>Footers of block files\<close>

text \<open>What the Parquet library reports of a file: the names of the leaf columns, and per row group the
  number of rows and the minimum and maximum of each column, where it has statistics.\<close>

record row_group =
  rg_num_rows :: i64
  rg_statistics :: "(byte list option \<times> byte list option) option list"

record footer =
  ft_columns :: "string list"
  ft_row_groups :: "row_group list"
  ft_key_values :: "(string \<times> string option) list"
  ft_len :: "u64 option"

definition file_name :: "string \<Rightarrow> string" where
  "file_name path = rev (takeWhile (\<lambda>c. c \<noteq> CHR ''/'') (rev path))"

definition starts_with :: "string \<Rightarrow> string \<Rightarrow> bool" where
  "starts_with s pre \<longleftrightarrow> take (length pre) s = pre"

definition strip_prefix :: "string \<Rightarrow> string \<Rightarrow> string option" where
  "strip_prefix pre s = (if starts_with s pre then Some (drop (length pre) s) else None)"

definition strip_suffix :: "string \<Rightarrow> string \<Rightarrow> string option" where
  "strip_suffix suf s = map_option rev (strip_prefix (rev suf) (rev s))"

text \<open>\<open>Path::extension\<close>: what follows the last dot, unless that dot starts the name.\<close>

definition path_extension :: "string \<Rightarrow> string option" where
  "path_extension path =
     (let name = file_name path;
          ext = rev (takeWhile (\<lambda>c. c \<noteq> CHR ''.'') (rev name))
      in if length ext = length name \<or> length ext + 1 = length name then None else Some ext)"

definition filename_may_hold_signal :: "string \<Rightarrow> signal_type \<Rightarrow> bool" where
  "filename_may_hold_signal path signal =
     (let name = file_name path
      in case signal of
           Metrics \<Rightarrow> \<not> (starts_with name ''logs_'' \<or> starts_with name ''traces_'')
         | Logs \<Rightarrow> starts_with name ''logs_''
         | Traces \<Rightarrow> starts_with name ''traces_'')"

definition detect_signal :: "string list \<Rightarrow> signal_type option" where
  "detect_signal names =
     (if ''severity_text'' \<in> set names then Some Logs
      else if ''metric_kind'' \<in> set names then Some Metrics
      else if ''start_time_ns'' \<in> set names then Some Traces
      else None)"

fun split_on :: "char \<Rightarrow> string \<Rightarrow> string list" where
  "split_on c [] = [[]]"
| "split_on c (x # xs) =
     (if x = c then [] # split_on c xs
      else case split_on c xs of [] \<Rightarrow> [[x]] | p # ps \<Rightarrow> (x # p) # ps)"

text \<open>\<open>i64::from_str\<close>: an optional sign and decimal digits, refused outside the range.\<close>

fun parse_int_digits :: "nat \<Rightarrow> string \<Rightarrow> nat option" where
  "parse_int_digits acc [] = Some acc"
| "parse_int_digits acc (c # cs) =
     (if 48 \<le> (of_char c :: nat) \<and> (of_char c :: nat) \<le> 57
      then parse_int_digits (acc * 10 + (of_char c - 48)) cs else None)"

definition parse_i64 :: "string \<Rightarrow> i64 option" where
  "parse_i64 s =
     (let (neg, ds) = (case s of [] \<Rightarrow> (False, [])
                       | c # cs \<Rightarrow> if c = CHR ''-'' then (True, cs) else if c = CHR ''+'' then (False, cs) else (False, s))
      in if ds = [] then None
         else case parse_int_digits 0 ds of
                None \<Rightarrow> None
              | Some n \<Rightarrow>
                  (let v = (if neg then - int n else int n)
                   in if - (2 ^ 63) \<le> v \<and> v < 2 ^ 63 then Some v else None))"

definition timestamps_from_filename :: "string \<Rightarrow> (i64 \<times> i64) option" where
  "timestamps_from_filename path =
     (case strip_suffix ''.parquet'' (file_name path) of
        None \<Rightarrow> None
      | Some stem \<Rightarrow>
          (let stem' = (case strip_prefix ''logs_'' stem of
                          Some s \<Rightarrow> s
                        | None \<Rightarrow> (case strip_prefix ''traces_'' stem of Some s \<Rightarrow> s | None \<Rightarrow> stem))
           in case split_on (CHR ''_'') stem' of
                a # b # _ \<Rightarrow>
                  (case parse_i64 a of
                     None \<Rightarrow> None
                   | Some start \<Rightarrow> (case parse_i64 b of None \<Rightarrow> None | Some fin \<Rightarrow> Some (start, fin)))
              | _ \<Rightarrow> None))"

definition i64_from_le_bytes :: "byte list \<Rightarrow> i64" where
  "i64_from_le_bytes bs = wrap_i64 (foldr (\<lambda>b acc. int (unat b) + 256 * acc) bs 0)"

text \<open>The range of one column over all row groups, skipping those without full statistics.\<close>

definition group_range :: "nat \<Rightarrow> row_group \<Rightarrow> (i64 \<times> i64) option" where
  "group_range idx rg =
     (case rg_statistics rg ! idx of
        Some (Some mn, Some mx) \<Rightarrow>
          if 8 \<le> length mn \<and> 8 \<le> length mx
          then Some (i64_from_le_bytes (take 8 mn), i64_from_le_bytes (take 8 mx)) else None
      | _ \<Rightarrow> None)"

definition I64_MAX :: i64 where "I64_MAX = 2 ^ 63 - 1"

definition I64_MIN :: i64 where "I64_MIN = - (2 ^ 63)"

fun position_of :: "'a \<Rightarrow> 'a list \<Rightarrow> nat option" where
  "position_of x [] = None"
| "position_of x (y # ys) = (if y = x then Some 0 else map_option Suc (position_of x ys))"

definition column_range :: "footer \<Rightarrow> string \<Rightarrow> (i64 \<times> i64) option" where
  "column_range ft name =
     (case position_of name (ft_columns ft) of
        None \<Rightarrow> None
      | Some idx \<Rightarrow>
          (case fold (\<lambda>rg (lo, hi, seen).
               case group_range idx rg of
                 None \<Rightarrow> (lo, hi, seen)
               | Some (mn, mx) \<Rightarrow> (min lo mn, max hi mx, True))
             (ft_row_groups ft) (I64_MAX, I64_MIN, False) of
             (lo, hi, seen) \<Rightarrow> if seen then Some (lo, hi) else None))"

definition WAL_RANGE_FOOTER_KEY :: string where
  "WAL_RANGE_FOOTER_KEY = ''parqtel.wal_range''"

definition footer_wal_range :: "footer \<Rightarrow> (u64 \<times> u64) option" where
  "footer_wal_range ft =
     (case List.find (\<lambda>e. fst e = WAL_RANGE_FOOTER_KEY) (ft_key_values ft) of
        Some (_, Some v) \<Rightarrow> decode_wal_range v
      | _ \<Rightarrow> None)"

definition read_block_metadata ::
  "(string \<Rightarrow> footer result) \<Rightarrow> string \<Rightarrow> signal_type \<Rightarrow> block_metadata option result" where
  "read_block_metadata open_footer path signal =
     (case open_footer path of
        Inl e \<Rightarrow> Inl e
      | Inr ft \<Rightarrow>
          if detect_signal (ft_columns ft) \<noteq> Some signal then Inr None
          else let (start, fin) =
                 (case (case column_range ft ''timestamp_ns'' of
                          Some r \<Rightarrow> Some r | None \<Rightarrow> column_range ft ''start_time_ns'') of
                    Some r \<Rightarrow> r
                  | None \<Rightarrow> (case timestamps_from_filename path of Some r \<Rightarrow> r | None \<Rightarrow> (0, 0)))
               in Inr (Some \<lparr>bm_path = path, bm_start_timestamp_ns = start, bm_end_timestamp_ns = fin,
                    bm_row_count = unat (sum_list (map (\<lambda>rg. word_of_int (rg_num_rows rg)) (ft_row_groups ft)) :: u64),
                    bm_size_bytes = (case ft_len ft of None \<Rightarrow> 0 | Some n \<Rightarrow> n),
                    bm_metric_names = {}, bm_label_names = {}, bm_label_values = [],
                    bm_signal_type = signal, bm_wal_range = footer_wal_range ft\<rparr>))"

subsection \<open>Reconciliation with the directory\<close>

record reconcile_stats =
  rc_adopted :: nat
  rc_dropped :: nat
  rc_scanned :: nat
  rc_unreadable :: nat

definition reconcile_stats_default :: reconcile_stats where
  "reconcile_stats_default = \<lparr>rc_adopted = 0, rc_dropped = 0, rc_scanned = 0, rc_unreadable = 0\<rparr>"

text \<open>One file of the directory, in the loop that adopts unknown files.\<close>

definition adopt_file ::
  "(string \<Rightarrow> footer result) \<Rightarrow> signal_type \<Rightarrow> string set \<Rightarrow> string
     \<Rightarrow> block_metadata list \<times> reconcile_stats \<Rightarrow> block_metadata list \<times> reconcile_stats" where
  "adopt_file open_footer signal known path acc =
     (case acc of (bs, stats) \<Rightarrow>
        if path \<in> known then (bs, stats)
        else if \<not> filename_may_hold_signal path signal then (bs, stats)
        else let stats1 = stats\<lparr>rc_scanned := rc_scanned stats + 1\<rparr>
             in case read_block_metadata open_footer path signal of
                  Inr (Some meta) \<Rightarrow> (bs @ [meta], stats1\<lparr>rc_adopted := rc_adopted stats1 + 1\<rparr>)
                | Inr None \<Rightarrow> (bs, stats1)
                | Inl _ \<Rightarrow> (bs, stats1\<lparr>rc_unreadable := rc_unreadable stats1 + 1\<rparr>))"

text \<open>\<open>entries\<close> are the paths \<open>read_dir\<close> lists, \<open>None\<close> when it fails; the hash set of the block files
  is iterated in the order \<open>order\<close> puts them in.\<close>

definition reconcile ::
  "(string \<Rightarrow> footer result) \<Rightarrow> (string list \<Rightarrow> string list) \<Rightarrow> string list option \<Rightarrow> signal_type
     \<Rightarrow> block_index \<Rightarrow> reconcile_stats result \<times> block_index" where
  "reconcile open_footer order entries signal ix =
     (case entries of
        None \<Rightarrow> (Inr reconcile_stats_default, ix)
      | Some paths \<Rightarrow>
          (let on_disk = remdups (filter (\<lambda>p. path_extension p = Some ''parquet'') paths);
               kept = filter (\<lambda>b. bm_path b \<in> set on_disk) (ix_blocks ix);
               stats = reconcile_stats_default\<lparr>rc_dropped := length (ix_blocks ix) - length kept\<rparr>;
               known = set (map bm_path kept)
           in case fold (adopt_file open_footer signal known) (order on_disk) (kept, stats) of
                (bs, stats') \<Rightarrow> (Inr stats', ix\<lparr>ix_blocks := sort_blocks bs\<rparr>)))"

subsection \<open>The sidecar store\<close>

text \<open>The store together with the sidecar file on disk.\<close>

record index_store =
  is_path :: string
  is_dirty :: bool
  is_last_payload :: "string option"
  is_file :: "string option"

definition store_at_path :: "string \<Rightarrow> string option \<Rightarrow> index_store" where
  "store_at_path path file = \<lparr>is_path = path, is_dirty = False, is_last_payload = None, is_file = file\<rparr>"

definition store_new :: "block_index \<Rightarrow> string option \<Rightarrow> index_store" where
  "store_new ix file = store_at_path (ix_sidecar_path ix) file"

definition mark_dirty :: "index_store \<Rightarrow> index_store" where
  "mark_dirty s = s\<lparr>is_dirty := True\<rparr>"

definition store_begin :: "index_store \<Rightarrow> bool \<times> index_store" where
  "store_begin s = (is_dirty s, s\<lparr>is_dirty := False\<rparr>)"

definition store_complete :: "string \<Rightarrow> index_store \<Rightarrow> index_store" where
  "store_complete payload s = s\<lparr>is_last_payload := Some payload\<rparr>"

definition has_persisted :: "index_store \<Rightarrow> bool" where
  "has_persisted s \<longleftrightarrow> is_last_payload s \<noteq> None"

text \<open>Writing to a temporary file and renaming it leaves either the old file or the new one.\<close>

definition write_payload :: "error option \<Rightarrow> string \<Rightarrow> index_store \<Rightarrow> unit result \<times> index_store" where
  "write_payload io payload s = (case io of Some e \<Rightarrow> (Inl e, s) | None \<Rightarrow> (Inr (), s\<lparr>is_file := Some payload\<rparr>))"

definition store_size_bytes :: "index_store \<Rightarrow> u64" where
  "store_size_bytes s = (case is_file s of None \<Rightarrow> 0 | Some text \<Rightarrow> of_nat (length text))"

text \<open>The outcome of the blocking write: a panic, an error, or success.\<close>

datatype write_outcome = Write_Ok | Write_Err error | Write_Panic string

definition finish_write :: "write_outcome \<Rightarrow> string \<Rightarrow> index_store \<Rightarrow> index_store" where
  "finish_write outcome payload s =
     (case outcome of
        Write_Ok \<Rightarrow> store_complete payload (snd (write_payload None payload s))
      | Write_Err e \<Rightarrow> mark_dirty s
      | Write_Panic e \<Rightarrow> mark_dirty s)"

definition persist_once ::
  "(block_metadata list \<Rightarrow> string + string) \<Rightarrow> write_outcome \<Rightarrow> block_index \<Rightarrow> index_store \<Rightarrow> index_store" where
  "persist_once ser outcome ix s =
     (case store_begin s of
        (False, s1) \<Rightarrow> s1
      | (True, s1) \<Rightarrow>
          (case index_serialize ser ix of
             Inl e \<Rightarrow> mark_dirty s1
           | Inr payload \<Rightarrow> finish_write outcome payload s1))"

definition persist_blocking ::
  "(block_metadata list \<Rightarrow> string + string) \<Rightarrow> error option \<Rightarrow> block_index \<Rightarrow> index_store \<Rightarrow> unit result \<times> index_store" where
  "persist_blocking ser io ix s =
     (case index_serialize ser ix of
        Inl e \<Rightarrow> (Inl e, s)
      | Inr payload \<Rightarrow>
          (case write_payload io payload s of
             (Inl e, s1) \<Rightarrow> (Inl e, s1)
           | (Inr _, s1) \<Rightarrow> (Inr (), store_complete payload s1)))"

text \<open>A block handed to the index task, and whether its sender waits for the sidecar.\<close>

record pending_index =
  pn_meta :: block_metadata
  pn_durable :: bool

definition untracked :: "block_metadata \<Rightarrow> pending_index" where
  "untracked meta = \<lparr>pn_meta = meta, pn_durable = False\<rparr>"

definition tracked :: "block_metadata \<Rightarrow> pending_index" where
  "tracked meta = \<lparr>pn_meta = meta, pn_durable = True\<rparr>"

text \<open>One round of the task that receives the blocks: add, mark, write when a sender waits, and answer
  it. The result tells whether an answer was sent.\<close>

definition index_task ::
  "(block_metadata list \<Rightarrow> string + string) \<Rightarrow> write_outcome \<Rightarrow> pending_index \<Rightarrow> block_index \<times> index_store
     \<Rightarrow> bool \<times> block_index \<times> index_store" where
  "index_task ser outcome pending st =
     (case st of (ix, s) \<Rightarrow>
        let ix1 = index_add (pn_meta pending) ix;
            s1 = mark_dirty s;
            s2 = (if pn_durable pending then persist_once ser outcome ix1 s1 else s1)
        in (pn_durable pending, ix1, s2))"

definition reconcile_and_persist ::
  "(string \<Rightarrow> footer result) \<Rightarrow> (string list \<Rightarrow> string list) \<Rightarrow> string list option \<Rightarrow> (block_metadata list \<Rightarrow> string + string)
     \<Rightarrow> error option \<Rightarrow> signal_type \<Rightarrow> block_index \<times> index_store \<Rightarrow> block_index \<times> index_store" where
  "reconcile_and_persist open_footer order entries ser io signal st =
     (case st of (ix, s) \<Rightarrow>
        case reconcile open_footer order entries signal ix of
          (Inr stats, ix1) \<Rightarrow>
            if rc_adopted stats > 0 \<or> rc_dropped stats > 0
            then (ix1, snd (persist_blocking ser io ix1 s)) else (ix1, s)
        | (Inl e, ix1) \<Rightarrow> (ix1, s))"

end
