(* ===== verification/Maintenance.thy ===== *)
theory Maintenance
  imports Block_Index Writers
begin

section \<open>Retention and compaction\<close>

text \<open>
  The model of \<^verbatim>\<open>parqtel-core/src/storage/retention.rs\<close> and \<^verbatim>\<open>compactor.rs\<close>: the background tasks that
  delete expired blocks and merge small or old ones. The state is the index, its store and the
  block files with the rows they hold. What the Parquet reader and the row decoders return for a
  file, the clock, and the outcome of each file operation are arguments; a lock that is released
  between selecting and publishing lets other tasks change the index, which is the argument
  \<open>meanwhile\<close>.
\<close>

subsection \<open>Block files\<close>

datatype block_content = Run_Rows "metric_run list" | Log_Rows "log_record list" | Span_Rows "span list"

type_synonym block_files = "string \<rightharpoonup> block_content"

record storage_state =
  ss_index :: block_index
  ss_store :: index_store
  ss_files :: block_files

datatype unlink_outcome = Unlinked | Unlink_Not_Found | Unlink_Failed string

text \<open>A file is gone after an unlink that succeeded.\<close>

definition unlink_files :: "(string \<Rightarrow> unlink_outcome) \<Rightarrow> string list \<Rightarrow> block_files \<Rightarrow> block_files" where
  "unlink_files unlink paths files = (\<lambda>p. if p \<in> set paths \<and> unlink p = Unlinked then None else files p)"

subsection \<open>Retention\<close>

text \<open>All arithmetic on \<open>i64\<close> wraps around.\<close>

definition retention_cutoff :: "i64 \<Rightarrow> u64 \<Rightarrow> i64" where
  "retention_cutoff now_ns retention_days =
     wrap_i64 (now_ns - wrap_i64 (wrap_i64 (wrap_i64 (sint retention_days * 24) * 3600) * 1000000000))"

definition expired :: "i64 \<Rightarrow> block_metadata \<Rightarrow> bool" where
  "expired cutoff b \<longleftrightarrow> bm_end_timestamp_ns b < cutoff"

definition enforce ::
  "i64 \<Rightarrow> u64 \<Rightarrow> string option \<Rightarrow> (string \<Rightarrow> unlink_outcome) \<Rightarrow> (storage_state \<Rightarrow> storage_state) \<Rightarrow> storage_state
     \<Rightarrow> unit result \<times> storage_state" where
  "enforce now_ns retention_days panic unlink meanwhile st =
     (let cutoff = retention_cutoff now_ns retention_days;
          to_delete = map bm_path (filter (expired cutoff) (ix_blocks (ss_index st)))
      in if to_delete = [] then (Inr (), st)
         else let st1 = meanwhile (st\<lparr>ss_files := unlink_files unlink to_delete (ss_files st)\<rparr>)
              in case panic of
                   Some e \<Rightarrow> (Inl (Internal (''retention delete task panicked: '' @ e)), st1)
                 | None \<Rightarrow>
                     (Inr (), st1\<lparr>ss_index := (ss_index st1)\<lparr>ix_blocks := filter (\<lambda>b. \<not> expired cutoff b) (ix_blocks (ss_index st1))\<rparr>,
                        ss_store := mark_dirty (ss_store st1)\<rparr>))"

subsection \<open>Merging blocks\<close>

type_synonym point_row = "string \<times> metric_kind \<times> label_set \<times> data_point"

record decoded_blocks =
  db_points :: "point_row list"
  db_logs :: "log_record list"
  db_spans :: "span list"

definition MAX_LABEL_VALUES_PER_FIELD :: nat where
  "MAX_LABEL_VALUES_PER_FIELD = 10000"

text \<open>The loop over the sorted values of a field stops at the cap.\<close>

definition union_values :: "nat \<Rightarrow> string set \<Rightarrow> string set \<Rightarrow> string set" where
  "union_values max_per_field values entry =
     fold (\<lambda>v e. if card e \<ge> max_per_field then e else insert v e) (sorted_list_of_set values) entry"

definition union_label_values :: "nat \<Rightarrow> block_metadata list \<Rightarrow> (string \<times> string set) list" where
  "union_label_values max_per_field blocks =
     sort_key fst (fold (\<lambda>b out. fold (\<lambda>(field, values) out.
         AList.update field (union_values max_per_field values (case map_of out field of None \<Rightarrow> {} | Some e \<Rightarrow> e)) out)
       (bm_label_values b) out) blocks [])"

text \<open>Opening a source block, and the rows its record batches decode to for a signal.\<close>

datatype open_outcome = Open_Ok | Open_Not_Found | Open_Failed error

record block_reader =
  br_open :: "string \<Rightarrow> open_outcome"
  br_points :: "block_content \<Rightarrow> point_row list result"
  br_logs :: "block_content \<Rightarrow> log_record list result"
  br_spans :: "block_content \<Rightarrow> span list result"

definition read_rows :: "block_reader \<Rightarrow> signal_type \<Rightarrow> block_content \<Rightarrow> decoded_blocks \<Rightarrow> decoded_blocks result" where
  "read_rows rd signal content acc =
     (case signal of
        Metrics \<Rightarrow> (case br_points rd content of Inl e \<Rightarrow> Inl e | Inr ps \<Rightarrow> Inr (acc\<lparr>db_points := db_points acc @ ps\<rparr>))
      | Logs \<Rightarrow> (case br_logs rd content of Inl e \<Rightarrow> Inl e | Inr ls \<Rightarrow> Inr (acc\<lparr>db_logs := db_logs acc @ ls\<rparr>))
      | Traces \<Rightarrow> (case br_spans rd content of Inl e \<Rightarrow> Inl e | Inr ss \<Rightarrow> Inr (acc\<lparr>db_spans := db_spans acc @ ss\<rparr>)))"

fun read_blocks ::
  "block_reader \<Rightarrow> block_files \<Rightarrow> signal_type \<Rightarrow> block_metadata list \<Rightarrow> decoded_blocks \<Rightarrow> decoded_blocks result" where
  "read_blocks rd files signal [] acc = Inr acc"
| "read_blocks rd files signal (meta # metas) acc =
     (case (br_open rd (bm_path meta), files (bm_path meta)) of
        (Open_Failed e, _) \<Rightarrow> Inl e
      | (Open_Ok, Some content) \<Rightarrow>
          (case read_rows rd signal content acc of Inl e \<Rightarrow> Inl e | Inr acc' \<Rightarrow> read_blocks rd files signal metas acc')
      | (Open_Ok, None) \<Rightarrow> read_blocks rd files signal metas acc
      | (Open_Not_Found, _) \<Rightarrow> read_blocks rd files signal metas acc)"

definition read_source_blocks ::
  "block_reader \<Rightarrow> block_files \<Rightarrow> signal_type \<Rightarrow> block_metadata list \<Rightarrow> decoded_blocks result" where
  "read_source_blocks rd files signal blocks =
     read_blocks rd files signal blocks \<lparr>db_points = [], db_logs = [], db_spans = []\<rparr>"

definition row_key :: "point_row \<Rightarrow> group_key" where
  "row_key r = (case r of (name, kind, resource, dp) \<Rightarrow> (name, kind_rank kind, ls_entries resource))"

definition row_point :: "point_row \<Rightarrow> data_point" where
  "row_point r = snd (snd (snd r))"

definition merged_run :: "point_row list \<Rightarrow> group_key \<Rightarrow> metric_run" where
  "merged_run rows k =
     (let grp = filter (\<lambda>r. row_key r = k) rows;
          (name, kind, resource, _) = hd grp
      in \<lparr>mr_name = name, mr_kind = kind, mr_resource = resource,
          mr_points = sort_key (\<lambda>dp. (fingerprint (dp_labels dp), dp_timestamp_ns dp)) (map row_point grp)\<rparr>)"

definition merged_runs :: "point_row list \<Rightarrow> metric_run list" where
  "merged_runs rows = map (merged_run rows) (sort (remdups (map row_key rows)))"

definition label_keys :: "label_set \<Rightarrow> string set" where
  "label_keys ls = set (map fst (ls_entries ls))"

text \<open>The rows of the merged block with its bounds, counts and names; an empty list has no first row.\<close>

definition merge_points :: "point_row list \<Rightarrow> (block_content \<times> i64 \<times> i64 \<times> nat \<times> string set \<times> string set) result" where
  "merge_points pts =
     (let rows = sort_key (\<lambda>r. dp_timestamp_ns (row_point r)) pts
      in case rows of
           [] \<Rightarrow> Inl (Internal ''No points'')
         | r # _ \<Rightarrow> Inr (Run_Rows (merged_runs rows), dp_timestamp_ns (row_point r), dp_timestamp_ns (row_point (last rows)),
                       length rows, set (map fst rows),
                       \<Union> (set (map (\<lambda>(name, kind, resource, dp). label_keys resource \<union> label_keys (dp_labels dp)) rows))))"

definition merge_logs :: "log_record list \<Rightarrow> (block_content \<times> i64 \<times> i64 \<times> nat \<times> string set \<times> string set) result" where
  "merge_logs all_logs =
     (let rows = sort_key lr_timestamp_ns all_logs
      in case rows of
           [] \<Rightarrow> Inl (Internal ''No logs'')
         | l # _ \<Rightarrow> Inr (Log_Rows rows, lr_timestamp_ns l, lr_timestamp_ns (last rows), length rows, {},
                       \<Union> (set (map (\<lambda>l. label_keys (lr_attributes l) \<union> label_keys (lr_resource_attributes l)) rows))))"

definition merge_spans :: "span list \<Rightarrow> (block_content \<times> i64 \<times> i64 \<times> nat \<times> string set \<times> string set) result" where
  "merge_spans all_spans =
     (let rows = sort_key sp_start_time_ns all_spans
      in case rows of
           [] \<Rightarrow> Inl (Internal ''No spans'')
         | s # _ \<Rightarrow> Inr (Span_Rows rows, sp_start_time_ns s, sp_end_time_ns (last rows), length rows, {},
                       \<Union> (set (map (\<lambda>s. label_keys (sp_attributes s)) rows))))"

definition show_i64 :: "i64 \<Rightarrow> string" where
  "show_i64 i = (if i < 0 then ''-'' @ dec_string (nat (- i)) else dec_string (nat i))"

definition merged_path :: "string \<Rightarrow> string \<Rightarrow> i64 \<Rightarrow> i64 \<Rightarrow> string" where
  "merged_path data_dir uuid start_ts end_ts =
     path_join data_dir (show_i64 start_ts @ ''_'' @ show_i64 end_ts @ ''_'' @ uuid @ ''.parquet'')"

text \<open>\<open>dest\<close> is the data directory with a fresh identifier; \<open>fo\<close> the outcome and size of the written file.\<close>

definition write_merged ::
  "string \<times> string \<Rightarrow> file_out \<Rightarrow> signal_type \<Rightarrow> decoded_blocks \<Rightarrow> (string \<times> string set) list \<Rightarrow> (block_metadata \<times> block_content) result" where
  "write_merged dest fo signal db label_values =
     (case (case signal of Metrics \<Rightarrow> merge_points (db_points db) | Logs \<Rightarrow> merge_logs (db_logs db)
              | Traces \<Rightarrow> merge_spans (db_spans db)) of
        Inl e \<Rightarrow> Inl e
      | Inr (content, start_ts, end_ts, row_count, metric_names, label_names) \<Rightarrow>
          (case fo_err fo of
             Some e \<Rightarrow> Inl e
           | None \<Rightarrow>
               Inr (\<lparr>bm_path = merged_path (fst dest) (snd dest) start_ts end_ts, bm_start_timestamp_ns = start_ts, bm_end_timestamp_ns = end_ts,
                     bm_row_count = row_count, bm_size_bytes = fo_size fo, bm_metric_names = metric_names,
                     bm_label_names = label_names, bm_label_values = label_values, bm_signal_type = signal,
                     bm_wal_range = None\<rparr>, content)))"

text \<open>The blocking task of a merge: nothing to write when the sources hold no rows.\<close>

definition merge_blocks ::
  "block_reader \<Rightarrow> string \<times> string \<Rightarrow> file_out \<Rightarrow> signal_type \<Rightarrow> block_files \<Rightarrow> block_metadata list
     \<Rightarrow> (block_metadata \<times> block_content) option result" where
  "merge_blocks rd dest fo signal files sources =
     (case read_source_blocks rd files signal sources of
        Inl e \<Rightarrow> Inl e
      | Inr db \<Rightarrow>
          if db_points db = [] \<and> db_logs db = [] \<and> db_spans db = [] then Inr None
          else case write_merged dest fo signal db (union_label_values MAX_LABEL_VALUES_PER_FIELD sources) of
                 Inl e \<Rightarrow> Inl e
               | Inr merged \<Rightarrow> Inr (Some merged))"

record merge_io =
  mi_panic :: "string option"
  mi_reader :: block_reader
  mi_dest :: "string \<times> string"
  mi_file :: file_out
  mi_unlink :: "string \<Rightarrow> unlink_outcome"
  mi_meanwhile :: "storage_state \<Rightarrow> storage_state"

text \<open>From the merge to the deletion of the sources. The merged file is written before the index names
  it, and the sources are removed only after.\<close>

definition merge_and_publish ::
  "string \<Rightarrow> merge_io \<Rightarrow> signal_type \<Rightarrow> block_metadata list \<Rightarrow> storage_state \<Rightarrow> unit result \<times> storage_state" where
  "merge_and_publish panic_prefix io signal sources st =
     (let paths = map bm_path sources
      in case mi_panic io of
           Some e \<Rightarrow> (Inl (Internal (panic_prefix @ e)), st)
         | None \<Rightarrow>
             (case merge_blocks (mi_reader io) (mi_dest io) (mi_file io) signal (ss_files st) sources of
                Inl e \<Rightarrow> (Inl e, mi_meanwhile io st)
              | Inr merged \<Rightarrow>
                  (let written = (case merged of None \<Rightarrow> st
                                  | Some (meta, content) \<Rightarrow> st\<lparr>ss_files := (ss_files st)(bm_path meta \<mapsto> content)\<rparr>);
                       st1 = mi_meanwhile io written;
                       st2 = st1\<lparr>ss_index := index_replace paths (map_option fst merged) (ss_index st1),
                                 ss_store := mark_dirty (ss_store st1)\<rparr>
                   in (Inr (), if merged = None then st2
                               else st2\<lparr>ss_files := unlink_files (mi_unlink io) paths (ss_files st2)\<rparr>))))"

definition small_blocks :: "nat \<Rightarrow> block_index \<Rightarrow> block_metadata list" where
  "small_blocks max_merge ix =
     (let small = filter (\<lambda>b. bm_row_count b < 10000) (ix_blocks ix)
      in take (min (max max_merge 2) (length small)) small)"

definition compact_once :: "nat \<Rightarrow> merge_io \<Rightarrow> storage_state \<Rightarrow> unit result \<times> storage_state" where
  "compact_once max_merge io st =
     (let small = filter (\<lambda>b. bm_row_count b < 10000) (ix_blocks (ss_index st))
      in if length small < 2 then (Inr (), st)
         else let sources = small_blocks max_merge (ss_index st)
              in merge_and_publish ''compaction task panicked: '' io (bm_signal_type (hd sources)) sources st)"

subsection \<open>Tiered compaction\<close>

definition SIX_HOURS_NS :: i64 where "SIX_HOURS_NS = 6 * 3600 * 1000000000"

definition TWENTY_FOUR_HOURS_NS :: i64 where "TWENTY_FOUR_HOURS_NS = 24 * 3600 * 1000000000"

definition tier_candidates :: "i64 \<Rightarrow> signal_type \<Rightarrow> block_index \<Rightarrow> block_metadata list" where
  "tier_candidates now_ns signal ix =
     sort_blocks (filter (\<lambda>b. bm_signal_type b = signal \<and> wrap_i64 (now_ns - bm_end_timestamp_ns b) > SIX_HOURS_NS
       \<and> bm_row_count b < 500000) (ix_blocks ix))"

definition tier_window :: "i64 \<Rightarrow> block_metadata list \<Rightarrow> i64" where
  "tier_window now_ns candidates =
     (if list_ex (\<lambda>b. wrap_i64 (now_ns - bm_end_timestamp_ns b) > TWENTY_FOUR_HOURS_NS) candidates
      then TWENTY_FOUR_HOURS_NS else SIX_HOURS_NS)"

text \<open>The two nested loops over the candidates: a group takes the blocks that start within the window of
  its first one.\<close>

function tier_groups :: "i64 \<Rightarrow> block_metadata list \<Rightarrow> block_metadata list list" where
  "tier_groups window [] = []"
| "tier_groups window (b # bs) =
     (let window_end = wrap_i64 (bm_start_timestamp_ns b + window)
      in (b # takeWhile (\<lambda>c. bm_start_timestamp_ns c \<le> window_end) bs)
         # tier_groups window (dropWhile (\<lambda>c. bm_start_timestamp_ns c \<le> window_end) bs))"
  by pat_completeness auto

termination by (relation "measure (length \<circ> snd)") (auto simp: less_Suc_eq_le length_dropWhile_le)

text \<open>The merges of one signal, until the bound of the pass is met; the count goes on to the next signal.\<close>

fun merge_groups ::
  "nat \<Rightarrow> nat \<Rightarrow> (nat \<Rightarrow> merge_io) \<Rightarrow> signal_type \<Rightarrow> block_metadata list list \<Rightarrow> nat \<Rightarrow> storage_state
     \<Rightarrow> unit result \<times> nat \<times> storage_state" where
  "merge_groups max_merge max_merges ios signal [] md st = (Inr (), md, st)"
| "merge_groups max_merge max_merges ios signal (g # gs) md st =
     (if length g < 2 then merge_groups max_merge max_merges ios signal gs md st
      else if signal = Traces then merge_groups max_merge max_merges ios signal gs md st
      else case merge_and_publish ''tiered compaction task panicked: '' (ios md) signal (take (max max_merge 2) g) st of
             (Inl e, st') \<Rightarrow> (Inl e, md, st')
           | (Inr _, st') \<Rightarrow>
               if md + 1 \<ge> max_merges then (Inr (), md + 1, st')
               else merge_groups max_merge max_merges ios signal gs (md + 1) st')"

fun compact_signals ::
  "i64 \<Rightarrow> nat \<Rightarrow> nat \<Rightarrow> (nat \<Rightarrow> merge_io) \<Rightarrow> signal_type list \<Rightarrow> nat \<Rightarrow> storage_state \<Rightarrow> unit result \<times> nat \<times> storage_state" where
  "compact_signals now_ns max_merge max_merges ios [] md st = (Inr (), md, st)"
| "compact_signals now_ns max_merge max_merges ios (signal # signals) md st =
     (let candidates = tier_candidates now_ns signal (ss_index st)
      in if length candidates < 2 then compact_signals now_ns max_merge max_merges ios signals md st
         else case merge_groups max_merge max_merges ios signal (tier_groups (tier_window now_ns candidates) candidates) md st of
                (Inl e, d, st') \<Rightarrow> (Inl e, d, st')
              | (Inr _, d, st') \<Rightarrow> compact_signals now_ns max_merge max_merges ios signals d st')"

definition compact_tiered ::
  "i64 \<Rightarrow> nat \<Rightarrow> nat \<Rightarrow> (nat \<Rightarrow> merge_io) \<Rightarrow> storage_state \<Rightarrow> unit result \<times> nat \<times> storage_state" where
  "compact_tiered now_ns max_merge max_merges_per_pass ios st =
     compact_signals now_ns max_merge (max max_merges_per_pass 1) ios [Metrics, Logs, Traces] 0 st"

end
