(* ===== verification/Block_Index_Proofs.thy ===== *)
theory Block_Index_Proofs
  imports Block_Index
begin

section \<open>What the block index guarantees\<close>

text \<open>
  The index stays sorted under every operation, so a query whose blocks end in the order they
  start is exact; where a long block overlaps shorter ones it is not. Reconciliation makes the
  index agree with the directory it scans. A single persistence pass at a time never loses an
  update of the sidecar; two concurrent ones can.
\<close>

subsection \<open>Order and queries\<close>

definition index_ok :: "block_index \<Rightarrow> bool" where
  "index_ok ix \<longleftrightarrow> sorted (map bm_start_timestamp_ns (ix_blocks ix))"

lemma block_index_new_ok: "index_ok (index_new dir)"
  by (simp add: index_ok_def index_new_def)

lemma index_ok_sort [wf_intros]: "index_ok (ix\<lparr>ix_blocks := sort_blocks bs\<rparr>)"
  by (simp add: index_ok_def sort_blocks_def)

lemma index_ok_filter [wf_intros]: "index_ok ix \<Longrightarrow> index_ok (ix\<lparr>ix_blocks := filter P (ix_blocks ix)\<rparr>)"
  by (simp add: index_ok_def sorted_filter)

lemma takeWhile_sorted_filter:
  "sorted (map f xs) \<Longrightarrow> takeWhile (\<lambda>x. f x \<le> c) xs = filter (\<lambda>x. f x \<le> c) xs"
proof (induction xs)
  case (Cons x xs)
  then show ?case by (auto intro!: filter_False [symmetric]) (meson order_trans)
qed simp

lemma drop_partition_filter:
  assumes "sorted (map f xs)"
  shows "drop (partition_point (\<lambda>x. f x < c) xs) xs = filter (\<lambda>x. \<not> f x < c) xs"
proof -
  have "partition_point (\<lambda>x. f x < c) xs = length (takeWhile (\<lambda>x. f x < c) xs)"
    using assms by (intro partition_point_eq) (auto simp: sorted_iff_nth_mono_less intro: le_less_trans)
  then have "drop (partition_point (\<lambda>x. f x < c) xs) xs = dropWhile (\<lambda>x. f x < c) xs"
    by (simp add: dropWhile_eq_drop)
  also have "\<dots> = filter (\<lambda>x. \<not> f x < c) xs"
    using assms by (induction xs) (auto simp: not_less intro!: filter_True [symmetric])
  finally show ?thesis .
qed

text \<open>C30: Every operation keeps the blocks sorted by start time, which the binary search of the query
  relies on: loading, adding, removing, replacing and reconciling.\<close>

theorem index_stays_sorted:
  "index_ok (index_new dir) \<and> index_ok (index_add meta ix) \<and> index_ok (index_replace paths new ix) \<and>
   (index_ok ix \<longrightarrow> index_ok (index_remove path ix)) \<and>
   (index_load de content ix = (Inr (), loaded) \<longrightarrow> index_ok loaded) \<and>
   (load_serialized de payload ix = (Inr (), restored) \<longrightarrow> index_ok restored) \<and>
   (index_ok ix \<longrightarrow> index_ok (snd (reconcile open_footer order entries signal ix)))"
proof -
  have "index_ok ix \<longrightarrow> index_ok (snd (reconcile open_footer order entries signal ix))"
    by (simp add: reconcile_def Let_def wf_intros split: option.split prod.split)
  moreover have "index_load de content ix = (Inr (), loaded) \<longrightarrow> index_ok loaded"
    by (auto simp: index_load_def wf_intros split: option.splits sum.splits)
  ultimately show ?thesis
    by (auto simp: block_index_new_ok index_add_def index_remove_def index_replace_def
        load_serialized_def Let_def wf_intros split: sum.splits)
qed

text \<open>C31: A query returns exactly the blocks that overlap the window and may hold the metric, in order,
  whenever the blocks of the index also end in the order they start.\<close>

theorem index_query_exact:
  assumes "index_ok ix" "sorted (map bm_end_timestamp_ns (ix_blocks ix))"
  shows "index_query start_ns end_ns name ix =
    filter (\<lambda>b. start_ns \<le> bm_end_timestamp_ns b \<and> bm_start_timestamp_ns b \<le> end_ns \<and> may_hold_metric name b) (ix_blocks ix)"
proof -
  have "sorted (map bm_start_timestamp_ns (filter (\<lambda>b. \<not> bm_end_timestamp_ns b < start_ns) (ix_blocks ix)))"
    using assms (1) by (simp add: index_ok_def sorted_filter)
  then show ?thesis
    using assms (2) by (simp add: index_query_def drop_partition_filter takeWhile_sorted_filter not_less conj_ac)
qed

definition sample_block :: "string \<Rightarrow> i64 \<Rightarrow> i64 \<Rightarrow> block_metadata" where
  "sample_block path a b = \<lparr>bm_path = path, bm_start_timestamp_ns = a, bm_end_timestamp_ns = b, bm_row_count = 1, bm_size_bytes = 10,
     bm_metric_names = {}, bm_label_names = {}, bm_label_values = [], bm_signal_type = Metrics, bm_wal_range = None\<rparr>"

definition sample_index :: block_index where
  "sample_index = index_add (sample_block ''/d/b'' 100 200) (index_add (sample_block ''/d/a'' 0 150) (index_new ''/d''))"

theorem index_query_exact_witness:
  "map bm_path (index_query 160 300 None sample_index) = [''/d/b'']"
proof -
  have "index_ok sample_index" "sorted (map bm_end_timestamp_ns (ix_blocks sample_index))"
    by (simp_all add: sample_index_def index_ok_def index_add_def index_new_def sort_blocks_def sample_block_def)
  from index_query_exact [OF this, of 160 300 None] show ?thesis
    by (simp add: sample_index_def index_add_def index_new_def sort_blocks_def sample_block_def may_hold_metric_def)
qed

theorem index_stays_sorted_witness:
  "index_ok (index_remove ''/d/a'' sample_index) \<and> ix_blocks (index_remove ''/d/a'' sample_index) = [sample_block ''/d/b'' 100 200]"
proof -
  have ok: "index_ok sample_index"
    by (simp add: sample_index_def index_ok_def index_add_def index_new_def sort_blocks_def sample_block_def)
  have "index_ok (index_remove ''/d/a'' sample_index)" using index_stays_sorted [of _ _ sample_index] ok by blast
  then show ?thesis by (simp add: index_remove_def sample_index_def index_add_def index_new_def sort_blocks_def sample_block_def)
qed

text \<open>On an index in order whose first block is the longest, a query inside that block alone finds
  nothing: the binary search on end times skips it with the shorter blocks that follow.\<close>

theorem index_query_misses_long_block:
  "\<exists>ix b. index_ok ix \<and> b \<in> set (ix_blocks ix) \<and> bm_start_timestamp_ns b \<le> 600 \<and> 500 \<le> bm_end_timestamp_ns b \<and>
     index_query 500 600 None ix = []"
proof -
  let ?ix = "\<lparr>ix_blocks = [sample_block ''/d/a'' 0 1000, sample_block ''/d/b'' 100 200, sample_block ''/d/c'' 300 400],
    ix_sidecar_path = ''/d/index.json''\<rparr>"
  have "index_query 500 600 None ?ix = []" by code_simp
  then show ?thesis
    by (intro exI [of _ ?ix] exI [of _ "sample_block ''/d/a'' 0 1000"]) (simp add: index_ok_def sample_block_def)
qed

subsection \<open>Reconciliation\<close>

definition adopted ::
  "(string \<Rightarrow> footer result) \<Rightarrow> signal_type \<Rightarrow> string set \<Rightarrow> string \<Rightarrow> block_metadata option" where
  "adopted open_footer signal known path =
     (if path \<in> known \<or> \<not> filename_may_hold_signal path signal then None
      else case read_block_metadata open_footer path signal of Inr (Some meta) \<Rightarrow> Some meta | _ \<Rightarrow> None)"

lemma read_block_metadata_path: "read_block_metadata open_footer path signal = Inr (Some meta) \<Longrightarrow> bm_path meta = path"
  by (auto simp: read_block_metadata_def split: sum.splits if_splits prod.splits)

lemma adopted_path: "adopted open_footer signal known path = Some meta \<Longrightarrow> bm_path meta = path \<and> path \<notin> known"
  by (auto simp: adopted_def read_block_metadata_path split: if_splits sum.splits option.splits)

lemma fold_adopt:
  "\<exists>stats'. fold (adopt_file open_footer signal known) ps (bs, stats) =
      (bs @ List.map_filter (adopted open_footer signal known) ps, stats') \<and>
     rc_dropped stats' = rc_dropped stats \<and>
     rc_adopted stats' = rc_adopted stats + length (List.map_filter (adopted open_footer signal known) ps)"
proof (induction ps arbitrary: bs stats)
  case (Cons p ps)
  obtain bs1 stats1 where step: "adopt_file open_footer signal known p (bs, stats) = (bs1, stats1)" by (rule prod.exhaust)
  then have "bs1 = bs @ List.map_filter (adopted open_footer signal known) [p] \<and> rc_dropped stats1 = rc_dropped stats \<and>
      rc_adopted stats1 = rc_adopted stats + length (List.map_filter (adopted open_footer signal known) [p])"
    by (auto simp: adopt_file_def adopted_def map_filter_simps Let_def split: if_splits sum.splits option.splits)
  then show ?case using Cons.IH [of bs1 stats1] step by (auto simp: map_filter_simps split: option.splits)
qed (simp add: map_filter_simps)

lemma map_filter_set: "set (List.map_filter f xs) = {y. \<exists>x\<in>set xs. f x = Some y}"
  by (force simp: map_filter_def)

lemma distinct_adopted: "distinct ps \<Longrightarrow> distinct (map bm_path (List.map_filter (adopted open_footer signal known) ps))"
  by (induction ps) (auto simp: map_filter_simps map_filter_set adopted_path split: option.split)

definition block_files :: "string list \<Rightarrow> string set" where
  "block_files paths = {p \<in> set paths. path_extension p = Some ''parquet''}"

lemma reconcile_blocks:
  assumes "\<And>ps. mset (order ps) = mset ps"
  obtains stats new where
    "reconcile open_footer order (Some paths) signal ix = (Inr stats, ix\<lparr>ix_blocks := sort_blocks (filter (\<lambda>b. bm_path b \<in> block_files paths) (ix_blocks ix) @ new)\<rparr>)"
    "rc_dropped stats = length (filter (\<lambda>b. bm_path b \<notin> block_files paths) (ix_blocks ix))" "rc_adopted stats = length new"
    "set new = {meta. \<exists>p\<in>block_files paths. adopted open_footer signal (bm_path ` set (ix_blocks ix)) p = Some meta}"
    "distinct (map bm_path new)"
proof -
  define disk where "disk = remdups (filter (\<lambda>p. path_extension p = Some ''parquet'') paths)"
  define kept where "kept = filter (\<lambda>b. bm_path b \<in> block_files paths) (ix_blocks ix)"
  define new where "new = List.map_filter (adopted open_footer signal (set (map bm_path kept))) (order disk)"
  have disk: "set disk = block_files paths" "distinct disk" by (auto simp: disk_def block_files_def)
  have order: "set (order disk) = block_files paths" "distinct (order disk)"
    using mset_eq_setD [OF assms] mset_eq_imp_distinct_iff [OF assms] disk by simp_all
  have "set (map bm_path kept) = bm_path ` set (ix_blocks ix) \<inter> block_files paths" by (auto simp: kept_def)
  then have known: "adopted open_footer signal (set (map bm_path kept)) p = adopted open_footer signal (bm_path ` set (ix_blocks ix)) p"
    if "p \<in> block_files paths" for p
    using that by (simp only: adopted_def Int_iff simp_thms)
  have len: "length (ix_blocks ix) - length kept = length (filter (\<lambda>b. bm_path b \<notin> block_files paths) (ix_blocks ix))"
    using sum_length_filter_compl [of "\<lambda>b. bm_path b \<in> block_files paths" "ix_blocks ix"] by (simp add: kept_def)
  define stats0 where "stats0 = reconcile_stats_default\<lparr>rc_dropped := length (ix_blocks ix) - length kept\<rparr>"
  obtain stats where f: "fold (adopt_file open_footer signal (set (map bm_path kept))) (order disk) (kept, stats0) = (kept @ new, stats)"
    "rc_dropped stats = rc_dropped stats0" "rc_adopted stats = rc_adopted stats0 + length new"
    using fold_adopt [of open_footer signal "set (map bm_path kept)" "order disk" kept stats0] unfolding new_def by blast
  have r: "reconcile open_footer order (Some paths) signal ix = (Inr stats, ix\<lparr>ix_blocks := sort_blocks (kept @ new)\<rparr>)"
    unfolding reconcile_def option.case Let_def disk_def [symmetric] disk (1) kept_def [symmetric] stats0_def [symmetric] f (1) by simp
  have "set new = {meta. \<exists>p\<in>block_files paths. adopted open_footer signal (bm_path ` set (ix_blocks ix)) p = Some meta}"
    unfolding new_def map_filter_set order using known by simp
  then show thesis
    using that [of stats new] r f (2,3) len distinct_adopted [OF order (2)]
    unfolding kept_def [symmetric] by (simp add: stats0_def reconcile_stats_default_def new_def)
qed


text \<open>Trace blocks are written to the data directory while their index lives in its subdirectory
  \<open>traces\<close>, which is what a reconciliation lists. It therefore drops every trace block from the
  index at each start, although all files are there.\<close>

theorem trace_reconcile_forgets_every_block:
  assumes order: "\<And>ps. mset (order ps) = mset ps"
    and listed: "list_all (\<lambda>p. starts_with p (dir @ ''/traces/'')) paths"
    and blocks: "list_all (\<lambda>b. starts_with (bm_path b) (dir @ ''/traces_'')) (ix_blocks ix)"
  shows "\<exists>stats ix'. reconcile open_footer order (Some paths) Traces ix = (Inr stats, ix') \<and>
    rc_dropped stats = length (ix_blocks ix) \<and> set (ix_blocks ix') \<inter> set (ix_blocks ix) = {}"
proof -
  have "bm_path b \<notin> block_files paths" if "b \<in> set (ix_blocks ix)" for b
  proof
    assume "bm_path b \<in> block_files paths"
    then have "starts_with (bm_path b) (dir @ ''/traces/'')" "starts_with (bm_path b) (dir @ ''/traces_'')"
      using listed blocks that by (auto simp: block_files_def list_all_iff)
    then have "take (length dir + 8) (bm_path b) = dir @ ''/traces/''" "take (length dir + 8) (bm_path b) = dir @ ''/traces_''"
      by (simp_all add: starts_with_def)
    then show False by simp
  qed
  then have none: "filter (\<lambda>b. bm_path b \<in> block_files paths) (ix_blocks ix) = []"
    "filter (\<lambda>b. bm_path b \<notin> block_files paths) (ix_blocks ix) = ix_blocks ix"
    by (simp_all add: filter_empty_conv filter_id_conv)
  from reconcile_blocks [OF order, of open_footer paths Traces ix] obtain stats new where
    r: "reconcile open_footer order (Some paths) Traces ix = (Inr stats, ix\<lparr>ix_blocks := sort_blocks (filter (\<lambda>b. bm_path b \<in> block_files paths) (ix_blocks ix) @ new)\<rparr>)"
    "rc_dropped stats = length (filter (\<lambda>b. bm_path b \<notin> block_files paths) (ix_blocks ix))"
    "set new = {meta. \<exists>p\<in>block_files paths. adopted open_footer Traces (bm_path ` set (ix_blocks ix)) p = Some meta}" .
  have "set new \<inter> set (ix_blocks ix) = {}" unfolding r (3) by (auto dest: adopted_path)
  then show ?thesis using r (1,2) by (simp add: none sort_blocks_def)
qed

definition trace_index :: block_index where
  "trace_index = index_add ((sample_block ''/d/traces_0_9_u.parquet'' 0 9)\<lparr>bm_signal_type := Traces\<rparr>) (index_new ''/d/traces'')"

theorem trace_reconcile_forgets_every_block_witness:
  "length (ix_blocks trace_index) = 1 \<and>
   (\<exists>stats ix'. reconcile (\<lambda>_. Inl (Io ''gone'')) rev (Some [''/d/traces/index.json'']) Traces trace_index = (Inr stats, ix') \<and>
      rc_dropped stats = 1 \<and> set (ix_blocks ix') \<inter> set (ix_blocks trace_index) = {})"
proof -
  have b: "ix_blocks trace_index = [(sample_block ''/d/traces_0_9_u.parquet'' 0 9)\<lparr>bm_signal_type := Traces\<rparr>]"
    by (simp add: trace_index_def index_add_def index_new_def sort_blocks_def)
  have "list_all (\<lambda>p. starts_with p (''/d'' @ ''/traces/'')) [''/d/traces/index.json'']"
    "list_all (\<lambda>b. starts_with (bm_path b) (''/d'' @ ''/traces_'')) (ix_blocks trace_index)"
    by (simp_all add: starts_with_def b sample_block_def)
  from trace_reconcile_forgets_every_block [OF mset_rev this, of "\<lambda>_. Inl (Io ''gone'')"] show ?thesis by (simp add: b)
qed

definition trace_footer :: footer where
  "trace_footer = \<lparr>ft_columns = [''start_time_ns''],
     ft_row_groups = [\<lparr>rg_num_rows = 2, rg_statistics = [Some (Some [5, 0, 0, 0, 0, 0, 0, 0], Some [9, 0, 0, 0, 0, 0, 0, 0])]\<rparr>],
     ft_key_values = [], ft_len = Some 100\<rparr>"


subsection \<open>Persistence passes\<close>

text \<open>A pass has taken the dirty flag, or has captured a payload it is about to write. The state has the
  index, the store, the number of changes whose \<open>mark_dirty\<close> is still to come, and the passes in
  flight; at most \<open>k\<close> of them run at once.\<close>

datatype persist_pass = Taken | Captured string

type_synonym persist_state = "block_index \<times> index_store \<times> nat \<times> persist_pass list"

definition drop_nth :: "nat \<Rightarrow> 'a list \<Rightarrow> 'a list" where
  "drop_nth i xs = take i xs @ drop (i + 1) xs"

inductive persist_step :: "nat \<Rightarrow> (block_metadata list \<Rightarrow> string + string) \<Rightarrow> persist_state \<Rightarrow> persist_state \<Rightarrow> bool"
  for k ser where
  change: "persist_step k ser (ix, s, n, ps) (ix', s, n + 1, ps)"
| mark: "persist_step k ser (ix, s, n + 1, ps) (ix, mark_dirty s, n, ps)"
| take_flag: "store_begin s = (True, s') \<Longrightarrow> length ps < k \<Longrightarrow> persist_step k ser (ix, s, n, ps) (ix, s', n, ps @ [Taken])"
| capture: "i < length ps \<Longrightarrow> ps ! i = Taken \<Longrightarrow> index_serialize ser ix = Inr payload \<Longrightarrow>
    persist_step k ser (ix, s, n, ps) (ix, s, n, ps[i := Captured payload])"
| capture_fails: "i < length ps \<Longrightarrow> ps ! i = Taken \<Longrightarrow> index_serialize ser ix = Inl e \<Longrightarrow>
    persist_step k ser (ix, s, n, ps) (ix, mark_dirty s, n, drop_nth i ps)"
| finish: "i < length ps \<Longrightarrow> ps ! i = Captured payload \<Longrightarrow>
    persist_step k ser (ix, s, n, ps) (ix, finish_write outcome payload s, n, drop_nth i ps)"

text \<open>The file holds the index: what was there at the start, with the index unchanged, or its payload.\<close>

definition in_sync ::
  "(block_metadata list \<Rightarrow> string + string) \<Rightarrow> string option \<times> block_metadata list \<Rightarrow> block_index \<Rightarrow> string option \<Rightarrow> bool" where
  "in_sync ser start ix file \<longleftrightarrow> (file, ix_blocks ix) = start \<or> (\<exists>payload. index_serialize ser ix = Inr payload \<and> file = Some payload)"

definition persist_init :: "string option \<times> block_metadata list \<Rightarrow> persist_state \<Rightarrow> bool" where
  "persist_init start st = (case st of (ix, s, n, ps) \<Rightarrow> (is_file s, ix_blocks ix) = start \<and> \<not> is_dirty s \<and> n = 0 \<and> ps = [])"

definition persist_inv ::
  "(block_metadata list \<Rightarrow> string + string) \<Rightarrow> string option \<times> block_metadata list \<Rightarrow> persist_state \<Rightarrow> bool" where
  "persist_inv ser start st = (case st of (ix, s, n, ps) \<Rightarrow>
     length ps \<le> 1 \<and>
     (\<not> is_dirty s \<and> n = 0 \<longrightarrow>
        (case ps of [] \<Rightarrow> in_sync ser start ix (is_file s)
         | p # _ \<Rightarrow> (case p of Taken \<Rightarrow> True | Captured payload \<Rightarrow> index_serialize ser ix = Inr payload))))"

lemma persist_inv_step:
  assumes "persist_inv ser start st" "persist_step (Suc 0) ser st st'"
  shows "persist_inv ser start st'"
  using assms (2,1)
proof (cases rule: persist_step.cases)
  case (take_flag s s' ps ix n)
  then show ?thesis using assms (1) by (auto simp: persist_inv_def store_begin_def)
next
  case (capture i ps ix payload s n)
  then obtain "ps = [Taken]" "i = 0" using assms (1) by (cases ps) (auto simp: persist_inv_def)
  then show ?thesis using capture assms (1) by (simp add: persist_inv_def)
next
  case (capture_fails i ps ix e s n)
  then show ?thesis using assms (1) by (auto simp: persist_inv_def mark_dirty_def drop_nth_def)
next
  case (finish i ps payload ix s n outcome)
  then obtain "ps = [Captured payload]" "i = 0" using assms (1) by (cases ps) (auto simp: persist_inv_def)
  then show ?thesis using finish assms (1)
    by (auto simp: persist_inv_def in_sync_def finish_write_def write_payload_def store_complete_def mark_dirty_def drop_nth_def
        split: write_outcome.splits)
qed (auto simp: persist_inv_def mark_dirty_def)

interpretation persist: state_machine "persist_init start" "persist_step (Suc 0) ser" "persist_inv ser start" for start ser
proof
  show "persist_inv ser start st" if "persist_init start st" for st
    using that by (auto simp: persist_init_def persist_inv_def in_sync_def)
  show "persist_inv ser start st'" if "persist_inv ser start st" "persist_step (Suc 0) ser st st'" for st st'
    using that by (rule persist_inv_step)
qed


definition path_ser :: "block_metadata list \<Rightarrow> string + string" where
  "path_ser bs = Inr (concat (map bm_path bs))"

definition one_block :: block_index where
  "one_block = index_add (sample_block ''a'' 0 9) (index_new ''/d'')"

lemma persist_moves:
  "persist_step k ser (ix, s, 0, ps) (ix', s, 1, ps)"
  "persist_step k ser (ix, s, 1, ps) (ix, mark_dirty s, 0, ps)"
  "length ps < k \<Longrightarrow> persist_step k ser (ix, mark_dirty s, n, ps) (ix, s\<lparr>is_dirty := False\<rparr>, n, ps @ [Taken])"
  using change [of k ser ix s 0 ps ix'] mark [of k ser ix s 0 ps] take_flag [of "mark_dirty s" "s\<lparr>is_dirty := False\<rparr>" ps k ser ix n]
  by (simp_all add: store_begin_def mark_dirty_def)

lemma path_payload: "index_serialize path_ser ix = Inr (concat (map bm_path (ix_blocks ix)))"
  by (simp add: index_serialize_def path_ser_def)

lemma one_block_blocks: "ix_blocks one_block = [sample_block ''a'' 0 9]"
  by (simp add: one_block_def index_add_def index_new_def sort_blocks_def)

lemma add_and_capture:
  assumes "length ps < k" "ix' = ix\<lparr>ix_blocks := bs\<rparr>"
  shows "(persist_step k path_ser)\<^sup>*\<^sup>* (ix, s, 0, ps) (ix', s\<lparr>is_dirty := False\<rparr>, 0, ps @ [Captured (concat (map bm_path bs))])"
proof -
  let ?pl = "concat (map bm_path bs)"
  have "persist_step k path_ser (ix', s\<lparr>is_dirty := False\<rparr>, 0, ps @ [Taken])
      (ix', s\<lparr>is_dirty := False\<rparr>, 0, (ps @ [Taken])[length ps := Captured ?pl])"
    by (rule capture) (simp_all add: path_payload assms (2))
  then have "(persist_step k path_ser)\<^sup>*\<^sup>* (ix', s\<lparr>is_dirty := False\<rparr>, 0, ps @ [Taken]) (ix', s\<lparr>is_dirty := False\<rparr>, 0, ps @ [Captured ?pl])"
    by auto
  note converse_rtranclp_into_rtranclp [where r = "persist_step k path_ser", OF persist_moves (3) this, OF assms (1)]
  note converse_rtranclp_into_rtranclp [where r = "persist_step k path_ser", OF persist_moves (2) this]
  from converse_rtranclp_into_rtranclp [where r = "persist_step k path_ser", OF persist_moves (1) this] show ?thesis .
qed


text \<open>Two passes can run at once, as the index task and the persist loop do, and then an update can be
  lost: a pass that captured the index before a block was added may write after the pass that has
  it, and the store is clean although the sidecar lacks the block.\<close>

theorem concurrent_passes_lose_update:
  "\<exists>ix s. (persist_step 2 path_ser)\<^sup>*\<^sup>* (index_new ''/d'', store_at_path ''/d/index.json'' None, 0, []) (ix, s, 0, []) \<and>
     \<not> is_dirty s \<and> map bm_path (ix_blocks ix) = [''a'', ''b''] \<and> is_file s = Some ''a''"
proof -
  let ?s = "store_at_path ''/d/index.json'' None"
  let ?b = "sample_block ''b'' 5 9"
  define two where "two = (index_new ''/d'')\<lparr>ix_blocks := [sample_block ''a'' 0 9, ?b]\<rparr>"
  let ?f = "finish_write Write_Ok ''ab'' ?s"
  have s: "?s\<lparr>is_dirty := False\<rparr> = ?s" by (simp add: store_at_path_def)
  have one: "one_block = (index_new ''/d'')\<lparr>ix_blocks := [sample_block ''a'' 0 9]\<rparr>"
    by (simp add: one_block_def index_add_def index_new_def sort_blocks_def)
  have two: "two = one_block\<lparr>ix_blocks := [sample_block ''a'' 0 9, ?b]\<rparr>" by (simp add: two_def one)
  have 1: "(persist_step 2 path_ser)\<^sup>*\<^sup>* (index_new ''/d'', ?s, 0, []) (one_block, ?s, 0, [Captured ''a''])"
    using add_and_capture [OF _ one, of "[]" 2 ?s] by (simp add: s sample_block_def)
  have 2: "(persist_step 2 path_ser)\<^sup>*\<^sup>* (one_block, ?s, 0, [Captured ''a'']) (two, ?s, 0, [Captured ''a'', Captured ''ab''])"
    using add_and_capture [OF _ two, of "[Captured ''a'']" 2 ?s] by (simp add: s sample_block_def)
  have 3: "persist_step 2 path_ser (two, ?s, 0, [Captured ''a'', Captured ''ab'']) (two, ?f, 0, [Captured ''a''])"
    using finish [of 1 "[Captured ''a'', Captured ''ab'']" "''ab''" 2 path_ser two ?s 0 Write_Ok] by (simp add: drop_nth_def)
  have 4: "persist_step 2 path_ser (two, ?f, 0, [Captured ''a'']) (two, finish_write Write_Ok ''a'' ?f, 0, [])"
    using finish [of 0 "[Captured ''a'']" "''a''" 2 path_ser two ?f 0 Write_Ok] by (simp add: drop_nth_def)
  note steps = rtranclp.rtrancl_into_rtrancl [where r = "persist_step 2 path_ser"]
  note run = steps [OF steps [OF rtranclp_trans [where r = "persist_step 2 path_ser", OF 1 2] 3] 4]
  show ?thesis
    by (intro exI [of _ two] exI [of _ "finish_write Write_Ok ''a'' ?f"] conjI run)
      (simp_all add: two_def sample_block_def finish_write_def write_payload_def store_complete_def store_at_path_def)
qed

subsection \<open>The commit point at startup\<close>

text \<open>C10: At startup the commit point of the WAL moves only over positions that blocks of the index hold,
  and no further than their chain reaches: no record that is only in the log is skipped.\<close>

theorem advance_commits_only_blocks:
  assumes "advance_wal_commit io ix d = (through, d')"
  shows "read_commit d \<le> through \<and> read_commit d' \<in> {read_commit d, through} \<and> wal_log crc d' = wal_log crc d \<and>
    (\<forall>p. read_commit d < p \<and> p \<le> through \<longrightarrow>
       (\<exists>b\<in>set (ix_blocks ix). \<exists>lo hi. bm_wal_range b = Some (lo, hi) \<and> lo < p \<and> p \<le> hi))"
proof -
  let ?ranges = "List.map_filter bm_wal_range (ix_blocks ix)"
  have t: "through = covered_from ?ranges (read_commit d)"
    using assms by (simp add: advance_wal_commit_def covered_through_def Let_def)
  have d': "d' = d \<or> d' = write_commit through d"
    using assms by (auto simp: advance_wal_commit_def commit_position_def Let_def split: if_splits option.splits)
  have "\<exists>b\<in>set (ix_blocks ix). \<exists>lo hi. bm_wal_range b = Some (lo, hi) \<and> lo < p \<and> p \<le> hi"
    if p: "read_commit d < p \<and> p \<le> through" for p
  proof -
    obtain r where "r \<in> set ?ranges" "fst r < p" "p \<le> snd r"
      using covered_from_spec [of "read_commit d" ?ranges] p unfolding t by blast
    moreover from this obtain b where "b \<in> set (ix_blocks ix)" "bm_wal_range b = Some r" unfolding map_filter_set by blast
    ultimately show ?thesis by (metis prod.collapse)
  qed
  moreover have "read_commit d \<le> through" unfolding t using covered_from_spec [of "read_commit d" ?ranges] by blast
  ultimately show ?thesis using d' by auto
qed

theorem advance_commits_only_blocks_witness:
  "fst (advance_wal_commit None (index_new ''/d''\<lparr>ix_blocks := [(sample_block ''a'' 0 9)\<lparr>bm_wal_range := Some (0, 12)\<rparr>]\<rparr>) dir1) = 12 \<and>
   read_commit (snd (advance_wal_commit None (index_new ''/d''\<lparr>ix_blocks := [(sample_block ''a'' 0 9)\<lparr>bm_wal_range := Some (0, 12)\<rparr>]\<rparr>) dir1)) \<in> {0, 12}"
proof -
  let ?ix = "index_new ''/d''\<lparr>ix_blocks := [(sample_block ''a'' 0 9)\<lparr>bm_wal_range := Some (0, 12)\<rparr>]\<rparr>"
  have "read_commit dir1 = 0" by (simp add: dir1_def read_commit_def read_commit_inner_def START_def)
  moreover from this have "fst (advance_wal_commit None ?ix dir1) = 12"
    by (simp add: advance_wal_commit_def covered_through_def covered_from.simps next_covered_def map_filter_simps Let_def)
  ultimately show ?thesis
    using advance_commits_only_blocks [OF surjective_pairing, where io = None and ix = ?ix and d = dir1 and crc = sum_crc] by simp
qed

text \<open>A sender that waits for the index is answered in every case. When the write succeeds the sidecar
  then holds the index with its block; when it fails the block is in memory only, the store is
  dirty, and the answer is sent all the same.\<close>

theorem index_task_answers_always:
  assumes "index_task ser outcome (tracked meta) (ix, s) = (ack, ix', s')"
  shows "ack \<and> meta \<in> set (ix_blocks ix') \<and>
    (\<forall>payload. index_serialize ser ix' = Inr payload \<longrightarrow>
       (if outcome = Write_Ok then is_file s' = Some payload \<and> \<not> is_dirty s' else is_file s' = is_file s \<and> is_dirty s'))"
  using assms
  by (auto simp: index_task_def tracked_def index_add_def sort_blocks_def persist_once_def store_begin_def mark_dirty_def
      finish_write_def write_payload_def store_complete_def Let_def split: sum.splits write_outcome.splits)

theorem index_task_answers_always_witness:
  "fst (index_task path_ser (Write_Err (Io ''disk full'')) (tracked (sample_block ''a'' 0 9)) (index_new ''/d'', store_at_path ''/d/index.json'' None)) \<and>
   is_file (snd (snd (index_task path_ser (Write_Err (Io ''disk full'')) (tracked (sample_block ''a'' 0 9))
     (index_new ''/d'', store_at_path ''/d/index.json'' None)))) = None"
proof -
  obtain ack ix' s' where r: "index_task path_ser (Write_Err (Io ''disk full'')) (tracked (sample_block ''a'' 0 9))
      (index_new ''/d'', store_at_path ''/d/index.json'' None) = (ack, ix', s')"
    by (rule prod_cases3)
  from index_task_answers_always [OF r] show ?thesis
    unfolding r using path_payload [of ix'] by (simp add: store_at_path_def)
qed

end
