(* ===== verification/Maintenance_Proofs.thy ===== *)
theory Maintenance_Proofs
  imports Maintenance Block_Index_Proofs
begin

section \<open>What retention and compaction guarantee\<close>

text \<open>
  Retention removes exactly the expired entries, whether or not their files could be deleted, and
  its cutoff is right only while the configured days fit in 63 bits of nanoseconds. A merge
  conserves the rows a query can reach. A merged block of logs is written under a name that a
  reconciliation does not recognise.
\<close>

subsection \<open>Retention\<close>

lemma enforce_spec:
  assumes "enforce now_ns days None unlink id st = (Inr (), st')"
  shows "ix_blocks (ss_index st') = filter (\<lambda>b. \<not> expired (retention_cutoff now_ns days) b) (ix_blocks (ss_index st))"
    and "ss_files st' = unlink_files unlink (map bm_path (filter (expired (retention_cutoff now_ns days)) (ix_blocks (ss_index st)))) (ss_files st)"
proof -
  let ?gone = "map bm_path (filter (expired (retention_cutoff now_ns days)) (ix_blocks (ss_index st)))"
  have "ix_blocks (ss_index st') = filter (\<lambda>b. \<not> expired (retention_cutoff now_ns days) b) (ix_blocks (ss_index st)) \<and>
    ss_files st' = unlink_files unlink ?gone (ss_files st)"
  proof (cases "?gone = []")
    case True
    then have "st' = st" using assms by (simp add: enforce_def)
    moreover have "filter (\<lambda>b. \<not> expired (retention_cutoff now_ns days) b) (ix_blocks (ss_index st)) = ix_blocks (ss_index st)"
      using True by (simp add: filter_empty_conv filter_id_conv)
    moreover have "unlink_files unlink ?gone (ss_files st) = ss_files st" unfolding True by (simp add: unlink_files_def)
    ultimately show ?thesis by simp
  next
    case False
    then show ?thesis using assms by (auto simp: enforce_def Let_def)
  qed
  then show "ix_blocks (ss_index st') = filter (\<lambda>b. \<not> expired (retention_cutoff now_ns days) b) (ix_blocks (ss_index st))"
    and "ss_files st' = unlink_files unlink ?gone (ss_files st)" by blast+
qed

text \<open>A retention pass keeps exactly the entries that end at or after the cutoff and touches no other
  file. An expired entry leaves the index also when its file could not be deleted, and the file
  then stays without an entry.\<close>

theorem retention_removes_expired_entries:
  assumes "enforce now_ns days None unlink id st = (Inr (), st')"
  defines "cutoff \<equiv> retention_cutoff now_ns days"
  shows "ix_blocks (ss_index st') = filter (\<lambda>b. cutoff \<le> bm_end_timestamp_ns b) (ix_blocks (ss_index st)) \<and>
    (\<forall>b. b \<in> set (ix_blocks (ss_index st)) \<and> bm_end_timestamp_ns b < cutoff \<and> unlink (bm_path b) \<noteq> Unlinked \<longrightarrow>
       b \<notin> set (ix_blocks (ss_index st')) \<and> ss_files st' (bm_path b) = ss_files st (bm_path b)) \<and>
    (\<forall>p. (\<forall>b\<in>set (ix_blocks (ss_index st)). bm_path b = p \<longrightarrow> cutoff \<le> bm_end_timestamp_ns b) \<longrightarrow> ss_files st' p = ss_files st p)"
proof (intro conjI allI impI)
  note spec = enforce_spec [OF assms (1), folded cutoff_def]
  show "ix_blocks (ss_index st') = filter (\<lambda>b. cutoff \<le> bm_end_timestamp_ns b) (ix_blocks (ss_index st))"
    unfolding spec by (simp add: expired_def not_less)
  fix b assume b: "b \<in> set (ix_blocks (ss_index st)) \<and> bm_end_timestamp_ns b < cutoff \<and> unlink (bm_path b) \<noteq> Unlinked"
  then show "b \<notin> set (ix_blocks (ss_index st'))" unfolding spec by (simp add: expired_def)
  show "ss_files st' (bm_path b) = ss_files st (bm_path b)" unfolding spec using b by (simp add: unlink_files_def)
next
  note spec = enforce_spec [OF assms (1), folded cutoff_def]
  fix p assume "\<forall>b\<in>set (ix_blocks (ss_index st)). bm_path b = p \<longrightarrow> cutoff \<le> bm_end_timestamp_ns b"
  then show "ss_files st' p = ss_files st p" unfolding spec by (auto simp: unlink_files_def expired_def)
qed

definition sample_run :: metric_run where
  "sample_run = \<lparr>mr_name = ''m'', mr_kind = Gauge, mr_resource = default_labels, mr_points = [sample_dp 5]\<rparr>"

definition old_state :: storage_state where
  "old_state = \<lparr>ss_index = sample_index, ss_store = store_at_path ''/d/index.json'' None,
     ss_files = (\<lambda>p. if p = ''/d/a'' \<or> p = ''/d/b'' then Some (Run_Rows [sample_run]) else None)\<rparr>"

theorem retention_removes_expired_entries_witness:
  "\<exists>st'. enforce 86400000000180 1 None (\<lambda>_. Unlink_Failed ''busy'') id old_state = (Inr (), st') \<and>
     map bm_path (ix_blocks (ss_index st')) = [''/d/b''] \<and> ss_files st' ''/d/a'' \<noteq> None"
proof -
  have blocks: "ix_blocks (ss_index old_state) = [sample_block ''/d/a'' 0 150, sample_block ''/d/b'' 100 200]"
    by (simp add: old_state_def sample_index_def index_add_def index_new_def sort_blocks_def sample_block_def)
  have c: "retention_cutoff 86400000000180 1 = 180" by (simp add: retention_cutoff_def wrap_i64_def)
  obtain st' where r: "enforce 86400000000180 1 None (\<lambda>_. Unlink_Failed ''busy'') id old_state = (Inr (), st')"
  proof -
    have "fst (enforce 86400000000180 1 None (\<lambda>_. Unlink_Failed ''busy'') id old_state) = Inr ()" by (simp add: enforce_def Let_def)
    then show thesis using that by (metis prod.collapse)
  qed
  note t = retention_removes_expired_entries [OF r]
  have "map bm_path (ix_blocks (ss_index st')) = [''/d/b'']" using t by (simp add: blocks c sample_block_def)
  moreover have "ss_files st' ''/d/a'' = ss_files old_state ''/d/a''"
    using conjunct1 [OF conjunct2 [OF t], rule_format, of "sample_block ''/d/a'' 0 150"]
    by (simp add: blocks c) (simp add: sample_block_def)
  ultimately show ?thesis using r by (simp add: old_state_def)
qed

text \<open>The cutoff is the given number of days before now while those days fit, up to 106751 of them.
  Beyond, the product wraps around: with 150000 days the cutoff lies in the future and every block
  is expired.\<close>

theorem retention_cutoff_wraps:
  "(unat days \<le> 106751 \<and> 0 \<le> now_ns \<and> now_ns < 2 ^ 63 \<longrightarrow>
      retention_cutoff now_ns days = now_ns - int (unat days) * 86400000000000) \<and>
   1700000000000000000 < retention_cutoff 1700000000000000000 150000"
proof -
  have "retention_cutoff now_ns days = now_ns - int (unat days) * 86400000000000"
    if "unat days \<le> 106751" "0 \<le> now_ns" "now_ns < 2 ^ 63"
  proof -
    define n where "n = int (unat days)"
    have n: "0 \<le> n" "n \<le> 106751" using that (1) unfolding n_def by linarith+
    have u: "uint days = n" by (simp add: n_def)
    have "sint days = signed_take_bit 63 (uint days)" by (simp add: sint_uint)
    then have "sint days = n" using n unfolding u by (simp add: signed_take_bit_int_eq_self)
    then show ?thesis using n that (2,3) unfolding n_def [symmetric] by (simp add: retention_cutoff_def wrap_i64_id)
  qed
  moreover have "1700000000000000000 < retention_cutoff 1700000000000000000 150000"
    by (simp add: retention_cutoff_def wrap_i64_def)
  ultimately show ?thesis by blast
qed

theorem retention_cutoff_wraps_witness:
  "retention_cutoff 1700000000000000000 7 = 1700000000000000000 - 7 * 86400000000000"
  using retention_cutoff_wraps [of 7 "1700000000000000000"] by simp

subsection \<open>Rows of merged blocks\<close>

datatype stored_row =
    Metric_Row string metric_kind entries i64 metric_value entries
  | Log_Row log_record
  | Span_Row span

definition metric_row :: "string \<Rightarrow> metric_kind \<Rightarrow> label_set \<Rightarrow> data_point \<Rightarrow> stored_row" where
  "metric_row name kind resource dp =
     Metric_Row name kind (ls_entries resource) (dp_timestamp_ns dp) (dp_value dp) (ls_entries (dp_labels dp))"

definition point_row_view :: "point_row \<Rightarrow> stored_row" where
  "point_row_view r = (case r of (name, kind, resource, dp) \<Rightarrow> metric_row name kind resource dp)"

definition run_rows :: "metric_run \<Rightarrow> stored_row multiset" where
  "run_rows r = mset (map (metric_row (mr_name r) (mr_kind r) (mr_resource r)) (mr_points r))"

definition content_rows :: "block_content \<Rightarrow> stored_row multiset" where
  "content_rows c = (case c of
       Run_Rows runs \<Rightarrow> \<Sum>r\<leftarrow>runs. run_rows r
     | Log_Rows ls \<Rightarrow> mset (map Log_Row ls)
     | Span_Rows ss \<Rightarrow> mset (map Span_Row ss))"

definition decoded_rows :: "decoded_blocks \<Rightarrow> stored_row multiset" where
  "decoded_rows db = mset (map point_row_view (db_points db)) + mset (map Log_Row (db_logs db)) + mset (map Span_Row (db_spans db))"

definition block_rows :: "block_files \<Rightarrow> block_metadata \<Rightarrow> stored_row multiset" where
  "block_rows files b = (case files (bm_path b) of None \<Rightarrow> {#} | Some c \<Rightarrow> content_rows c)"

text \<open>What queries can reach: the rows of the files the index names.\<close>

definition visible_rows :: "storage_state \<Rightarrow> stored_row multiset" where
  "visible_rows st = (\<Sum>b\<leftarrow>ix_blocks (ss_index st). block_rows (ss_files st) b)"

text \<open>A reader that opens every file and decodes the rows that were written.\<close>

definition faithful_reader :: "block_reader \<Rightarrow> signal_type \<Rightarrow> bool" where
  "faithful_reader rd signal \<longleftrightarrow> (\<forall>p. br_open rd p = Open_Ok) \<and>
     (\<forall>content db db'. read_rows rd signal content db = Inr db' \<longrightarrow> decoded_rows db' = decoded_rows db + content_rows content)"

lemma read_blocks_rows:
  assumes "faithful_reader rd signal" "read_blocks rd files signal bs db = Inr db'"
  shows "decoded_rows db' = decoded_rows db + (\<Sum>b\<leftarrow>bs. block_rows files b)"
  using assms (2)
proof (induction bs arbitrary: db)
  case (Cons b bs)
  have op: "br_open rd (bm_path b) = Open_Ok" using assms (1) by (simp add: faithful_reader_def)
  show ?case
  proof (cases "files (bm_path b)")
    case None
    then show ?thesis using Cons op by (simp add: block_rows_def)
  next
    case (Some content)
    then obtain db1 where "read_rows rd signal content db = Inr db1" "read_blocks rd files signal bs db1 = Inr db'"
      using Cons.prems op by (auto split: sum.splits)
    then show ?thesis using Cons.IH assms (1) Some by (simp add: faithful_reader_def block_rows_def add.assoc)
  qed
qed simp

lemma read_blocks_signal:
  assumes "read_blocks rd files signal bs db = Inr db'"
  shows "(signal \<noteq> Metrics \<longrightarrow> db_points db' = db_points db) \<and> (signal \<noteq> Logs \<longrightarrow> db_logs db' = db_logs db) \<and>
    (signal \<noteq> Traces \<longrightarrow> db_spans db' = db_spans db)"
  using assms
proof (induction bs arbitrary: db)
  case (Cons b bs)
  have "(signal \<noteq> Metrics \<longrightarrow> db_points d1 = db_points db) \<and> (signal \<noteq> Logs \<longrightarrow> db_logs d1 = db_logs db) \<and>
      (signal \<noteq> Traces \<longrightarrow> db_spans d1 = db_spans db)" if "read_rows rd signal content db = Inr d1" for content d1
    using that by (auto simp: read_rows_def split: signal_type.splits sum.splits)
  then show ?case using Cons by (auto split: open_outcome.splits option.splits sum.splits)
qed simp

lemma kind_rank_inj: "kind_rank a = kind_rank b \<longleftrightarrow> a = b"
  by (cases a; cases b) (simp_all add: kind_rank_def)

lemma mset_sum_views: "mset (map f xs) = (\<Sum>x\<leftarrow>xs. {#f x#})"
  by (induction xs) auto

lemma merged_run_rows:
  assumes "k \<in> row_key ` set rows"
  shows "run_rows (merged_run rows k) = mset (map point_row_view (filter (\<lambda>r. row_key r = k) rows))"
proof -
  let ?grp = "filter (\<lambda>r. row_key r = k) rows"
  obtain name kind resource dp where hd: "hd ?grp = (name, kind, resource, dp)" by (rule prod_cases4)
  have "?grp \<noteq> []" using assms by (auto simp: filter_empty_conv)
  then have "hd ?grp \<in> set ?grp" by (rule hd_in_set)
  then have "row_key (hd ?grp) = k" by simp
  then have k: "k = (name, kind_rank kind, ls_entries resource)" unfolding hd by (simp add: row_key_def)
  have view: "metric_row name kind resource (row_point r) = point_row_view r" if "r \<in> set ?grp" for r
  proof -
    obtain name' kind' resource' dp' where r: "r = (name', kind', resource', dp')" by (rule prod_cases4)
    have "row_key r = k" using that by simp
    then show ?thesis by (simp add: r k row_key_def point_row_view_def metric_row_def row_point_def kind_rank_inj)
  qed
  have "run_rows (merged_run rows k) = mset (map (\<lambda>r. metric_row name kind resource (row_point r)) ?grp)"
    unfolding run_rows_def merged_run_def Let_def hd by (simp add: image_mset.compositionality comp_def)
  also have "map (\<lambda>r. metric_row name kind resource (row_point r)) ?grp = map point_row_view ?grp"
    using view by (rule map_cong [OF refl])
  finally show ?thesis .
qed

lemma merged_runs_rows: "(\<Sum>r\<leftarrow>merged_runs rows. run_rows r) = mset (map point_row_view rows)"
proof -
  let ?ks = "sort (remdups (map row_key rows))"
  have "(\<Sum>r\<leftarrow>merged_runs rows. run_rows r) = (\<Sum>k\<leftarrow>?ks. run_rows (merged_run rows k))"
    by (simp add: merged_runs_def comp_def)
  also have "\<dots> = (\<Sum>k\<leftarrow>?ks. \<Sum>r\<leftarrow>filter (\<lambda>r. row_key r = k) rows. {#point_row_view r#})"
    by (intro arg_cong [where f = sum_list] map_cong refl) (simp add: merged_run_rows mset_sum_views)
  also have "\<dots> = (\<Sum>r\<leftarrow>rows. {#point_row_view r#})" by (rule sum_list_groups) auto
  finally show ?thesis by (simp add: mset_sum_views)
qed

lemma merge_points_rows:
  assumes "merge_points pts = Inr (content, rest)"
  shows "content_rows content = mset (map point_row_view pts)"
proof -
  define rows where "rows = sort_key (\<lambda>r. dp_timestamp_ns (row_point r)) pts"
  have "content = Run_Rows (merged_runs rows)"
    using assms unfolding merge_points_def Let_def rows_def [symmetric] by (cases rows) simp_all
  then have "content_rows content = mset (map point_row_view rows)" by (simp add: content_rows_def merged_runs_rows)
  then show ?thesis by (simp add: rows_def)
qed

lemma write_merged_rows:
  assumes "write_merged dest fo signal db lv = Inr (meta, content)"
    and "signal \<noteq> Metrics \<Longrightarrow> db_points db = []" "signal \<noteq> Logs \<Longrightarrow> db_logs db = []" "signal \<noteq> Traces \<Longrightarrow> db_spans db = []"
  shows "content_rows content = decoded_rows db" and "\<exists>s e. bm_path meta = merged_path (fst dest) (snd dest) s e"
proof -
  show "content_rows content = decoded_rows db"
  proof (cases signal)
    case Metrics
    then obtain rest where "merge_points (db_points db) = Inr (content, rest)"
      using assms (1) by (auto simp: write_merged_def split: sum.splits option.splits)
    then show ?thesis using merge_points_rows Metrics assms (3,4) by (simp add: decoded_rows_def)
  next
    case Logs
    then have "content = Log_Rows (sort_key lr_timestamp_ns (db_logs db))"
      using assms (1) by (auto simp: write_merged_def merge_logs_def Let_def split: sum.splits option.splits list.splits)
    then show ?thesis using Logs assms (2,4) by (simp add: decoded_rows_def content_rows_def)
  next
    case Traces
    then have "content = Span_Rows (sort_key sp_start_time_ns (db_spans db))"
      using assms (1) by (auto simp: write_merged_def merge_spans_def Let_def split: sum.splits option.splits list.splits)
    then show ?thesis using Traces assms (2,3) by (simp add: decoded_rows_def content_rows_def)
  qed
  show "\<exists>s e. bm_path meta = merged_path (fst dest) (snd dest) s e"
    using assms (1) by (fastforce simp: write_merged_def split: sum.splits option.splits)
qed

lemma merge_blocks_rows:
  assumes "faithful_reader rd signal" "merge_blocks rd dest fo signal files sources = Inr merged"
  shows "(\<Sum>b\<leftarrow>sources. block_rows files b) = (case merged of None \<Rightarrow> {#} | Some (meta, content) \<Rightarrow> content_rows content)"
    and "merged = Some (meta, content) \<Longrightarrow> \<exists>s e. bm_path meta = merged_path (fst dest) (snd dest) s e"
proof -
  obtain db where db: "read_blocks rd files signal sources \<lparr>db_points = [], db_logs = [], db_spans = []\<rparr> = Inr db"
    using assms (2) by (auto simp: merge_blocks_def read_source_blocks_def split: sum.splits)
  have rows: "decoded_rows db = (\<Sum>b\<leftarrow>sources. block_rows files b)"
    using read_blocks_rows [OF assms (1) db] by (simp add: decoded_rows_def)
  have only: "signal \<noteq> Metrics \<Longrightarrow> db_points db = []" "signal \<noteq> Logs \<Longrightarrow> db_logs db = []" "signal \<noteq> Traces \<Longrightarrow> db_spans db = []"
    using read_blocks_signal [OF db] by simp_all
  note merged = assms (2) [unfolded merge_blocks_def read_source_blocks_def db sum.case]
  let ?wm = "write_merged dest fo signal db (union_label_values MAX_LABEL_VALUES_PER_FIELD sources)"
  have some: "?wm = Inr (meta', content')" if "merged = Some (meta', content')" for meta' content'
    using merged that by (simp split: if_splits sum.splits)
  have none: "decoded_rows db = {#}" if "merged = None"
    using merged that by (simp add: decoded_rows_def split: if_splits sum.splits)
  show "(\<Sum>b\<leftarrow>sources. block_rows files b) = (case merged of None \<Rightarrow> {#} | Some (meta, content) \<Rightarrow> content_rows content)"
  proof (cases merged)
    case (Some mc)
    obtain meta' content' where mc: "mc = (meta', content')" by (cases mc)
    show ?thesis using write_merged_rows (1) [OF some only] rows unfolding Some mc by simp
  qed (simp add: none flip: rows)
  show "\<exists>s e. bm_path meta = merged_path (fst dest) (snd dest) s e" if "merged = Some (meta, content)"
    using write_merged_rows (2) [OF some [OF that] only] .
qed

text \<open>The entries of the index that a replacement removes are the sources.\<close>

lemma replaced_sources:
  assumes "distinct (map bm_path bs)" "distinct sources" "set sources \<subseteq> set bs"
  shows "mset (filter (\<lambda>b. bm_path b \<in> bm_path ` set sources) bs) = mset sources"
proof -
  have "distinct (filter (\<lambda>b. bm_path b \<in> bm_path ` set sources) bs)" using assms (1) by (simp add: distinct_map)
  moreover have "set (filter (\<lambda>b. bm_path b \<in> bm_path ` set sources) bs) = set sources"
    using assms (1,3) by (auto simp: distinct_map inj_on_def)
  ultimately show ?thesis using assms (2) by (metis set_eq_iff_mset_eq_distinct)
qed

lemma sum_list_mset: "mset xs = mset ys \<Longrightarrow> (\<Sum>x\<leftarrow>xs. f x) = (\<Sum>y\<leftarrow>ys. f y)" for f :: "'a \<Rightarrow> 'b :: comm_monoid_add"
  by (simp flip: sum_mset_sum_list)

lemma sum_list_filter_split:
  "(\<Sum>x\<leftarrow>xs. f x) = (\<Sum>x\<leftarrow>filter P xs. f x) + (\<Sum>x\<leftarrow>filter (\<lambda>x. \<not> P x) xs. f x)" for f :: "'a \<Rightarrow> 'b :: comm_monoid_add"
  by (induction xs) (auto simp: ac_simps)

subsection \<open>A merge conserves the rows\<close>

definition block_paths :: "storage_state \<Rightarrow> string set" where
  "block_paths st = bm_path ` set (ix_blocks (ss_index st))"

definition paths_distinct :: "storage_state \<Rightarrow> bool" where
  "paths_distinct st \<longleftrightarrow> distinct (map bm_path (ix_blocks (ss_index st)))"

text \<open>The names the given identifiers lead to are not in use.\<close>

definition fresh_dest :: "string \<times> string \<Rightarrow> storage_state \<Rightarrow> bool" where
  "fresh_dest dest st \<longleftrightarrow> (\<forall>s e. merged_path (fst dest) (snd dest) s e \<notin> block_paths st)"

lemma index_replace_mset:
  assumes "sources \<noteq> []"
  shows "mset (ix_blocks (index_replace (map bm_path sources) new ix)) =
    mset (filter (\<lambda>b. bm_path b \<notin> bm_path ` set sources) (ix_blocks ix)) + mset (case new of None \<Rightarrow> [] | Some m \<Rightarrow> [m])"
  using assms by (cases new) (auto simp: index_replace_def sort_blocks_def Let_def)

text \<open>How a merge can end when no other task interferes: without a change, or with the sources replaced.\<close>

lemma merge_and_publish_cases:
  assumes "merge_and_publish pre io signal sources st = (res, st')" "mi_meanwhile io = id" "st' \<noteq> st"
  obtains merged where
    "merge_blocks (mi_reader io) (mi_dest io) (mi_file io) signal (ss_files st) sources = Inr merged"
    "ss_index st' = index_replace (map bm_path sources) (map_option fst merged) (ss_index st)"
    "\<forall>p. p \<notin> bm_path ` set sources \<longrightarrow> ss_files st' p =
       (case merged of None \<Rightarrow> ss_files st p | Some (meta, content) \<Rightarrow> if p = bm_path meta then Some content else ss_files st p)"
proof -
  obtain merged where m: "merge_blocks (mi_reader io) (mi_dest io) (mi_file io) signal (ss_files st) sources = Inr merged"
    using assms by (auto simp: merge_and_publish_def Let_def split: option.splits sum.splits)
  moreover have "mi_panic io = None" using assms by (auto simp: merge_and_publish_def Let_def split: option.splits)
  ultimately show thesis
    using assms (1,2) by (intro that [OF m]) (auto simp: merge_and_publish_def Let_def unlink_files_def split: option.splits)
qed

lemma merge_and_publish_rows:
  assumes reader: "faithful_reader (mi_reader io) signal" and alone: "mi_meanwhile io = id"
    and sources: "sources \<noteq> []" "distinct sources" "set sources \<subseteq> set (ix_blocks (ss_index st))"
    and ok: "paths_distinct st" "fresh_dest (mi_dest io) st"
    and run: "merge_and_publish pre io signal sources st = (res, st')" and changed: "st' \<noteq> st"
  obtains new s e where "visible_rows st' = visible_rows st" "set new \<subseteq> {merged_path (fst (mi_dest io)) (snd (mi_dest io)) s e}" "distinct new"
    "mset (map bm_path (ix_blocks (ss_index st'))) =
       mset (map bm_path (filter (\<lambda>b. bm_path b \<notin> bm_path ` set sources) (ix_blocks (ss_index st)))) + mset new"
proof -
  let ?kept = "filter (\<lambda>b. bm_path b \<notin> bm_path ` set sources) (ix_blocks (ss_index st))"
  from merge_and_publish_cases [OF run alone changed] obtain merged where
    m: "merge_blocks (mi_reader io) (mi_dest io) (mi_file io) signal (ss_files st) sources = Inr merged"
    and ix: "ss_index st' = index_replace (map bm_path sources) (map_option fst merged) (ss_index st)"
    and files: "\<forall>p. p \<notin> bm_path ` set sources \<longrightarrow> ss_files st' p =
       (case merged of None \<Rightarrow> ss_files st p | Some (meta, content) \<Rightarrow> if p = bm_path meta then Some content else ss_files st p)" .
  define new where "new = (case map_option fst merged of None \<Rightarrow> [] | Some mt \<Rightarrow> [mt])"
  have blocks: "mset (ix_blocks (ss_index st')) = mset (?kept @ new)"
    unfolding ix index_replace_mset [OF sources (1)] new_def by simp
  have total: "visible_rows st = (\<Sum>b\<leftarrow>sources. block_rows (ss_files st) b) + (\<Sum>b\<leftarrow>?kept. block_rows (ss_files st) b)"
    unfolding visible_rows_def sum_list_filter_split [of "block_rows (ss_files st)" "ix_blocks (ss_index st)" "\<lambda>b. bm_path b \<in> bm_path ` set sources"]
      sum_list_mset [OF replaced_sources [OF ok (1) [unfolded paths_distinct_def] sources (2,3)]] by simp
  have "\<exists>s e. bm_path ` set new \<subseteq> {merged_path (fst (mi_dest io)) (snd (mi_dest io)) s e}"
    using merge_blocks_rows (2) [OF reader m] by (cases merged) (auto simp: new_def)
  then obtain s e where path: "bm_path ` set new \<subseteq> {merged_path (fst (mi_dest io)) (snd (mi_dest io)) s e}" by blast
  then have fresh: "bm_path b \<notin> block_paths st" if "b \<in> set new" for b using ok (2) that by (auto simp: fresh_dest_def)
  have kept: "block_rows (ss_files st') b = block_rows (ss_files st) b" if "b \<in> set ?kept" for b
  proof -
    have "bm_path b \<in> block_paths st" using that by (simp add: block_paths_def)
    then have "bm_path b \<notin> bm_path ` set new" using fresh by auto
    then show ?thesis using that files [rule_format, of "bm_path b"] by (auto simp: block_rows_def new_def split: option.splits)
  qed
  have "(\<Sum>b\<leftarrow>new. block_rows (ss_files st') b) = (\<Sum>b\<leftarrow>sources. block_rows (ss_files st) b)"
  proof (cases merged)
    case (Some mc)
    then have "bm_path (fst mc) \<notin> bm_path ` set sources" using fresh [of "fst mc"] sources (3) by (auto simp: new_def block_paths_def)
    then show ?thesis using merge_blocks_rows (1) [OF reader m] files [rule_format, of "bm_path (fst mc)"] Some
      by (simp add: new_def block_rows_def split: prod.splits)
  qed (simp add: new_def merge_blocks_rows (1) [OF reader m])
  moreover have "map (block_rows (ss_files st')) ?kept = map (block_rows (ss_files st)) ?kept" using kept by (rule map_cong [OF refl])
  moreover have "visible_rows st' = (\<Sum>b\<leftarrow>?kept. block_rows (ss_files st') b) + (\<Sum>b\<leftarrow>new. block_rows (ss_files st') b)"
    unfolding visible_rows_def sum_list_mset [OF blocks] by simp
  ultimately have "visible_rows st' = visible_rows st" unfolding total by (simp only: add.commute)
  moreover have "distinct (map bm_path new)" by (simp add: new_def split: option.splits)
  ultimately show thesis using that [of "map bm_path new" s e] path arg_cong [OF blocks, of "image_mset bm_path"] by simp
qed

text \<open>The arguments of a pass: reliable readers, no interference, and identifiers that are new.\<close>

definition pass_ok :: "(nat \<Rightarrow> merge_io) \<Rightarrow> bool" where
  "pass_ok ios \<longleftrightarrow> (\<forall>n signal. faithful_reader (mi_reader (ios n)) signal) \<and> (\<forall>n. mi_meanwhile (ios n) = id) \<and>
     (\<forall>m n s e s' e'. m \<noteq> n \<longrightarrow> merged_path (fst (mi_dest (ios m))) (snd (mi_dest (ios m))) s e \<noteq>
        merged_path (fst (mi_dest (ios n))) (snd (mi_dest (ios n))) s' e')"

definition fresh_from :: "(nat \<Rightarrow> merge_io) \<Rightarrow> nat \<Rightarrow> storage_state \<Rightarrow> bool" where
  "fresh_from ios n st \<longleftrightarrow> (\<forall>m\<ge>n. fresh_dest (mi_dest (ios m)) st)"

lemma merge_step:
  assumes ios: "pass_ok ios" and sources: "sources \<noteq> []" "distinct sources" "set sources \<subseteq> set (ix_blocks (ss_index st))"
    and ok: "paths_distinct st" "fresh_from ios n st"
    and run: "merge_and_publish pre (ios n) signal sources st = (res, st')"
  shows "visible_rows st' = visible_rows st" and "paths_distinct st'" and "fresh_from ios (Suc n) st'"
    and "b \<in> set (ix_blocks (ss_index st)) \<Longrightarrow> b \<notin> set sources \<Longrightarrow> b \<in> set (ix_blocks (ss_index st'))"
proof -
  let ?kept = "filter (\<lambda>b. bm_path b \<notin> bm_path ` set sources) (ix_blocks (ss_index st))"
  have io: "faithful_reader (mi_reader (ios n)) signal" "mi_meanwhile (ios n) = id" "fresh_dest (mi_dest (ios n)) st"
    using ios ok (2) by (auto simp: pass_ok_def fresh_from_def)
  have all: "visible_rows st' = visible_rows st \<and> paths_distinct st' \<and> fresh_from ios (Suc n) st'"
  proof (cases "st' = st")
    case False
    from merge_and_publish_rows [OF io (1,2) sources ok (1) io (3) run False] obtain new s e where
      new: "visible_rows st' = visible_rows st" "set new \<subseteq> {merged_path (fst (mi_dest (ios n))) (snd (mi_dest (ios n))) s e}" "distinct new"
      and paths: "mset (map bm_path (ix_blocks (ss_index st'))) = mset (map bm_path ?kept @ new)" by (metis mset_append)
    have "set new \<inter> block_paths st = {}" using new (2) io (3) by (auto simp: fresh_dest_def)
    then have "distinct (map bm_path ?kept @ new)"
      using new (3) ok (1) by (auto simp: paths_distinct_def distinct_map_filter block_paths_def)
    then have "paths_distinct st'" unfolding paths_distinct_def using paths mset_eq_imp_distinct_iff by blast
    moreover have "block_paths st' \<subseteq> block_paths st \<union> set new"
      using mset_eq_setD [OF paths] by (auto simp: block_paths_def)
    then have sub: "p \<in> block_paths st \<or> p = merged_path (fst (mi_dest (ios n))) (snd (mi_dest (ios n))) s e"
      if "p \<in> block_paths st'" for p using that new (2) by auto
    have "fresh_dest (mi_dest (ios m)) st'" if "Suc n \<le> m" for m
      using sub [of "merged_path (fst (mi_dest (ios m))) (snd (mi_dest (ios m))) _ _"] ok (2) ios that
      by (simp add: fresh_dest_def fresh_from_def pass_ok_def) (metis Suc_n_not_le_n Suc_leD)
    then have "fresh_from ios (Suc n) st'" by (simp add: fresh_from_def)
    ultimately show ?thesis using new (1) by blast
  qed (use ok in \<open>auto simp: fresh_from_def\<close>)
  then show "visible_rows st' = visible_rows st" "paths_distinct st'" "fresh_from ios (Suc n) st'" by blast+
  show "b \<in> set (ix_blocks (ss_index st'))" if b: "b \<in> set (ix_blocks (ss_index st))" "b \<notin> set sources"
  proof (cases "st' = st")
    case False
    have "bm_path b \<notin> bm_path ` set sources" using ok (1) b sources (3) by (auto simp: paths_distinct_def distinct_map inj_on_def)
    moreover obtain merged :: "(block_metadata \<times> block_content) option" where
      "ss_index st' = index_replace (map bm_path sources) (map_option fst merged) (ss_index st)"
      by (rule merge_and_publish_cases [OF run io (2) False]) (rule that)
    ultimately show ?thesis
      using b (1) arg_cong [OF index_replace_mset [OF sources (1), of "map_option fst merged" "ss_index st"], of set_mset] by simp
  qed (use b in simp)
qed

lemma tier_groups_partition:
  "concat (tier_groups window bs) = bs" and "g \<in> set (tier_groups window bs) \<Longrightarrow> g \<noteq> []"
  by (induction window bs rule: tier_groups.induct) (auto simp: Let_def)

lemma merge_groups_rows:
  assumes "pass_ok ios" "merge_groups k bound ios signal gs md st = (res, md', st')"
    and "paths_distinct st" "fresh_from ios md st" "set (concat gs) \<subseteq> set (ix_blocks (ss_index st))" "distinct (concat gs)"
  shows "visible_rows st' = visible_rows st \<and> paths_distinct st' \<and> (res = Inr () \<longrightarrow> fresh_from ios md' st')"
  using assms (2-)
proof (induction gs arbitrary: md st)
  case (Cons g gs)
  note prems = Cons.prems
  show ?case
  proof (cases "length g < 2 \<or> signal = Traces")
    case True
    then show ?thesis using Cons by (auto split: if_splits)
  next
    case False
    let ?src = "take (max k 2) g"
    obtain r st1 where m: "merge_and_publish ''tiered compaction task panicked: '' (ios md) signal ?src st = (r, st1)" by (rule prod.exhaust)
    have src: "?src \<noteq> []" "distinct ?src" "set ?src \<subseteq> set (ix_blocks (ss_index st))"
      using False prems (4,5) by (auto dest: in_set_takeD)
    note step = merge_step [OF assms (1) src prems (2,3) m]
    have rest: "set (concat gs) \<subseteq> set (ix_blocks (ss_index st1))"
    proof
      fix b assume b: "b \<in> set (concat gs)"
      then have "b \<notin> set ?src" using prems (5) by (auto dest: in_set_takeD)
      then show "b \<in> set (ix_blocks (ss_index st1))" using step (4) b prems (4) by auto
    qed
    show ?thesis
    proof (cases r)
      case Inl
      then show ?thesis using prems (1) False m step by auto
    next
      case Inr
      then show ?thesis using prems (1,5) False m step (1-3) Cons.IH [OF _ step (2,3) rest] by (auto split: if_splits)
    qed
  qed
qed simp

lemma compact_signals_rows:
  assumes "pass_ok ios" "compact_signals now_ns k bound ios signals md st = (res, md', st')" "paths_distinct st" "fresh_from ios md st"
  shows "visible_rows st' = visible_rows st \<and> paths_distinct st'"
  using assms (2-)
proof (induction signals arbitrary: md st)
  case (Cons signal signals)
  define cs where "cs = tier_candidates now_ns signal (ss_index st)"
  obtain r md1 st1 where g: "merge_groups k bound ios signal (tier_groups (tier_window now_ns cs) cs) md st = (r, md1, st1)"
    by (rule prod_cases3)
  have "set cs \<subseteq> set (ix_blocks (ss_index st))" by (auto simp: cs_def tier_candidates_def sort_blocks_def)
  moreover have "distinct cs" using Cons.prems (2) by (simp add: cs_def tier_candidates_def sort_blocks_def paths_distinct_def distinct_map)
  ultimately have one: "visible_rows st1 = visible_rows st \<and> paths_distinct st1 \<and> (r = Inr () \<longrightarrow> fresh_from ios md1 st1)"
    using merge_groups_rows [OF assms (1) g Cons.prems (2,3)] by (simp add: tier_groups_partition)
  show ?case
  proof (cases "length cs < 2")
    case True
    then show ?thesis using Cons by (simp add: cs_def [symmetric])
  next
    case False
    then show ?thesis using Cons.prems (1) one g Cons.IH [of md1 st1] by (cases r) (simp_all add: cs_def [symmetric])
  qed
qed simp

text \<open>C12: Compaction conserves what queries can reach. When the reader decodes what was written and the new
  names are not in use, a pass over the small blocks and a tiered pass over all signals leave the
  multiset of the visible rows as it was, whether they end with an error or not, and no path is
  listed twice.\<close>

theorem compaction_conserves_rows:
  assumes "pass_ok ios" "paths_distinct st" "fresh_from ios 0 st"
  shows "visible_rows (snd (compact_once max_merge (ios 0) st)) = visible_rows st \<and>
    visible_rows (snd (snd (compact_tiered now_ns max_merge max_merges ios st))) = visible_rows st \<and>
    paths_distinct (snd (compact_once max_merge (ios 0) st)) \<and>
    paths_distinct (snd (snd (compact_tiered now_ns max_merge max_merges ios st)))"
proof -
  let ?src = "small_blocks max_merge (ss_index st)"
  have "visible_rows (snd (compact_once max_merge (ios 0) st)) = visible_rows st \<and> paths_distinct (snd (compact_once max_merge (ios 0) st))"
  proof (cases "length (filter (\<lambda>b. bm_row_count b < 10000) (ix_blocks (ss_index st))) < 2")
    case True
    then show ?thesis using assms (2) by (simp add: compact_once_def)
  next
    case False
    then have src: "?src \<noteq> []" "distinct ?src" "set ?src \<subseteq> set (ix_blocks (ss_index st))"
      using assms (2) by (auto simp: small_blocks_def Let_def paths_distinct_def distinct_map dest: in_set_takeD)
    obtain r st1 where m: "merge_and_publish ''compaction task panicked: '' (ios 0) (bm_signal_type (hd ?src)) ?src st = (r, st1)"
      by (rule prod.exhaust)
    then have "snd (compact_once max_merge (ios 0) st) = st1" using False by (simp add: compact_once_def Let_def)
    then show ?thesis using merge_step (1,2) [OF assms (1) src assms (2,3) m] by simp
  qed
  moreover have "visible_rows (snd (snd (compact_tiered now_ns max_merge max_merges ios st))) = visible_rows st \<and>
      paths_distinct (snd (snd (compact_tiered now_ns max_merge max_merges ios st)))"
    using compact_signals_rows [OF assms (1) _ assms (2,3)] by (metis compact_tiered_def prod.collapse)
  ultimately show ?thesis by blast
qed

text \<open>A reader that decodes every file as it was written, and refuses one of another signal.\<close>

definition run_points :: "metric_run \<Rightarrow> point_row list" where
  "run_points r = map (\<lambda>dp. (mr_name r, mr_kind r, mr_resource r, dp)) (mr_points r)"

definition plain_reader :: block_reader where
  "plain_reader = \<lparr>br_open = (\<lambda>_. Open_Ok),
     br_points = (\<lambda>c. case c of Run_Rows runs \<Rightarrow> Inr (concat (map run_points runs)) | _ \<Rightarrow> Inl (Parquet ''column'')),
     br_logs = (\<lambda>c. case c of Log_Rows ls \<Rightarrow> Inr ls | _ \<Rightarrow> Inl (Parquet ''column'')),
     br_spans = (\<lambda>c. case c of Span_Rows ss \<Rightarrow> Inr ss | _ \<Rightarrow> Inl (Parquet ''column''))\<rparr>"

definition sample_ios :: "nat \<Rightarrow> merge_io" where
  "sample_ios n = \<lparr>mi_panic = None, mi_reader = plain_reader, mi_dest = (''/d'', replicate (Suc n) (CHR ''u'')),
     mi_file = sample_file None, mi_unlink = (\<lambda>_. Unlinked), mi_meanwhile = id\<rparr>"

lemma faithful_plain_reader: "faithful_reader plain_reader signal"
proof -
  have "mset (map point_row_view (concat (map run_points runs))) = (\<Sum>r\<leftarrow>runs. run_rows r)" for runs
    by (induction runs) (auto simp: run_points_def run_rows_def point_row_view_def image_mset.compositionality comp_def)
  then show ?thesis
    by (auto simp: faithful_reader_def plain_reader_def read_rows_def decoded_rows_def content_rows_def ac_simps
        split: signal_type.splits block_content.splits)
qed

lemma merged_path_suffix:
  assumes "CHR ''_'' \<notin> set uuid"
  shows "takeWhile (\<lambda>c. c \<noteq> CHR ''_'') (rev (merged_path dir uuid s e)) = rev (uuid @ ''.parquet'')"
proof -
  have "rev (merged_path dir uuid s e) = rev (uuid @ ''.parquet'') @ CHR ''_'' # rev (dir @ ''/'' @ show_i64 s @ ''_'' @ show_i64 e)"
    by (simp add: merged_path_def path_join_def)
  then show ?thesis using assms by (auto simp: takeWhile_append2 takeWhile_tail)
qed

lemma sample_ios_ok: "pass_ok sample_ios"
proof -
  have "m = n" if "merged_path ''/d'' (replicate (Suc m) (CHR ''u'')) s e = merged_path ''/d'' (replicate (Suc n) (CHR ''u'')) s' e'" for m n s e s' e'
  proof -
    have "rev (replicate (Suc m) (CHR ''u'') @ ''.parquet'') = rev (replicate (Suc n) (CHR ''u'') @ ''.parquet'')"
      using merged_path_suffix [of "replicate (Suc m) (CHR ''u'')" "''/d''" s e] merged_path_suffix [of "replicate (Suc n) (CHR ''u'')" "''/d''" s' e']
      by (simp only: that) simp
    then show ?thesis by (metis append_same_eq length_replicate old.nat.inject rev_is_rev_conv)
  qed
  then show ?thesis by (auto simp: pass_ok_def sample_ios_def faithful_plain_reader)
qed

lemma old_state_blocks: "ix_blocks (ss_index old_state) = [sample_block ''/d/a'' 0 150, sample_block ''/d/b'' 100 200]"
  by (simp add: old_state_def sample_index_def index_add_def index_new_def sort_blocks_def sample_block_def)

theorem compaction_conserves_rows_witness:
  "length (small_blocks 8 (ss_index old_state)) = 2 \<and> visible_rows old_state \<noteq> {#} \<and>
   visible_rows (snd (compact_once 8 (sample_ios 0) old_state)) = visible_rows old_state"
proof -
  have "paths_distinct old_state" by (simp add: paths_distinct_def old_state_blocks sample_block_def)
  moreover have "fresh_dest (''/d'', replicate (Suc n) (CHR ''u'')) old_state" for n
  proof -
    have "length (merged_path ''/d'' (replicate (Suc n) (CHR ''u'')) s e) > 4" for s e by (simp add: merged_path_def path_join_def)
    moreover have "length p = 4" if "p \<in> block_paths old_state" for p
      using that by (auto simp: block_paths_def old_state_blocks sample_block_def)
    ultimately show ?thesis unfolding fresh_dest_def by (metis fst_conv snd_conv less_irrefl)
  qed
  then have "fresh_from sample_ios 0 old_state" by (simp add: fresh_from_def sample_ios_def)
  ultimately have "visible_rows (snd (compact_once 8 (sample_ios 0) old_state)) = visible_rows old_state"
    using compaction_conserves_rows [OF sample_ios_ok, of old_state 8] by blast
  moreover have "length (small_blocks 8 (ss_index old_state)) = 2" by (simp add: small_blocks_def old_state_blocks sample_block_def)
  moreover have "visible_rows old_state \<noteq> {#}"
    by (simp add: visible_rows_def old_state_blocks) (simp add: sample_block_def block_rows_def old_state_def content_rows_def run_rows_def sample_run_def)
  ultimately show ?thesis by blast
qed

subsection \<open>Names of merged blocks\<close>

lemma show_i64_head: "\<exists>c cs. show_i64 i = c # cs \<and> c \<noteq> CHR ''l'' \<and> c \<noteq> CHR ''t''"
proof -
  have "\<exists>c cs. dec_string n = c # cs \<and> c \<noteq> CHR ''l'' \<and> c \<noteq> CHR ''t''" for n
  proof -
    obtain c cs where c: "dec_string n = c # cs" by (metis dec_string_nonempty list.exhaust)
    then have "(of_char c :: nat) \<le> 57" using dec_string_chars [of c n] by simp
    then show ?thesis using c by auto
  qed
  then show ?thesis by (simp add: show_i64_def)
qed

lemma show_i64_no_slash: "CHR ''/'' \<notin> set (show_i64 i)"
proof -
  have "CHR ''/'' \<notin> set (dec_string n)" for n using dec_string_chars [of "CHR ''/''" n] by auto
  then show ?thesis by (simp add: show_i64_def)
qed

lemma merged_file_name:
  assumes "CHR ''/'' \<notin> set uuid"
  shows "file_name (merged_path dir uuid s e) = show_i64 s @ ''_'' @ show_i64 e @ ''_'' @ uuid @ ''.parquet''"
proof -
  let ?n = "show_i64 s @ ''_'' @ show_i64 e @ ''_'' @ uuid @ ''.parquet''"
  have "CHR ''/'' \<notin> set (rev ?n)" using assms show_i64_no_slash by simp
  then have "takeWhile (\<lambda>c. c \<noteq> CHR ''/'') (rev ?n @ CHR ''/'' # rev dir) = rev ?n"
    by (subst takeWhile_append2) auto
  moreover have "rev (merged_path dir uuid s e) = rev ?n @ CHR ''/'' # rev dir" by (simp add: merged_path_def path_join_def)
  ultimately show ?thesis unfolding file_name_def by (metis rev_rev_ident)
qed

text \<open>Compaction names a merged block without the prefix of its signal. A merged block of logs is
  therefore not adopted by a reconciliation, whatever its footer says: once the sidecar is lost,
  its rows are on disk and out of reach.\<close>

theorem merged_logs_are_not_recovered:
  assumes "CHR ''/'' \<notin> set uuid" "\<And>ps. mset (order ps) = mset ps" "write_merged (dir, uuid) fo Logs db lv = Inr (meta, content)"
  shows "\<exists>stats. reconcile open_footer order (Some [bm_path meta]) Logs (index_new dir) = (Inr stats, index_new dir)"
proof -
  obtain s e where p: "bm_path meta = merged_path dir uuid s e"
    using assms (3) by (fastforce simp: write_merged_def split: sum.splits option.splits)
  obtain c cs where "show_i64 s = c # cs" "c \<noteq> CHR ''l''" using show_i64_head by blast
  then have no: "\<not> filename_may_hold_signal (bm_path meta) Logs"
    by (simp add: p filename_may_hold_signal_def merged_file_name [OF assms (1)] starts_with_def)
  from reconcile_blocks [OF assms (2), of open_footer "[bm_path meta]" Logs "index_new dir"] obtain stats new where
    r: "reconcile open_footer order (Some [bm_path meta]) Logs (index_new dir) = (Inr stats, (index_new dir)\<lparr>ix_blocks := sort_blocks (filter (\<lambda>b. bm_path b \<in> block_files [bm_path meta]) (ix_blocks (index_new dir)) @ new)\<rparr>)"
    and "set new = {mt. \<exists>p\<in>block_files [bm_path meta]. adopted open_footer Logs (bm_path ` set (ix_blocks (index_new dir))) p = Some mt}" .
  then have "new = []" using no by (auto simp: block_files_def adopted_def)
  then show ?thesis using r by (simp add: index_new_def sort_blocks_def)
qed

theorem merged_logs_are_not_recovered_witness:
  "\<exists>meta content stats. write_merged (''/d'', ''u'') (sample_file None) Logs \<lparr>db_points = [], db_logs = [sample_log 3], db_spans = []\<rparr> [] = Inr (meta, content) \<and>
     bm_path meta = ''/d/3_3_u.parquet'' \<and>
     reconcile (\<lambda>_. Inl (Io ''unread'')) rev (Some [bm_path meta]) Logs (index_new ''/d'') = (Inr stats, index_new ''/d'')"
proof -
  have "(char_of (51 :: nat) :: char) = CHR ''3''" by code_simp
  then obtain meta content where m: "write_merged (''/d'', ''u'') (sample_file None) Logs \<lparr>db_points = [], db_logs = [sample_log 3], db_spans = []\<rparr> [] = Inr (meta, content)"
    "bm_path meta = ''/d/3_3_u.parquet''"
    by (auto simp: write_merged_def merge_logs_def sample_file_def sample_log_def merged_path_def path_join_def show_i64_def dec_string.simps)
  have "CHR ''/'' \<notin> set ''u''" by simp
  from merged_logs_are_not_recovered [OF this mset_rev m (1), of "\<lambda>_. Inl (Io ''unread'')"] show ?thesis using m by blast
qed

subsection \<open>Grouping of the tiers\<close>


end
