(* ===== verification/Float64.thy ===== *)
theory Float64
  imports Models Complex_Main
begin

section \<open>Double precision numbers\<close>

text \<open>
  The arithmetic of \<^verbatim>\<open>f64\<close> that the query engine and the alert rules compute with. A double is the 64
  bits of its IEEE 754 representation. Comparisons read the bits; the four operations compute the
  exact rational result and round it to the nearest double, ties to even. Every operation that
  is undefined returns one quiet NaN; the payload of a NaN is not modelled.
\<close>

subsection \<open>Representation\<close>

definition f64_sign :: "f64 \<Rightarrow> bool" where
  "f64_sign x \<longleftrightarrow> 2 ^ 63 \<le> uint x"

definition f64_mag :: "f64 \<Rightarrow> int" where
  "f64_mag x = uint x mod 2 ^ 63"

definition INF_MAG :: int where
  "INF_MAG = 0x7FF0000000000000"

definition f64_make :: "bool \<Rightarrow> int \<Rightarrow> f64" where
  "f64_make neg m = word_of_int ((if neg then 2 ^ 63 else 0) + m)"

definition F64_NAN :: f64 where "F64_NAN = 0x7FF8000000000000"

definition f64_is_nan :: "f64 \<Rightarrow> bool" where
  "f64_is_nan x \<longleftrightarrow> INF_MAG < f64_mag x"

definition f64_is_inf :: "f64 \<Rightarrow> bool" where
  "f64_is_inf x \<longleftrightarrow> f64_mag x = INF_MAG"

definition f64_finite :: "f64 \<Rightarrow> bool" where
  "f64_finite x \<longleftrightarrow> f64_mag x < INF_MAG"

definition pow2 :: "int \<Rightarrow> rat" where
  "pow2 e = (if 0 \<le> e then 2 ^ nat e else 1 / 2 ^ nat (- e))"

text \<open>Below \<open>2 ^ 52\<close> the number is subnormal.\<close>

definition mag_val :: "int \<Rightarrow> rat" where
  "mag_val m =
     (let e = m div 2 ^ 52; f = m mod 2 ^ 52
      in if e = 0 then of_int f * pow2 (- 1074) else of_int (2 ^ 52 + f) * pow2 (e - 1075))"

definition f64_val :: "f64 \<Rightarrow> rat" where
  "f64_val x = (if f64_sign x then - mag_val (f64_mag x) else mag_val (f64_mag x))"

subsection \<open>Comparisons\<close>

definition f64_key :: "f64 \<Rightarrow> int" where
  "f64_key x = (if f64_sign x then - f64_mag x else f64_mag x)"

definition f64_lt :: "f64 \<Rightarrow> f64 \<Rightarrow> bool" where
  "f64_lt x y \<longleftrightarrow> \<not> f64_is_nan x \<and> \<not> f64_is_nan y \<and> f64_key x < f64_key y"

definition f64_le :: "f64 \<Rightarrow> f64 \<Rightarrow> bool" where
  "f64_le x y \<longleftrightarrow> \<not> f64_is_nan x \<and> \<not> f64_is_nan y \<and> f64_key x \<le> f64_key y"

definition f64_eq :: "f64 \<Rightarrow> f64 \<Rightarrow> bool" where
  "f64_eq x y \<longleftrightarrow> \<not> f64_is_nan x \<and> \<not> f64_is_nan y \<and> f64_key x = f64_key y"

text \<open>\<open>f64::total_cmp\<close> orders all bit patterns.\<close>

definition f64_total_key :: "f64 \<Rightarrow> int" where
  "f64_total_key x = (if f64_sign x then - f64_mag x - 1 else f64_mag x)"

text \<open>\<open>f64::min\<close> and \<open>f64::max\<close> return the other operand of a NaN.\<close>

definition f64_min :: "f64 \<Rightarrow> f64 \<Rightarrow> f64" where
  "f64_min x y = (if f64_is_nan x then y else if f64_is_nan y then x else if f64_lt y x then y else x)"

definition f64_max :: "f64 \<Rightarrow> f64 \<Rightarrow> f64" where
  "f64_max x y = (if f64_is_nan x then y else if f64_is_nan y then x else if f64_lt x y then y else x)"

subsection \<open>Rounding\<close>

function ibits :: "int \<Rightarrow> int" where
  "ibits n = (if n \<le> 0 then 0 else 1 + ibits (n div 2))"
  by auto

termination by (relation "measure nat") auto

declare ibits.simps [simp del]

definition rat_ilog2 :: "rat \<Rightarrow> int" where
  "rat_ilog2 r =
     (case quotient_of r of (n, d) \<Rightarrow>
        let k = ibits n - ibits d in if pow2 k \<le> r then k else k - 1)"

definition round_half_even :: "rat \<Rightarrow> int" where
  "round_half_even q =
     (let f = \<lfloor>q\<rfloor>; d = q - of_int f
      in if d < 1 / 2 then f else if 1 / 2 < d then f + 1 else if even f then f else f + 1)"

text \<open>The exponent of the last place, and the magnitude nearest to a number that is not negative; too
  large a number rounds to infinity.\<close>

definition round_exp :: "rat \<Rightarrow> int" where
  "round_exp r = max (- 1074) (rat_ilog2 r - 52)"

definition round_mag :: "rat \<Rightarrow> int" where
  "round_mag r =
     (if r = 0 then 0
      else min INF_MAG ((round_exp r + 1074) * 2 ^ 52 + round_half_even (r / pow2 (round_exp r))))"

text \<open>\<open>neg\<close> is the sign of a result that is exactly zero.\<close>

definition f64_round :: "bool \<Rightarrow> rat \<Rightarrow> f64" where
  "f64_round neg r = (if r = 0 then f64_make neg 0 else f64_make (r < 0) (round_mag \<bar>r\<bar>))"

subsection \<open>Arithmetic\<close>

definition f64_neg :: "f64 \<Rightarrow> f64" where
  "f64_neg x = f64_make (\<not> f64_sign x) (f64_mag x)"

definition f64_abs :: "f64 \<Rightarrow> f64" where
  "f64_abs x = f64_make False (f64_mag x)"

definition f64_add :: "f64 \<Rightarrow> f64 \<Rightarrow> f64" where
  "f64_add x y =
     (if f64_is_nan x \<or> f64_is_nan y then F64_NAN
      else if f64_is_inf x then if f64_is_inf y \<and> f64_sign x \<noteq> f64_sign y then F64_NAN else x
      else if f64_is_inf y then y
      else f64_round (f64_sign x \<and> f64_sign y) (f64_val x + f64_val y))"

definition f64_sub :: "f64 \<Rightarrow> f64 \<Rightarrow> f64" where
  "f64_sub x y = f64_add x (f64_neg y)"

definition f64_mul :: "f64 \<Rightarrow> f64 \<Rightarrow> f64" where
  "f64_mul x y =
     (let neg = (f64_sign x \<noteq> f64_sign y)
      in if f64_is_nan x \<or> f64_is_nan y then F64_NAN
         else if f64_is_inf x \<or> f64_is_inf y
              then if f64_mag x = 0 \<or> f64_mag y = 0 then F64_NAN else f64_make neg INF_MAG
         else f64_round neg (f64_val x * f64_val y))"

definition f64_div :: "f64 \<Rightarrow> f64 \<Rightarrow> f64" where
  "f64_div x y =
     (let neg = (f64_sign x \<noteq> f64_sign y)
      in if f64_is_nan x \<or> f64_is_nan y then F64_NAN
         else if f64_is_inf x then if f64_is_inf y then F64_NAN else f64_make neg INF_MAG
         else if f64_is_inf y then f64_make neg 0
         else if f64_mag y = 0 then if f64_mag x = 0 then F64_NAN else f64_make neg INF_MAG
         else f64_round neg (f64_val x / f64_val y))"

definition rat_trunc :: "rat \<Rightarrow> int" where
  "rat_trunc r = (if r < 0 then - \<lfloor>- r\<rfloor> else \<lfloor>r\<rfloor>)"

text \<open>The remainder has the sign of the dividend.\<close>

definition f64_rem :: "f64 \<Rightarrow> f64 \<Rightarrow> f64" where
  "f64_rem x y =
     (if f64_is_nan x \<or> f64_is_nan y \<or> f64_is_inf x \<or> f64_mag y = 0 then F64_NAN
      else if f64_is_inf y then x
      else f64_round (f64_sign x) (f64_val x - of_int (rat_trunc (f64_val x / f64_val y)) * f64_val y))"

subsection \<open>Conversions\<close>

definition f64_of_int :: "int \<Rightarrow> f64" where
  "f64_of_int i = f64_round False (of_int i)"

text \<open>A cast to an integer truncates and saturates; a NaN gives zero.\<close>

definition f64_to_int :: "int \<Rightarrow> int \<Rightarrow> f64 \<Rightarrow> int" where
  "f64_to_int lo hi x =
     (if f64_is_nan x then 0
      else if f64_is_inf x then if f64_sign x then lo else hi
      else max lo (min hi (rat_trunc (f64_val x))))"

definition f64_to_i64 :: "f64 \<Rightarrow> i64" where
  "f64_to_i64 = f64_to_int (- (2 ^ 63)) (2 ^ 63 - 1)"

definition f64_to_usize :: "f64 \<Rightarrow> nat" where
  "f64_to_usize x = nat (f64_to_int 0 (2 ^ 64 - 1) x)"

definition f64_floor :: "f64 \<Rightarrow> f64" where
  "f64_floor x =
     (if f64_is_nan x then F64_NAN else if f64_is_inf x then x else f64_round (f64_sign x) (of_int \<lfloor>f64_val x\<rfloor>))"

definition f64_ceil :: "f64 \<Rightarrow> f64" where
  "f64_ceil x =
     (if f64_is_nan x then F64_NAN else if f64_is_inf x then x else f64_round (f64_sign x) (of_int \<lceil>f64_val x\<rceil>))"

text \<open>The constant \<open>f64::EPSILON\<close>, \<open>2 ^ -52\<close>.\<close>

definition F64_EPSILON :: f64 where "F64_EPSILON = 0x3CB0000000000000"

definition F64_INFINITY :: f64 where "F64_INFINITY = 0x7FF0000000000000"

definition F64_NEG_INFINITY :: f64 where "F64_NEG_INFINITY = 0xFFF0000000000000"

subsection \<open>Evaluation\<close>

lemma mag_val_code [code]:
  "mag_val m =
     (if m = 0 then 0
      else let e = m div 2 ^ 52; f = m mod 2 ^ 52
           in if e = 0 then of_int f * pow2 (- 1074) else of_int (2 ^ 52 + f) * pow2 (e - 1075))"
  by (simp add: mag_val_def)

subsection \<open>Order and exactness\<close>

lemma f64_make_sel:
  assumes "0 \<le> m" "m < 2 ^ 63"
  shows "f64_mag (f64_make neg m) = m" "f64_sign (f64_make neg m) = neg"
proof -
  have "uint (f64_make neg m) = (if neg then 2 ^ 63 else 0) + m"
    unfolding f64_make_def uint_word_of_int using assms by auto
  then show "f64_mag (f64_make neg m) = m" "f64_sign (f64_make neg m) = neg"
    using assms by (auto simp: f64_mag_def f64_sign_def)
qed

lemma f64_mag_range: "0 \<le> f64_mag x" "f64_mag x < 2 ^ 63"
  by (simp_all add: f64_mag_def)

lemma f64_make_mag [simp]: "f64_make (f64_sign x) (f64_mag x) = x"
proof -
  have "uint x < 2 ^ 64" using uint_lt2p [of x] by simp
  then have "uint x mod 2 ^ 63 = uint x - 2 ^ 63" if "2 ^ 63 \<le> uint x"
    using that minus_mod_self2 [of "uint x" "2 ^ 63"] mod_pos_pos_trivial [of "uint x - 2 ^ 63" "2 ^ 63"] by simp
  then have "(if f64_sign x then 2 ^ 63 else 0) + f64_mag x = uint x"
    by (auto simp: f64_sign_def f64_mag_def)
  then show ?thesis unfolding f64_make_def by simp
qed

lemma pow2_pos [simp]: "0 < pow2 e"
  by (simp add: pow2_def)

lemma pow2_nonzero [simp]: "pow2 e \<noteq> 0"
  using pow2_pos [of e] by linarith

lemma pow2_Suc: "pow2 (e + 1) = 2 * pow2 e"
proof (cases "0 \<le> e")
  case True
  then show ?thesis by (simp add: pow2_def nat_add_distrib)
next
  case False
  then have "nat (- e) = Suc (nat (- (e + 1)))" by simp
  then show ?thesis using False by (simp add: pow2_def)
qed

lemma pow2_add: "0 \<le> k \<Longrightarrow> pow2 (e + k) = 2 ^ nat k * pow2 e"
proof (induction "nat k" arbitrary: k)
  case (Suc n)
  then have "pow2 (e + (k - 1)) = 2 ^ nat (k - 1) * pow2 e" by simp
  moreover have "nat k = Suc (nat (k - 1))" using Suc by simp
  ultimately show ?case using pow2_Suc [of "e + (k - 1)"] by simp
qed simp

text \<open>One formula for normal and subnormal magnitudes.\<close>

definition mag_exp :: "int \<Rightarrow> int" where
  "mag_exp m = max 1 (m div 2 ^ 52)"

lemma mag_val_eq: "0 \<le> m \<Longrightarrow> mag_val m = of_int (m - (mag_exp m - 1) * 2 ^ 52) * pow2 (mag_exp m - 1075)"
proof -
  assume m: "0 \<le> m"
  define e where "e = m div 2 ^ 52"
  have d: "m = e * 2 ^ 52 + m mod 2 ^ 52" by (simp add: e_def)
  have "0 \<le> e" using m by (simp add: e_def)
  then consider "e = 0" | "1 \<le> e" by linarith
  then show ?thesis
  proof cases
    case 1
    then have "m mod 2 ^ 52 = m" using d by simp
    then show ?thesis using 1 by (simp add: mag_val_def mag_exp_def e_def)
  next
    case 2
    then have "mag_exp m = e" by (simp add: mag_exp_def e_def)
    moreover have "m - (e - 1) * 2 ^ 52 = 2 ^ 52 + m mod 2 ^ 52" using d by (simp add: algebra_simps)
    ultimately show ?thesis using 2 by (simp add: mag_val_def e_def)
  qed
qed

lemma mag_val_step: "0 \<le> m \<Longrightarrow> mag_val m < mag_val (m + 1)"
proof -
  assume m: "0 \<le> m"
  show ?thesis
  proof (cases "mag_exp (m + 1) = mag_exp m")
    case True
    then show ?thesis using m by (simp add: mag_val_eq)
  next
    case False
    define e e1 where e: "e = m div 2 ^ 52" and e1: "e1 = (m + 1) div 2 ^ 52"
    have d: "e * 2 ^ 52 \<le> m" "m < e * 2 ^ 52 + 2 ^ 52" "e1 * 2 ^ 52 \<le> m + 1" "m + 1 < e1 * 2 ^ 52 + 2 ^ 52"
      unfolding e e1 by (simp_all add: minus_mod_eq_div_mult [symmetric])
    then have "e \<le> e1" "e1 \<le> e + 1" by simp_all
    moreover have "m + 1 = e1 * 2 ^ 52" if "e1 = e + 1" using d that by simp
    ultimately have "e1 = e + 1 \<and> m + 1 = e1 * 2 ^ 52 \<or> e1 = e" by fastforce
    moreover have "max 1 e1 \<noteq> max 1 e" using False by (simp add: mag_exp_def e e1)
    ultimately have e': "e1 = e + 1" "1 \<le> e" and top: "m + 1 = (e + 1) * 2 ^ 52" by (auto simp: max_def split: if_splits)
    have x: "mag_exp m = e" "mag_exp (m + 1) = e + 1" unfolding mag_exp_def e [symmetric] e1 [symmetric] using e' by simp_all
    have m': "m = (e + 1) * 2 ^ 52 - 1" using top by simp
    have "mag_val m = of_int (2 ^ 53 - 1) * pow2 (e - 1075)"
      unfolding mag_val_eq [OF m] x by (simp add: m' algebra_simps)
    moreover have "mag_val (m + 1) = of_int (2 ^ 53) * pow2 (e - 1075)"
      using m pow2_Suc [of "e - 1075"] by (simp add: mag_val_eq x) (simp add: m' algebra_simps)
    ultimately show ?thesis by simp
  qed
qed

lemma mag_val_mono: "0 \<le> a \<Longrightarrow> a < b \<Longrightarrow> mag_val a < mag_val b"
proof (induction "nat (b - a)" arbitrary: b)
  case (Suc n)
  show ?case
  proof (cases "b = a + 1")
    case True
    then show ?thesis using Suc mag_val_step by simp
  next
    case False
    then have "mag_val a < mag_val (b - 1)" using Suc.hyps (1) [of "b - 1"] Suc.hyps (2) Suc.prems by simp
    also have "\<dots> < mag_val b" using mag_val_step [of "b - 1"] Suc.prems by simp
    finally show ?thesis .
  qed
qed simp

lemma mag_val_less_iff: "0 \<le> a \<Longrightarrow> 0 \<le> b \<Longrightarrow> mag_val a < mag_val b \<longleftrightarrow> a < b"
  by (metis linorder_neqE_linordered_idom mag_val_mono order_less_asym order_less_irrefl)

lemma mag_val_0 [simp]: "mag_val 0 = 0"
  by (simp add: mag_val_def)

text \<open>On finite numbers the comparison of the bits is the comparison of the values.\<close>

lemma f64_lt_val: "f64_finite x \<Longrightarrow> f64_finite y \<Longrightarrow> f64_lt x y \<longleftrightarrow> f64_val x < f64_val y"
proof -
  assume f: "f64_finite x" "f64_finite y"
  have r: "0 \<le> f64_mag x" "0 \<le> f64_mag y" by (simp_all add: f64_mag_range)
  have pos: "0 \<le> mag_val m" if "0 \<le> m" for m using mag_val_mono [of 0 m] that by (cases "m = 0") auto
  have "f64_lt x y \<longleftrightarrow> f64_key x < f64_key y" using f by (simp add: f64_lt_def f64_is_nan_def f64_finite_def)
  also have "\<dots> \<longleftrightarrow> f64_val x < f64_val y"
    using r pos [OF r(1)] pos [OF r(2)] mag_val_less_iff [OF r] mag_val_less_iff [OF r(2,1)]
      mag_val_less_iff [of 0 "f64_mag x"] mag_val_less_iff [of 0 "f64_mag y"]
    by (auto simp: f64_key_def f64_val_def)
  finally show ?thesis .
qed

text \<open>Rounding a representable magnitude gives it back.\<close>

lemma ibits_bounds: "0 < n \<Longrightarrow> 2 ^ nat (ibits n - 1) \<le> n \<and> n < 2 ^ nat (ibits n) \<and> 1 \<le> ibits n"
proof (induction n rule: ibits.induct)
  case (1 n)
  show ?case
  proof (cases "n = 1")
    case True
    then show ?thesis by (simp add: ibits.simps [of 1] ibits.simps [of 0])
  next
    case False
    define h where "h = n div 2"
    have h: "0 < h" "2 * h \<le> n" "n < 2 * h + 2" using False 1 (2) by (auto simp: h_def)
    have ih: "2 ^ nat (ibits h - 1) \<le> h" "h < 2 ^ nat (ibits h)" "1 \<le> ibits h" using 1 h (1) by (auto simp: h_def)
    have i: "ibits n = ibits h + 1" using 1 (2) by (simp add: ibits.simps [of n] h_def)
    have "nat (ibits h) = Suc (nat (ibits h - 1))" "nat (ibits h + 1) = Suc (nat (ibits h))" using ih (3) by simp_all
    then have p: "2 ^ nat (ibits h) = 2 * (2 ^ nat (ibits h - 1) :: int)" "2 ^ nat (ibits h + 1) = 2 * (2 ^ nat (ibits h) :: int)" by simp_all
    then show ?thesis using ih h unfolding i by simp
  qed
qed

lemma pow2_diff: "0 \<le> a \<Longrightarrow> 0 \<le> b \<Longrightarrow> pow2 (a - b) = 2 ^ nat a / 2 ^ nat b"
  using pow2_add [of b "a - b"] pow2_add [of a 0] by (simp add: field_simps pow2_def)

lemma rat_ilog2_bounds:
  assumes "0 < r"
  shows "pow2 (rat_ilog2 r) \<le> r" "r < pow2 (rat_ilog2 r + 1)"
proof -
  obtain n d where q: "quotient_of r = (n, d)" by (rule prod.exhaust)
  have r: "r = of_int n / of_int d" and d: "0 < d" using q by (simp_all add: quotient_of_div quotient_of_denom_pos)
  have n: "0 < n" using assms d unfolding r by (simp add: zero_less_divide_iff)
  define k where "k = ibits n - ibits d"
  note bn = ibits_bounds [OF n] and bd = ibits_bounds [OF d]
  have n1: "(2 ^ nat (ibits n - 1) :: rat) \<le> of_int n" "of_int n < (2 ^ nat (ibits n) :: rat)"
    using bn by (metis of_int_le_iff of_int_power of_int_numeral, metis of_int_less_iff of_int_power of_int_numeral)
  have d1: "(2 ^ nat (ibits d - 1) :: rat) \<le> of_int d" "of_int d < (2 ^ nat (ibits d) :: rat)"
    using bd by (metis of_int_le_iff of_int_power of_int_numeral, metis of_int_less_iff of_int_power of_int_numeral)
  have "pow2 (k - 1) = 2 ^ nat (ibits n - 1) / 2 ^ nat (ibits d)"
    unfolding k_def using pow2_diff [of "ibits n - 1" "ibits d"] bn bd by (simp add: algebra_simps)
  also have "\<dots> \<le> r" unfolding r using n1 (1) d1 (2) d n by (intro frac_le) auto
  finally have low: "pow2 (k - 1) \<le> r" .
  have "r < 2 ^ nat (ibits n) / 2 ^ nat (ibits d - 1)"
    unfolding r using n1 (2) d1 (1) d n by (intro frac_less) auto
  also have "\<dots> = pow2 (k + 1)" unfolding k_def using pow2_diff [of "ibits n" "ibits d - 1"] bn bd by (simp add: algebra_simps)
  finally have high: "r < pow2 (k + 1)" .
  have "rat_ilog2 r = (if pow2 k \<le> r then k else k - 1)" by (simp add: rat_ilog2_def q k_def)
  then show "pow2 (rat_ilog2 r) \<le> r" "r < pow2 (rat_ilog2 r + 1)" using low high by auto
qed

lemma pow2_less_iff: "pow2 a < pow2 b \<longleftrightarrow> a < b"
proof -
  have mono: "pow2 a < pow2 b" if "a < b" for a b
  proof -
    have "nat (b - a) \<noteq> 0" using that by simp
    then have "(1 :: rat) < 2 ^ nat (b - a)" by (simp add: one_less_power)
    then show ?thesis using pow2_add [of "b - a" a] that by (simp add: field_simps)
  qed
  then show ?thesis by (metis linorder_neqE_linordered_idom order_less_asym)
qed

lemma rat_ilog2_eq: "pow2 k \<le> r \<Longrightarrow> r < pow2 (k + 1) \<Longrightarrow> rat_ilog2 r = k"
proof -
  assume k: "pow2 k \<le> r" "r < pow2 (k + 1)"
  have "0 < r" using k (1) pow2_pos less_le_trans by blast
  note b = rat_ilog2_bounds [OF this]
  have "pow2 k < pow2 (rat_ilog2 r + 1)" "pow2 (rat_ilog2 r) < pow2 (k + 1)" using k b by linarith+
  then show ?thesis by (simp add: pow2_less_iff)
qed

lemma round_half_even_int [simp]: "round_half_even (of_int i) = i"
  by (simp add: round_half_even_def Let_def)

lemma round_mag_exact:
  assumes "0 \<le> m" "m < INF_MAG"
  shows "round_mag (mag_val m) = m"
proof (cases "m = 0")
  case False
  define e where "e = mag_exp m"
  define s where "s = m - (e - 1) * 2 ^ 52"
  have v: "mag_val m = of_int s * pow2 (e - 1075)" using mag_val_eq [OF assms (1)] by (simp add: s_def e_def)
  have pos: "0 < mag_val m" using mag_val_mono [of 0 m] False assms (1) by simp
  have "round_exp (mag_val m) = e - 1075"
  proof (cases "m < 2 ^ 52")
    case True
    then have e: "e = 1" "s = m" using assms (1) by (simp_all add: e_def mag_exp_def s_def)
    have "mag_val m < pow2 (- 1022)"
      using pow2_add [of 52 "- 1074"] True unfolding v e by simp
    then have "pow2 (rat_ilog2 (mag_val m)) < pow2 (- 1022)" using rat_ilog2_bounds (1) [OF pos] by linarith
    then show ?thesis by (simp add: round_exp_def pow2_less_iff e)
  next
    case False
    then have "1 \<le> m div 2 ^ 52" using assms (1) by simp
    then have e: "e = m div 2 ^ 52" "1 \<le> e" by (simp_all add: e_def mag_exp_def)
    have s: "s = 2 ^ 52 + m mod 2 ^ 52" using minus_mod_eq_div_mult [of m "2 ^ 52"] unfolding s_def e (1) by (simp add: algebra_simps)
    have s': "2 ^ 52 \<le> s" "s < 2 ^ 53" unfolding s by simp_all
    have "(of_int (2 ^ 52) :: rat) \<le> of_int s" "(of_int s :: rat) < of_int (2 ^ 53)" using s' by (simp_all only: of_int_le_iff of_int_less_iff)
    then have "of_int (2 ^ 52) * pow2 (e - 1075) \<le> mag_val m" "mag_val m < of_int (2 ^ 53) * pow2 (e - 1075)"
      unfolding v by (simp_all only: mult_right_mono pow2_pos less_imp_le mult_strict_right_mono)
    then have "pow2 (e - 1023) \<le> mag_val m" "mag_val m < pow2 (e - 1023 + 1)"
      using pow2_add [of 52 "e - 1075"] pow2_add [of 53 "e - 1075"] by simp_all
    then have "rat_ilog2 (mag_val m) = e - 1023" by (rule rat_ilog2_eq)
    then show ?thesis using e (2) by (simp add: round_exp_def)
  qed
  then have "round_mag (mag_val m) = min INF_MAG ((e - 1) * 2 ^ 52 + round_half_even (mag_val m / pow2 (e - 1075)))"
    using pos by (simp add: round_mag_def)
  also have "mag_val m / pow2 (e - 1075) = of_int s" using pow2_pos [of "e - 1075"] unfolding v by simp
  finally have "round_mag (mag_val m) = min INF_MAG ((e - 1) * 2 ^ 52 + s)" by (simp only: round_half_even_int)
  also have "(e - 1) * 2 ^ 52 + s = m" by (simp add: s_def)
  finally show ?thesis using assms (2) by simp
qed (simp add: round_mag_def)

lemma f64_round_val: "f64_finite x \<Longrightarrow> f64_round (f64_sign x) (f64_val x) = x"
proof -
  assume x: "f64_finite x"
  have m: "0 \<le> f64_mag x" by (simp add: f64_mag_range)
  have z: "mag_val (f64_mag x) = 0 \<longleftrightarrow> f64_mag x = 0" "0 \<le> mag_val (f64_mag x)"
    using mag_val_mono [of 0 "f64_mag x"] m by (cases "f64_mag x = 0"; force)+
  have r: "round_mag (mag_val (f64_mag x)) = f64_mag x" using round_mag_exact m x by (simp add: f64_finite_def)
  show ?thesis
  proof (cases "f64_mag x = 0")
    case True
    then show ?thesis using f64_make_mag [of x] by (simp add: f64_round_def f64_val_def)
  next
    case False
    then have "f64_round (f64_sign x) (f64_val x) = f64_make (f64_sign x) (f64_mag x)"
      using z r f64_make_mag [of x] by (cases "f64_sign x") (simp_all add: f64_round_def f64_val_def)
    then show ?thesis by simp
  qed
qed

lemma f64_add_commute: "f64_add x y = f64_add y x"
proof (cases "f64_is_inf x \<and> f64_is_inf y")
  case True
  then have "x = y" if "f64_sign x = f64_sign y" using that f64_make_mag [of x] f64_make_mag [of y] by (simp add: f64_is_inf_def)
  then show ?thesis using True by (cases "f64_sign x = f64_sign y") (simp_all add: f64_add_def)
qed (auto simp: f64_add_def add.commute conj_commute)

end
