(* ===== verification/Alert_Rules.thy ===== *)
theory Alert_Rules
  imports Float64 Labels "HOL-Library.AList"
begin

section \<open>Alert rules\<close>

text \<open>
  The model of \<^verbatim>\<open>parqtel-alert/src/rule\<close> and \<^verbatim>\<open>builtin.rs\<close>: alert rules and their conditions, the registry of
  the rules, and the built-in packs with their activation. The YAML parser is an argument. A hash
  map is an association list whose keys are distinct; the order in which it is iterated is an
  argument.
\<close>

subsection \<open>Rules\<close>

datatype severity = Info | Warning | Critical

datatype rule_type = Static_Rule | AiDerived_Rule | LearnedAnomaly_Rule

datatype operator = Gt | Gte | Lt | Lte | Eq | Ne

record condition =
  cd_type :: string
  cd_operator :: operator
  cd_value :: f64
  cd_for_duration_secs :: u64

definition evaluate :: "condition \<Rightarrow> f64 \<Rightarrow> bool" where
  "evaluate c metric_value =
     (case cd_operator c of
        Gt \<Rightarrow> f64_lt (cd_value c) metric_value
      | Gte \<Rightarrow> f64_le (cd_value c) metric_value
      | Lt \<Rightarrow> f64_lt metric_value (cd_value c)
      | Lte \<Rightarrow> f64_le metric_value (cd_value c)
      | Eq \<Rightarrow> f64_lt (f64_abs (f64_sub metric_value (cd_value c))) F64_EPSILON
      | Ne \<Rightarrow> f64_le F64_EPSILON (f64_abs (f64_sub metric_value (cd_value c))))"

definition evaluate_threshold :: "condition \<Rightarrow> f64 \<Rightarrow> bool" where
  "evaluate_threshold c value = evaluate c value"

text \<open>Instants are nanoseconds since the epoch.\<close>

type_synonym instant = int

record ai_derived_source =
  ai_derived_from_rule :: string
  ai_model :: string
  ai_confidence :: f64
  ai_proposed_at :: instant
  ai_approved_by :: "string option"
  ai_approved_at :: "instant option"

record learned_anomaly_source =
  la_model :: string
  la_baseline_window_days :: u64
  la_sensitivity :: f64
  la_updated_at :: instant

datatype rule_source = Static_Source | AiDerived_Source ai_derived_source | LearnedAnomaly_Source learned_anomaly_source

record alert_rule =
  ar_id :: string
  ar_name :: string
  ar_signal :: string
  ar_query :: string
  ar_condition :: condition
  ar_severity :: severity
  ar_labels :: entries
  ar_annotations :: entries
  ar_enabled :: bool
  ar_noise_suppression_threshold :: u32
  ar_source :: "rule_source option"

definition rule_type_of :: "alert_rule \<Rightarrow> rule_type" where
  "rule_type_of r =
     (case ar_source r of
        None \<Rightarrow> Static_Rule
      | Some Static_Source \<Rightarrow> Static_Rule
      | Some (AiDerived_Source _) \<Rightarrow> AiDerived_Rule
      | Some (LearnedAnomaly_Source _) \<Rightarrow> LearnedAnomaly_Rule)"

definition is_approved :: "alert_rule \<Rightarrow> bool" where
  "is_approved r = (case ar_source r of Some (AiDerived_Source s) \<Rightarrow> ai_approved_by s \<noteq> None | _ \<Rightarrow> True)"

subsection \<open>The registry\<close>

type_synonym registry = "(string \<times> alert_rule) list"

definition registry_new :: registry where "registry_new = []"

definition registry_insert :: "alert_rule \<Rightarrow> registry \<Rightarrow> registry" where
  "registry_insert rule rs = AList.update (ar_id rule) rule rs"

definition insert_if_absent :: "alert_rule \<Rightarrow> registry \<Rightarrow> bool \<times> registry" where
  "insert_if_absent rule rs =
     (if map_of rs (ar_id rule) \<noteq> None then (False, rs) else (True, AList.update (ar_id rule) rule rs))"

definition registry_remove :: "string \<Rightarrow> registry \<Rightarrow> alert_rule option \<times> registry" where
  "registry_remove rid rs = (map_of rs rid, AList.delete rid rs)"

definition registry_get :: "registry \<Rightarrow> string \<Rightarrow> alert_rule option" where
  "registry_get rs rid = map_of rs rid"

definition list_enabled :: "(alert_rule list \<Rightarrow> alert_rule list) \<Rightarrow> registry \<Rightarrow> alert_rule list" where
  "list_enabled order rs = filter ar_enabled (order (map snd rs))"

definition list_all_rules :: "(alert_rule list \<Rightarrow> alert_rule list) \<Rightarrow> registry \<Rightarrow> alert_rule list" where
  "list_all_rules order rs = order (map snd rs)"

definition registry_update :: "alert_rule \<Rightarrow> registry \<Rightarrow> bool \<times> registry" where
  "registry_update rule rs =
     (if map_of rs (ar_id rule) \<noteq> None then (True, AList.update (ar_id rule) rule rs) else (False, rs))"

definition registry_disable :: "string \<Rightarrow> registry \<Rightarrow> bool \<times> registry" where
  "registry_disable rid rs =
     (case map_of rs rid of
        None \<Rightarrow> (False, rs)
      | Some rule \<Rightarrow> (True, AList.update rid (rule\<lparr>ar_enabled := False\<rparr>) rs))"

subsection \<open>Parsing\<close>

text \<open>\<open>docs\<close> are the results of decoding the documents of a text, one after the other.\<close>

fun collect_rules :: "(string + alert_rule) list \<Rightarrow> string + alert_rule list" where
  "collect_rules [] = Inr []"
| "collect_rules (Inl e # docs) = Inl e"
| "collect_rules (Inr r # docs) = (case collect_rules docs of Inl e \<Rightarrow> Inl e | Inr rs \<Rightarrow> Inr (r # rs))"

definition parse_rules_from_str :: "(string \<Rightarrow> (string + alert_rule) list) \<Rightarrow> string \<Rightarrow> string + alert_rule list" where
  "parse_rules_from_str docs yaml = collect_rules (docs yaml)"

text \<open>A directory entry with the extension of its name and the outcome of reading it.\<close>

fun load_files ::
  "(string \<Rightarrow> (string + alert_rule) list) \<Rightarrow> (string option \<times> (string + string)) list \<Rightarrow> string + alert_rule list" where
  "load_files docs [] = Inr []"
| "load_files docs ((ext, content) # files) =
     (if ext = Some ''yaml'' \<or> ext = Some ''yml'' then
        (case content of
           Inl e \<Rightarrow> Inl e
         | Inr text \<Rightarrow>
             (case parse_rules_from_str docs text of
                Inl e \<Rightarrow> Inl e
              | Inr rs \<Rightarrow> (case load_files docs files of Inl e \<Rightarrow> Inl e | Inr rest \<Rightarrow> Inr (rs @ rest))))
      else load_files docs files)"

text \<open>\<open>None\<close> stands for a directory that does not exist.\<close>

definition load_rules_dir ::
  "(string \<Rightarrow> (string + alert_rule) list) \<Rightarrow> (string option \<times> (string + string)) list option \<Rightarrow> string + alert_rule list" where
  "load_rules_dir docs entries = (case entries of None \<Rightarrow> Inr [] | Some files \<Rightarrow> load_files docs files)"

subsection \<open>Built-in packs\<close>

datatype preset_mode = Off | Auto | All

record preset_config =
  pc_mode :: preset_mode
  pc_include :: "string list"
  pc_exclude :: "string list"

definition preset_config_default :: preset_config where
  "preset_config_default = \<lparr>pc_mode = Auto, pc_include = [], pc_exclude = []\<rparr>"

text \<open>The text of a pack is named by its file.\<close>

record builtin_pack =
  bp_name :: string
  bp_description :: string
  bp_canaries :: "string list"
  bp_rules :: string

definition BUILTIN_PACKS :: "builtin_pack list" where
  "BUILTIN_PACKS =
     [\<lparr>bp_name = ''kubernetes'', bp_description = ''Kubernetes node, pod and workload health'',
       bp_canaries = [''kube_node_status_condition'', ''k8s.node.cpu.utilization''],
       bp_rules = ''../../rules/presets/kubernetes-cluster.yaml''\<rparr>,
      \<lparr>bp_name = ''coredns'', bp_description = ''CoreDNS cluster DNS availability'',
       bp_canaries = [''coredns_dns_requests_total'', ''coredns_dns_responses_total''],
       bp_rules = ''../../rules/presets/coredns.yaml''\<rparr>,
      \<lparr>bp_name = ''external-secrets'', bp_description = ''External Secrets Operator sync health'',
       bp_canaries = [''externalsecret_status_condition'', ''externalsecret_created''],
       bp_rules = ''../../rules/presets/external-secrets.yaml''\<rparr>,
      \<lparr>bp_name = ''service-red'', bp_description = ''RED metrics for any traced service (span-metrics bridge)'',
       bp_canaries = [''traces_service_requests_total''],
       bp_rules = ''../../rules/presets/service-red.yaml''\<rparr>,
      \<lparr>bp_name = ''parqtel'', bp_description = ''Parqtel self-monitoring (ingest, query, storage, buffer)'',
       bp_canaries = [''parqtel_ingested_points_total'', ''parqtel_ingest_gap_secs''],
       bp_rules = ''../../rules/presets/parqtel-self.yaml''\<rparr>]"

definition select_packs :: "preset_config \<Rightarrow> builtin_pack list" where
  "select_packs cfg =
     (if pc_include cfg \<noteq> [] then filter (\<lambda>p. bp_name p \<in> set (pc_include cfg)) BUILTIN_PACKS
      else filter (\<lambda>p. bp_name p \<notin> set (pc_exclude cfg)) BUILTIN_PACKS)"

text \<open>An ordered map as its sorted list of entries.\<close>

fun btree_insert :: "string \<Rightarrow> string \<Rightarrow> entries \<Rightarrow> entries" where
  "btree_insert k v [] = [(k, v)]"
| "btree_insert k v ((k', v') # es) =
     (if k < k' then (k, v) # (k', v') # es else if k = k' then (k, v) # es else (k', v') # btree_insert k v es)"

definition pack_rules :: "(string \<Rightarrow> (string + alert_rule) list) \<Rightarrow> builtin_pack \<Rightarrow> string + alert_rule list" where
  "pack_rules docs pack =
     (case parse_rules_from_str docs (bp_rules pack) of
        Inl e \<Rightarrow> Inl e
      | Inr rules \<Rightarrow> Inr (map (\<lambda>r. r\<lparr>ar_labels := btree_insert ''pack'' (bp_name pack) (ar_labels r)\<rparr>) rules))"

fun insert_absent :: "alert_rule list \<Rightarrow> nat \<times> registry \<Rightarrow> nat \<times> registry" where
  "insert_absent [] (inserted, rs) = (inserted, rs)"
| "insert_absent (rule # rules) (inserted, rs) =
     (case insert_if_absent rule rs of
        (True, rs') \<Rightarrow> insert_absent rules (inserted + 1, rs')
      | (False, rs') \<Rightarrow> insert_absent rules (inserted, rs'))"

definition activate_pack :: "(string \<Rightarrow> (string + alert_rule) list) \<Rightarrow> builtin_pack \<Rightarrow> registry \<Rightarrow> nat \<times> registry" where
  "activate_pack docs pack rs =
     (case pack_rules docs pack of Inl e \<Rightarrow> (0, rs) | Inr rules \<Rightarrow> insert_absent rules (0, rs))"

fun activate_packs ::
  "(string \<Rightarrow> (string + alert_rule) list) \<Rightarrow> (builtin_pack \<Rightarrow> bool) \<Rightarrow> builtin_pack list \<Rightarrow> registry
     \<Rightarrow> builtin_pack list \<times> registry" where
  "activate_packs docs detected [] rs = ([], rs)"
| "activate_packs docs detected (pack # packs) rs =
     (if detected pack then activate_packs docs detected packs (snd (activate_pack docs pack rs))
      else case activate_packs docs detected packs rs of (pending, rs') \<Rightarrow> (pack # pending, rs'))"

definition has_canary :: "string set \<Rightarrow> builtin_pack \<Rightarrow> bool" where
  "has_canary metric_names pack \<longleftrightarrow> list_ex (\<lambda>c. c \<in> metric_names) (bp_canaries pack)"

definition activate_initial ::
  "(string \<Rightarrow> (string + alert_rule) list) \<Rightarrow> preset_config \<Rightarrow> string set \<Rightarrow> registry \<Rightarrow> builtin_pack list \<times> registry" where
  "activate_initial docs cfg metric_names rs =
     (if pc_mode cfg = Off then ([], rs)
      else activate_packs docs (\<lambda>p. pc_mode cfg = All \<or> has_canary metric_names p) (select_packs cfg) rs)"

definition activate_detected ::
  "(string \<Rightarrow> (string + alert_rule) list) \<Rightarrow> builtin_pack list \<Rightarrow> string set \<Rightarrow> registry \<Rightarrow> builtin_pack list \<times> registry" where
  "activate_detected docs packs metric_names rs = activate_packs docs (has_canary metric_names) packs rs"

subsection \<open>Properties of the activation\<close>

lemma insert_absent_registry:
  "map_of (snd (insert_absent rules (n, rs))) = map_of (map (\<lambda>r. (ar_id r, r)) rules) ++ map_of rs"
proof (induction rules arbitrary: n rs)
  case (Cons r rules)
  show ?case
  proof (cases "map_of rs (ar_id r)")
    case None
    then show ?thesis
      using Cons by (auto simp: insert_if_absent_def update_conv' fun_eq_iff map_add_def split: option.splits)
  next
    case (Some r')
    then show ?thesis using Cons by (auto simp: insert_if_absent_def fun_eq_iff map_add_def split: option.splits)
  qed
qed simp

lemma activate_pack_registry:
  "map_of (snd (activate_pack docs pack rs)) =
     (case pack_rules docs pack of Inl e \<Rightarrow> map_of rs | Inr rules \<Rightarrow> map_of (map (\<lambda>r. (ar_id r, r)) rules) ++ map_of rs)"
  by (simp add: activate_pack_def insert_absent_registry split: sum.split)

lemma activate_pack_keeps: "map_of rs rid = Some r \<Longrightarrow> map_of (snd (activate_pack docs pack rs)) rid = Some r"
  by (simp add: activate_pack_registry split: sum.split)

lemma activate_packs_pending: "fst (activate_packs docs detected packs rs) = filter (\<lambda>p. \<not> detected p) packs"
  by (induction packs arbitrary: rs) (simp_all add: case_prod_beta)

lemma activate_packs_keeps: "map_of rs rid = Some r \<Longrightarrow> map_of (snd (activate_packs docs detected packs rs)) rid = Some r"
  by (induction packs arbitrary: rs) (simp_all add: case_prod_beta activate_pack_keeps)

lemma activate_packs_inserts:
  "p \<in> set packs \<Longrightarrow> detected p \<Longrightarrow> pack_rules docs p = Inr rules \<Longrightarrow> rule \<in> set rules \<Longrightarrow>
     map_of (snd (activate_packs docs detected packs rs)) (ar_id rule) \<noteq> None"
proof (induction packs arbitrary: rs)
  case (Cons pack packs)
  show ?case
  proof (cases "p = pack")
    case True
    then have "map_of (snd (activate_pack docs pack rs)) (ar_id rule) \<noteq> None"
      using Cons.prems by (auto simp: activate_pack_registry map_of_eq_None_iff image_iff)
    then show ?thesis using True Cons.prems (2) activate_packs_keeps by fastforce
  next
    case False
    then show ?thesis using Cons by (auto simp: case_prod_beta)
  qed
qed simp

text \<open>C40: Activating the built-in packs never changes a rule that is registered: a rule of the user wins over
  one of a pack with the same id. The packs left for a retry are exactly the selected ones without
  a canary metric, and every rule of an activated pack that parses has its id in the registry.\<close>

theorem activation_keeps_user_rules:
  assumes "activate_initial docs cfg metric_names rs = (pending, rs')"
  shows "(registry_get rs rid = Some r \<longrightarrow> registry_get rs' rid = Some r) \<and>
    pending = (if pc_mode cfg = Off then [] else filter (\<lambda>p. pc_mode cfg \<noteq> All \<and> \<not> has_canary metric_names p) (select_packs cfg)) \<and>
    (\<forall>p rules rule. p \<in> set (select_packs cfg) \<and> p \<notin> set pending \<and> pc_mode cfg \<noteq> Off \<and> pack_rules docs p = Inr rules \<and> rule \<in> set rules
       \<longrightarrow> registry_get rs' (ar_id rule) \<noteq> None)"
proof (cases "pc_mode cfg = Off")
  case True
  then show ?thesis using assms by (simp add: activate_initial_def)
next
  case False
  let ?det = "\<lambda>p. pc_mode cfg = All \<or> has_canary metric_names p"
  have run: "activate_packs docs ?det (select_packs cfg) rs = (pending, rs')" using assms False by (simp add: activate_initial_def)
  note spec = activate_packs_pending [of docs ?det "select_packs cfg" rs, unfolded run fst_conv]
    activate_packs_keeps [of rs _ _ docs ?det "select_packs cfg", unfolded run snd_conv]
    activate_packs_inserts [of _ "select_packs cfg" ?det docs _ _ rs, unfolded run snd_conv]
  have "registry_get rs' (ar_id rule) \<noteq> None"
    if "p \<in> set (select_packs cfg)" "p \<notin> set pending" "pack_rules docs p = Inr rules" "rule \<in> set rules" for p rules rule
    using spec (1,3) that by (simp add: registry_get_def)
  then show ?thesis using spec (1,2) False by (auto simp: registry_get_def)
qed

definition sample_rule :: "string \<Rightarrow> alert_rule" where
  "sample_rule rid = \<lparr>ar_id = rid, ar_name = rid, ar_signal = ''metrics'', ar_query = ''up'',
     ar_condition = \<lparr>cd_type = ''threshold'', cd_operator = Gt, cd_value = 0, cd_for_duration_secs = 60\<rparr>,
     ar_severity = Warning, ar_labels = [], ar_annotations = [], ar_enabled = True,
     ar_noise_suppression_threshold = 0, ar_source = None\<rparr>"

theorem activation_keeps_user_rules_witness:
  "\<exists>pending rs'. activate_initial (\<lambda>_. [Inr (sample_rule ''a''), Inr (sample_rule ''b'')])
       \<lparr>pc_mode = Auto, pc_include = [''coredns'', ''parqtel''], pc_exclude = []\<rparr> {''coredns_dns_requests_total''}
       [(''a'', sample_rule ''mine'')] = (pending, rs') \<and>
     registry_get rs' ''a'' = Some (sample_rule ''mine'') \<and> map bp_name pending = [''parqtel''] \<and> registry_get rs' ''b'' \<noteq> None"
proof -
  define docs :: "string \<Rightarrow> (string + alert_rule) list" where "docs = (\<lambda>_. [Inr (sample_rule ''a''), Inr (sample_rule ''b'')])"
  define cfg where "cfg = \<lparr>pc_mode = Auto, pc_include = [''coredns'', ''parqtel''], pc_exclude = []\<rparr>"
  obtain pending rs' where run: "activate_initial docs cfg {''coredns_dns_requests_total''} [(''a'', sample_rule ''mine'')] = (pending, rs')"
    by (rule prod.exhaust)
  note t = activation_keeps_user_rules [OF run]
  have pend: "map bp_name pending = [''parqtel'']"
    using t [of "''a''" "sample_rule ''mine''"] by (simp add: cfg_def select_packs_def BUILTIN_PACKS_def has_canary_def)
  define p where "p = BUILTIN_PACKS ! 1"
  have "p \<in> set (select_packs cfg)" "p \<notin> set pending"
    using pend by (auto simp: p_def cfg_def select_packs_def BUILTIN_PACKS_def)
  moreover have "pack_rules docs p = Inr (map (\<lambda>r. r\<lparr>ar_labels := [(''pack'', ''coredns'')]\<rparr>) [sample_rule ''a'', sample_rule ''b''])"
    by (simp add: pack_rules_def parse_rules_from_str_def docs_def p_def BUILTIN_PACKS_def sample_rule_def)
  ultimately have "registry_get rs' (ar_id ((sample_rule ''b'')\<lparr>ar_labels := [(''pack'', ''coredns'')]\<rparr>)) \<noteq> None"
    using conjunct2 [OF conjunct2 [OF t], rule_format, of p _ "(sample_rule ''b'')\<lparr>ar_labels := [(''pack'', ''coredns'')]\<rparr>"] by (simp add: cfg_def)
  then have "registry_get rs' ''b'' \<noteq> None" by (simp add: sample_rule_def)
  moreover have "registry_get rs' ''a'' = Some (sample_rule ''mine'')"
    using t [of "''a''" "sample_rule ''mine''"] by (simp add: registry_get_def)
  ultimately show ?thesis using run pend by (auto simp: docs_def cfg_def)
qed

end
