(* ===== verification/Alerts.thy ===== *)
theory Alerts
  imports Alert_Rules
begin

section \<open>Alert instances\<close>

text \<open>
  The model of \<^verbatim>\<open>parqtel-alert/src\<close> (\<^verbatim>\<open>lib.rs\<close>, \<^verbatim>\<open>state\<close>, \<^verbatim>\<open>store\<close>, \<^verbatim>\<open>evaluator\<close>) and of the handlers of
  \<^verbatim>\<open>parqtel-server/src/handlers/alerts.rs\<close> that change an alert: the state machine of an alert, the
  store with its two hash maps and its file, and the evaluation of a rule. The hash of a
  fingerprint, a fresh identifier, the JSON encoding and the outcome of a write are arguments; the
  readings of the clock within one operation are one argument.
\<close>

subsection \<open>The state machine\<close>

datatype alert_state = Pending | Firing | Acknowledged | Resolved | Suppressed | NoiseFlagged

record state_transition =
  tr_from :: alert_state
  tr_to :: alert_state
  tr_at :: instant
  tr_reason :: string

datatype transition_event =
    DurationElapsed
  | ConditionCleared
  | ConditionMet
  | AcknowledgedBy string
  | NoiseSuppressed
  | NoiseScoreDropped
  | MarkedNoise
  | AutoSuppressed
  | AckWindowExpired

fun transition_target :: "alert_state \<Rightarrow> transition_event \<Rightarrow> (alert_state \<times> string) option" where
  "transition_target Pending DurationElapsed = Some (Firing, ''for_duration elapsed while condition met'')"
| "transition_target Pending ConditionCleared = Some (Resolved, ''condition no longer met before duration elapsed'')"
| "transition_target Firing (AcknowledgedBy _) = Some (Acknowledged, ''alert acknowledged'')"
| "transition_target Firing ConditionCleared = Some (Resolved, ''condition no longer met'')"
| "transition_target Firing NoiseSuppressed = Some (Suppressed, ''noise score exceeded suppression threshold'')"
| "transition_target Firing MarkedNoise = Some (NoiseFlagged, ''manually classified as noise'')"
| "transition_target Resolved ConditionMet = Some (Pending, ''condition met again (re-firing)'')"
| "transition_target Suppressed NoiseScoreDropped = Some (Firing, ''noise score dropped below threshold (manual reset)'')"
| "transition_target NoiseFlagged AutoSuppressed = Some (Suppressed, ''auto-suppressed after repeated noise flags'')"
| "transition_target Acknowledged ConditionCleared = Some (Resolved, ''condition no longer met after acknowledgement'')"
| "transition_target Acknowledged AckWindowExpired = Some (Firing, ''condition continues after acknowledgement window'')"
| "transition_target _ _ = None"

definition transition :: "instant \<Rightarrow> alert_state \<Rightarrow> transition_event \<Rightarrow> (alert_state \<times> state_transition) option" where
  "transition now current event =
     (case transition_target current event of
        None \<Rightarrow> None
      | Some (new_state, reason) \<Rightarrow>
          Some (new_state, \<lparr>tr_from = current, tr_to = new_state, tr_at = now, tr_reason = reason\<rparr>))"

subsection \<open>Instances\<close>

type_synonym ulid = "128 word"

record alert_instance =
  in_id :: ulid
  in_rule_id :: string
  in_rule_name :: string
  in_fingerprint :: u64
  in_labels :: entries
  in_annotations :: entries
  in_state :: alert_state
  in_severity :: severity
  in_value :: "f64 option"
  in_started_at :: instant
  in_updated_at :: instant
  in_resolved_at :: "instant option"
  in_acknowledged_by :: "string option"
  in_noise_score :: u32
  in_transition_log :: "state_transition list"
  in_notification_sent :: bool
  in_source_rule_type :: rule_type

text \<open>What the hasher is fed: the rule and then the labels in order.\<close>

definition compute_fingerprint :: "(string list \<Rightarrow> u64) \<Rightarrow> string \<Rightarrow> entries \<Rightarrow> u64" where
  "compute_fingerprint hash rule_id labels = hash (rule_id # concat (map (\<lambda>(k, v). [k, v]) labels))"

subsection \<open>The store\<close>

record alert_store =
  as_instances :: "(ulid \<times> alert_instance) list"
  as_fingerprint_index :: "(u64 \<times> ulid) list"
  as_data_dir :: "string option"
  as_file :: "string option"

record store_io =
  sio_order :: "alert_instance list \<Rightarrow> alert_instance list"
  sio_ser :: "alert_instance list \<Rightarrow> string option"
  sio_write_ok :: bool

definition store_in_memory :: alert_store where
  "store_in_memory = \<lparr>as_instances = [], as_fingerprint_index = [], as_data_dir = None, as_file = None\<rparr>"

definition put_instance :: "alert_instance \<Rightarrow> alert_store \<Rightarrow> alert_store" where
  "put_instance alert s =
     s\<lparr>as_fingerprint_index := AList.update (in_fingerprint alert) (in_id alert) (as_fingerprint_index s),
       as_instances := AList.update (in_id alert) alert (as_instances s)\<rparr>"

definition load_from_disk :: "(string \<Rightarrow> alert_instance list option) \<Rightarrow> string option \<Rightarrow> alert_store \<Rightarrow> alert_store" where
  "load_from_disk de content s =
     (case as_data_dir s of
        None \<Rightarrow> s
      | Some dir \<Rightarrow>
          (case content of
             None \<Rightarrow> s
           | Some text \<Rightarrow> (case de text of None \<Rightarrow> s | Some alerts \<Rightarrow> fold put_instance alerts s)))"

definition alert_store_new :: "(string \<Rightarrow> alert_instance list option) \<Rightarrow> string option \<Rightarrow> string option \<Rightarrow> alert_store" where
  "alert_store_new de data_dir content =
     load_from_disk de content \<lparr>as_instances = [], as_fingerprint_index = [], as_data_dir = data_dir, as_file = content\<rparr>"

definition persist_to_disk :: "store_io \<Rightarrow> alert_store \<Rightarrow> alert_store" where
  "persist_to_disk io s =
     (case as_data_dir s of
        None \<Rightarrow> s
      | Some dir \<Rightarrow>
          (case sio_ser io (sio_order io (map snd (as_instances s))) of
             None \<Rightarrow> s
           | Some json \<Rightarrow> if sio_write_ok io then s\<lparr>as_file := Some json\<rparr> else s))"

definition alert_save :: "store_io \<Rightarrow> alert_instance \<Rightarrow> alert_store \<Rightarrow> alert_store" where
  "alert_save io alert s = persist_to_disk io (put_instance alert s)"

definition get_by_id :: "alert_store \<Rightarrow> ulid \<Rightarrow> alert_instance option" where
  "get_by_id s ident = map_of (as_instances s) ident"

definition get_by_fingerprint :: "alert_store \<Rightarrow> u64 \<Rightarrow> alert_instance option" where
  "get_by_fingerprint s fp =
     (case map_of (as_fingerprint_index s) fp of None \<Rightarrow> None | Some ident \<Rightarrow> map_of (as_instances s) ident)"

definition list_active :: "store_io \<Rightarrow> alert_store \<Rightarrow> alert_instance list" where
  "list_active io s = filter (\<lambda>i. in_state i \<in> {Firing, Acknowledged, Pending}) (sio_order io (map snd (as_instances s)))"

text \<open>Sorting by the reversed key is stable, the latest first.\<close>

definition list_recent :: "store_io \<Rightarrow> instant \<Rightarrow> nat \<Rightarrow> alert_store \<Rightarrow> alert_instance list" where
  "list_recent io since limit s =
     take limit (sort_key (\<lambda>i. - in_updated_at i)
       (filter (\<lambda>i. since \<le> in_updated_at i) (sio_order io (map snd (as_instances s)))))"

definition list_by_rule :: "store_io \<Rightarrow> string \<Rightarrow> instant \<Rightarrow> alert_store \<Rightarrow> alert_instance list" where
  "list_by_rule io rule_id since s =
     filter (\<lambda>i. in_rule_id i = rule_id \<and> since \<le> in_updated_at i) (sio_order io (map snd (as_instances s)))"

definition list_suppressed :: "store_io \<Rightarrow> alert_store \<Rightarrow> alert_instance list" where
  "list_suppressed io s = filter (\<lambda>i. in_state i = Suppressed) (sio_order io (map snd (as_instances s)))"

subsection \<open>Evaluation\<close>

text \<open>Whole seconds between two instants, toward zero, then as an unsigned number.\<close>

definition elapsed_secs :: "instant \<Rightarrow> instant \<Rightarrow> u64" where
  "elapsed_secs now since = word_of_int (if since \<le> now then (now - since) div 1000000000 else - ((since - now) div 1000000000))"

definition met_event :: "instant \<Rightarrow> alert_rule \<Rightarrow> alert_instance \<Rightarrow> transition_event option" where
  "met_event now rule i =
     (case in_state i of
        Pending \<Rightarrow>
          if elapsed_secs now (in_started_at i) \<ge> cd_for_duration_secs (ar_condition rule) then Some DurationElapsed else None
      | Resolved \<Rightarrow> Some ConditionMet
      | _ \<Rightarrow> None)"

definition cleared_event :: "alert_instance \<Rightarrow> transition_event option" where
  "cleared_event i = (if in_state i \<in> {Pending, Firing, Acknowledged} then Some ConditionCleared else None)"

definition new_instance :: "ulid \<Rightarrow> instant \<Rightarrow> u64 \<Rightarrow> alert_rule \<Rightarrow> f64 \<Rightarrow> entries \<Rightarrow> alert_instance" where
  "new_instance fresh now fp rule value labels =
     \<lparr>in_id = fresh, in_rule_id = ar_id rule, in_rule_name = ar_name rule, in_fingerprint = fp, in_labels = labels,
      in_annotations = ar_annotations rule, in_state = Pending, in_severity = ar_severity rule, in_value = Some value,
      in_started_at = now, in_updated_at = now, in_resolved_at = None, in_acknowledged_by = None, in_noise_score = 0,
      in_transition_log = [], in_notification_sent = False, in_source_rule_type = rule_type_of rule\<rparr>"

text \<open>The new store and the firing events that were sent.\<close>

definition evaluate_met :: "store_io \<Rightarrow> instant \<Rightarrow> alert_rule \<Rightarrow> f64 \<Rightarrow> alert_instance \<Rightarrow> alert_store \<Rightarrow> alert_store \<times> alert_instance list" where
  "evaluate_met io now rule value i s =
     (case met_event now rule i of
        Some evt \<Rightarrow>
          (case transition now (in_state i) evt of
             Some (new_state, tr) \<Rightarrow>
               (let was_not_firing = (in_state i \<noteq> Firing);
                    i' = i\<lparr>in_state := new_state, in_updated_at := now, in_value := Some value,
                           in_transition_log := in_transition_log i @ [tr]\<rparr>
                in (alert_save io i' s, if new_state = Firing \<and> was_not_firing then [i'] else []))
           | None \<Rightarrow> (s, []))
      | None \<Rightarrow> (alert_save io (i\<lparr>in_value := Some value, in_updated_at := now\<rparr>) s, []))"

definition evaluate_cleared :: "store_io \<Rightarrow> instant \<Rightarrow> alert_instance \<Rightarrow> alert_store \<Rightarrow> alert_store" where
  "evaluate_cleared io now i s =
     (case cleared_event i of
        Some evt \<Rightarrow>
          (case transition now (in_state i) evt of
             Some (new_state, tr) \<Rightarrow>
               alert_save io (i\<lparr>in_state := new_state, in_updated_at := now, in_resolved_at := Some now,
                                in_transition_log := in_transition_log i @ [tr]\<rparr>) s
           | None \<Rightarrow> s)
      | None \<Rightarrow> s)"

definition evaluate_rule_with_value ::
  "(string list \<Rightarrow> u64) \<Rightarrow> store_io \<Rightarrow> ulid \<Rightarrow> instant \<Rightarrow> alert_rule \<Rightarrow> f64 \<Rightarrow> entries \<Rightarrow> alert_store
     \<Rightarrow> alert_store \<times> alert_instance list" where
  "evaluate_rule_with_value hash io fresh now rule value labels s =
     (let condition_met = evaluate_threshold (ar_condition rule) value;
          fp = compute_fingerprint hash (ar_id rule) labels
      in case get_by_fingerprint s fp of
           Some i \<Rightarrow> if condition_met then evaluate_met io now rule value i s else (evaluate_cleared io now i s, [])
         | None \<Rightarrow>
             if condition_met then (alert_save io (new_instance fresh now fp rule value labels) s, []) else (s, []))"

text \<open>The periodic evaluation of one rule looks its instance up and does nothing else.\<close>

definition evaluate_rule :: "(string list \<Rightarrow> u64) \<Rightarrow> alert_rule \<Rightarrow> alert_store \<Rightarrow> alert_store \<times> alert_instance list" where
  "evaluate_rule hash rule s =
     (let labels = ar_labels rule;
          fp = compute_fingerprint hash (ar_id rule) labels;
          _ = get_by_fingerprint s fp
      in (s, []))"

text \<open>The rules are evaluated by tasks of their own; \<open>schedule\<close> is the order in which they run, and a task
  that exceeds its time does nothing.\<close>

definition evaluate_all ::
  "(string list \<Rightarrow> u64) \<Rightarrow> (alert_rule list \<Rightarrow> alert_rule list) \<Rightarrow> (alert_rule list \<Rightarrow> alert_rule list) \<Rightarrow> (alert_rule \<Rightarrow> bool)
     \<Rightarrow> registry \<Rightarrow> alert_store \<Rightarrow> alert_store \<times> alert_instance list" where
  "evaluate_all hash order schedule timed_out rs s =
     fold (\<lambda>rule (s, sent).
         if timed_out rule then (s, sent)
         else case evaluate_rule hash rule s of (s', es) \<Rightarrow> (s', sent @ es))
       (schedule (list_enabled order rs)) (s, [])"

subsection \<open>Handlers\<close>

datatype handler_error = Bad_Request | Not_Found | Conflict

text \<open>\<open>parse\<close> reads an identifier; \<open>by\<close> is the field of the request body.\<close>

definition acknowledge_alert ::
  "(string \<Rightarrow> ulid option) \<Rightarrow> store_io \<Rightarrow> instant \<Rightarrow> string \<Rightarrow> string option \<Rightarrow> alert_store
     \<Rightarrow> (handler_error + alert_instance) \<times> alert_store" where
  "acknowledge_alert parse io now ident by_field s =
     (case parse ident of
        None \<Rightarrow> (Inl Bad_Request, s)
      | Some u \<Rightarrow>
          (case get_by_id s u of
             None \<Rightarrow> (Inl Not_Found, s)
           | Some i \<Rightarrow>
               (let by_name = (case by_field of None \<Rightarrow> ''anonymous'' | Some b \<Rightarrow> b)
                in case transition now (in_state i) (AcknowledgedBy by_name) of
                     Some (new_state, tr) \<Rightarrow>
                       (let i' = i\<lparr>in_state := new_state, in_acknowledged_by := Some by_name, in_updated_at := now,
                                   in_transition_log := in_transition_log i @ [tr]\<rparr>
                        in (Inr i', alert_save io i' s))
                   | None \<Rightarrow> (Inl Conflict, s))))"

definition resolve_alert ::
  "(string \<Rightarrow> ulid option) \<Rightarrow> store_io \<Rightarrow> instant \<Rightarrow> string \<Rightarrow> alert_store \<Rightarrow> (handler_error + alert_instance) \<times> alert_store" where
  "resolve_alert parse io now ident s =
     (case parse ident of
        None \<Rightarrow> (Inl Bad_Request, s)
      | Some u \<Rightarrow>
          (case get_by_id s u of
             None \<Rightarrow> (Inl Not_Found, s)
           | Some i \<Rightarrow>
               (case transition now (in_state i) ConditionCleared of
                  Some (new_state, tr) \<Rightarrow>
                    (let i' = i\<lparr>in_state := new_state, in_resolved_at := Some now, in_updated_at := now,
                                in_transition_log := in_transition_log i @ [tr]\<rparr>
                     in (Inr i', alert_save io i' s))
                | None \<Rightarrow> (Inl Conflict, s))))"

definition get_alert :: "(string \<Rightarrow> ulid option) \<Rightarrow> string \<Rightarrow> alert_store \<Rightarrow> handler_error + alert_instance" where
  "get_alert parse ident s =
     (case parse ident of
        None \<Rightarrow> Inl Bad_Request
      | Some u \<Rightarrow> (case get_by_id s u of None \<Rightarrow> Inl Not_Found | Some i \<Rightarrow> Inr i))"

text \<open>The handlers of the rules; \<open>parse\<close> decodes one rule.\<close>

definition create_rule :: "(string \<Rightarrow> string + alert_rule) \<Rightarrow> string \<Rightarrow> registry \<Rightarrow> (string + alert_rule) \<times> registry" where
  "create_rule parse body rs =
     (case parse body of Inl e \<Rightarrow> (Inl e, rs) | Inr rule \<Rightarrow> (Inr rule, registry_insert rule rs))"

definition update_rule ::
  "(string \<Rightarrow> string + alert_rule) \<Rightarrow> string \<Rightarrow> string \<Rightarrow> registry \<Rightarrow> (handler_error + alert_rule) \<times> registry" where
  "update_rule parse path_id body rs =
     (case parse body of
        Inl e \<Rightarrow> (Inl Bad_Request, rs)
      | Inr rule \<Rightarrow>
          (case registry_update rule rs of
             (True, rs') \<Rightarrow> (Inr rule, rs')
           | (False, rs') \<Rightarrow> (Inl Not_Found, rs')))"

definition delete_rule :: "string \<Rightarrow> registry \<Rightarrow> (handler_error + unit) \<times> registry" where
  "delete_rule rid rs =
     (case registry_disable rid rs of (True, rs') \<Rightarrow> (Inr (), rs') | (False, rs') \<Rightarrow> (Inl Not_Found, rs'))"

subsection \<open>The alert loop of the server\<close>

text \<open>One round over the enabled rules. \<open>query\<close> gives the series a rule's query returns, each with its last
  value if it has one, or nothing when the query does not parse, plan or execute; \<open>draws\<close> gives the
  fresh identifier and the clock of the next evaluation.\<close>

fun evaluate_series ::
  "(string list \<Rightarrow> u64) \<Rightarrow> store_io \<Rightarrow> (nat \<Rightarrow> ulid \<times> instant) \<Rightarrow> alert_rule \<Rightarrow> (f64 option \<times> entries) list
     \<Rightarrow> nat \<times> alert_store \<times> alert_instance list \<Rightarrow> nat \<times> alert_store \<times> alert_instance list" where
  "evaluate_series hash io draws rule [] st = st"
| "evaluate_series hash io draws rule ((sample, labels) # series) (n, s, sent) =
     (case sample of
        None \<Rightarrow> evaluate_series hash io draws rule series (n, s, sent)
      | Some value \<Rightarrow>
          (case evaluate_rule_with_value hash io (fst (draws n)) (snd (draws n)) rule value labels s of
             (s', es) \<Rightarrow> evaluate_series hash io draws rule series (n + 1, s', sent @ es)))"

fun alert_round ::
  "(string list \<Rightarrow> u64) \<Rightarrow> store_io \<Rightarrow> (nat \<Rightarrow> ulid \<times> instant) \<Rightarrow> (alert_rule \<Rightarrow> (f64 option \<times> entries) list option) \<Rightarrow> alert_rule list
     \<Rightarrow> nat \<times> alert_store \<times> alert_instance list \<Rightarrow> nat \<times> alert_store \<times> alert_instance list" where
  "alert_round hash io draws query [] st = st"
| "alert_round hash io draws query (rule # rules) st =
     (case query rule of
        None \<Rightarrow> alert_round hash io draws query rules st
      | Some series \<Rightarrow> alert_round hash io draws query rules (evaluate_series hash io draws rule series st))"

subsection \<open>The locks of the store\<close>

text \<open>The order in which the two operations take and release the locks of the two maps.\<close>

datatype store_lock = L_Instances | L_Index

datatype lock_op = Acquire_Read store_lock | Acquire_Write store_lock | Release_Read store_lock | Release_Write store_lock

definition save_locks :: "lock_op list" where
  "save_locks = [Acquire_Write L_Instances, Acquire_Write L_Index, Release_Write L_Instances, Release_Write L_Index,
     Acquire_Read L_Instances, Release_Read L_Instances]"

definition get_by_fingerprint_locks :: "lock_op list" where
  "get_by_fingerprint_locks = [Acquire_Read L_Index, Acquire_Read L_Instances, Release_Read L_Instances, Release_Read L_Index]"

end
