(* ===== verification/Alert_Proofs.thy ===== *)
theory Alert_Proofs
  imports Alerts Prelude
begin

section \<open>What the alert engine guarantees\<close>

text \<open>
  Every stored alert has followed the state machine from its creation, and the firing events sent
  for it are its transitions into \<^const>\<open>Firing\<close>. The store finds what it was given and is the same after a
  restart. An alert fires once the condition has held for its duration, but an alert that fires
  again does not wait. The two locks of the store are taken in opposite orders.
\<close>

subsection \<open>The store\<close>

lemma persist_sel [simp]:
  "as_instances (persist_to_disk io s) = as_instances s"
  "as_fingerprint_index (persist_to_disk io s) = as_fingerprint_index s"
  "as_data_dir (persist_to_disk io s) = as_data_dir s"
  by (auto simp: persist_to_disk_def split: option.splits)

lemma put_sel [simp]:
  "map_of (as_instances (put_instance i s)) = (map_of (as_instances s))(in_id i \<mapsto> i)"
  "map_of (as_fingerprint_index (put_instance i s)) = (map_of (as_fingerprint_index s))(in_fingerprint i \<mapsto> in_id i)"
  "as_data_dir (put_instance i s) = as_data_dir s"
  by (simp_all add: put_instance_def update_conv')

lemma save_sel [simp]:
  "map_of (as_instances (alert_save io i s)) = (map_of (as_instances s))(in_id i \<mapsto> i)"
  "map_of (as_fingerprint_index (alert_save io i s)) = (map_of (as_fingerprint_index s))(in_fingerprint i \<mapsto> in_id i)"
  "as_data_dir (alert_save io i s) = as_data_dir s"
  by (simp_all add: alert_save_def)

text \<open>The two maps of a store agree.\<close>

definition wf_store :: "alert_store \<Rightarrow> bool" where
  "wf_store s \<longleftrightarrow> distinct (map fst (as_instances s)) \<and>
     (\<forall>u i. map_of (as_instances s) u = Some i \<longrightarrow> in_id i = u \<and> map_of (as_fingerprint_index s) (in_fingerprint i) = Some u) \<and>
     (\<forall>fp u. map_of (as_fingerprint_index s) fp = Some u \<longrightarrow> (\<exists>i. map_of (as_instances s) u = Some i \<and> in_fingerprint i = fp))"

lemma wf_store_instance:
  "wf_store s \<Longrightarrow> map_of (as_instances s) u = Some i \<Longrightarrow> in_id i = u \<and> map_of (as_fingerprint_index s) (in_fingerprint i) = Some u"
  unfolding wf_store_def by blast

lemma wf_store_index:
  "wf_store s \<Longrightarrow> map_of (as_fingerprint_index s) fp = Some u \<Longrightarrow> \<exists>i. map_of (as_instances s) u = Some i \<and> in_fingerprint i = fp"
  unfolding wf_store_def by blast

lemma wf_store_get:
  assumes "wf_store s" "get_by_fingerprint s fp = Some i"
  shows "get_by_id s (in_id i) = Some i" and "in_fingerprint i = fp"
proof -
  obtain u where u: "map_of (as_fingerprint_index s) fp = Some u" "map_of (as_instances s) u = Some i"
    using assms (2) by (auto simp: get_by_fingerprint_def split: option.splits)
  show "in_fingerprint i = fp" using wf_store_index [OF assms (1) u (1)] u (2) by simp
  show "get_by_id s (in_id i) = Some i" using wf_store_instance [OF assms (1) u (2)] u (2) by (simp add: get_by_id_def)
qed

lemma save_distinct: "distinct (map fst (as_instances s)) \<Longrightarrow> distinct (map fst (as_instances (alert_save io i s)))"
  by (simp add: alert_save_def put_instance_def distinct_update)

lemma wf_store_save:
  assumes wf: "wf_store s"
    and same: "\<And>j. get_by_id s (in_id i) = Some j \<Longrightarrow> in_fingerprint i = in_fingerprint j"
    and other: "\<And>u. map_of (as_fingerprint_index s) (in_fingerprint i) = Some u \<Longrightarrow> u = in_id i"
  shows "wf_store (alert_save io i s)"
  unfolding wf_store_def
proof (intro conjI allI impI)
  show "distinct (map fst (as_instances (alert_save io i s)))" using wf by (simp add: wf_store_def save_distinct)
next
  fix u j assume j: "map_of (as_instances (alert_save io i s)) u = Some j"
  show "in_id j = u" using j wf_store_instance [OF wf] by (auto split: if_splits)
  show "map_of (as_fingerprint_index (alert_save io i s)) (in_fingerprint j) = Some u"
    using j wf_store_instance [OF wf, of u j] other [of u] by (auto split: if_splits)
next
  fix fp u assume u: "map_of (as_fingerprint_index (alert_save io i s)) fp = Some u"
  show "\<exists>j. map_of (as_instances (alert_save io i s)) u = Some j \<and> in_fingerprint j = fp"
  proof (cases "fp = in_fingerprint i")
    case True
    then show ?thesis using u by simp
  next
    case False
    then obtain j where j: "map_of (as_instances s) u = Some j" "in_fingerprint j = fp" using u wf_store_index [OF wf, of fp u] by auto
    then have "u \<noteq> in_id i" using same [of j] False by (auto simp: get_by_id_def)
    then show ?thesis using j by simp
  qed
qed

lemma wf_store_save_update:
  assumes "wf_store s" "get_by_id s (in_id i) = Some j" "in_fingerprint i = in_fingerprint j"
  shows "wf_store (alert_save io i s)"
  using assms wf_store_instance [OF assms (1), of "in_id i" j] by (intro wf_store_save) (auto simp: get_by_id_def)

lemma wf_store_save_new:
  assumes "wf_store s" "get_by_id s (in_id i) = None" "get_by_fingerprint s (in_fingerprint i) = None"
  shows "wf_store (alert_save io i s)"
  using assms wf_store_index [OF assms (1), of "in_fingerprint i"]
  by (intro wf_store_save) (auto simp: get_by_fingerprint_def split: option.splits)

lemma fold_put:
  "map_of (as_instances (fold put_instance xs s)) = map_of (as_instances s) ++ map_of (rev (map (\<lambda>i. (in_id i, i)) xs))"
  "map_of (as_fingerprint_index (fold put_instance xs s)) =
     map_of (as_fingerprint_index s) ++ map_of (rev (map (\<lambda>i. (in_fingerprint i, in_id i)) xs))"
  by (induction xs arbitrary: s) (auto simp: fun_eq_iff map_add_def split: option.splits)

lemma option_eqI: "(\<And>u. a = Some u \<longleftrightarrow> b = Some u) \<Longrightarrow> a = b"
  by (cases a; cases b) auto

text \<open>Loading the alerts of a store in any order rebuilds its two maps.\<close>

lemma load_permuted:
  assumes wf: "wf_store t" and xs: "mset xs = mset (map snd (as_instances t))"
  shows "map_of (rev (map (\<lambda>i. (in_id i, i)) xs)) = map_of (as_instances t)"
    and "map_of (rev (map (\<lambda>i. (in_fingerprint i, in_id i)) xs)) = map_of (as_fingerprint_index t)"
proof -
  have d: "distinct (map fst (as_instances t))" using wf by (simp add: wf_store_def)
  have key: "in_id (snd e) = fst e" if "e \<in> set (as_instances t)" for e
    using that wf_store_instance [OF wf, of "fst e" "snd e"] map_of_is_SomeI [OF d, of "fst e" "snd e"] by simp
  have vals: "set xs = snd ` set (as_instances t)" using mset_eq_setD [OF xs] by simp
  have ids: "mset (map in_id xs) = mset (map fst (as_instances t))"
  proof -
    have "mset (map in_id xs) = image_mset in_id (mset (map snd (as_instances t)))" unfolding xs [symmetric] by simp
    also have "\<dots> = mset (map (\<lambda>e. in_id (snd e)) (as_instances t))" by (simp add: image_mset.compositionality comp_def)
    also have "\<dots> = mset (map fst (as_instances t))" using key by (intro arg_cong [where f = mset] map_cong refl)
    finally show ?thesis .
  qed
  then have di: "distinct (map in_id xs)" using d mset_eq_imp_distinct_iff by blast
  have pairs: "(\<lambda>i. (in_id i, i)) ` set xs = set (as_instances t)" unfolding vals using key by (force simp: image_image)
  have dr: "distinct (map fst (rev (map (\<lambda>i. (in_id i, i)) xs)))" using di by (simp add: comp_def flip: rev_map)
  show one: "map_of (rev (map (\<lambda>i. (in_id i, i)) xs)) = map_of (as_instances t)"
    using map_of_inject_set [OF dr d] pairs by simp
  have look: "i \<in> set xs \<longleftrightarrow> map_of (as_instances t) (in_id i) = Some i" for i
    using map_of_eq_Some_iff [OF dr, of "in_id i" i] unfolding one by auto
  have "inj_on in_fingerprint (set xs)"
  proof (rule inj_onI)
    fix i j assume ij: "i \<in> set xs" "j \<in> set xs" and fp: "in_fingerprint i = in_fingerprint j"
    have l: "map_of (as_instances t) (in_id i) = Some i" "map_of (as_instances t) (in_id j) = Some j" using look ij by blast+
    then have "in_id i = in_id j" using wf_store_instance [OF wf l (1)] wf_store_instance [OF wf l (2)] fp by simp
    then show "i = j" using l by (metis option.inject)
  qed
  then have df: "distinct (map fst (rev (map (\<lambda>i. (in_fingerprint i, in_id i)) xs)))"
    using di by (simp add: rev_map comp_def distinct_map)
  have "map_of (rev (map (\<lambda>i. (in_fingerprint i, in_id i)) xs)) fp = Some u \<longleftrightarrow> map_of (as_fingerprint_index t) fp = Some u" for fp u
  proof -
    have "map_of (rev (map (\<lambda>i. (in_fingerprint i, in_id i)) xs)) fp = Some u \<longleftrightarrow> (\<exists>i\<in>set xs. in_fingerprint i = fp \<and> in_id i = u)"
      unfolding map_of_eq_Some_iff [OF df] by auto
    also have "\<dots> \<longleftrightarrow> map_of (as_fingerprint_index t) fp = Some u"
    proof
      assume "\<exists>i\<in>set xs. in_fingerprint i = fp \<and> in_id i = u"
      then obtain i where "i \<in> set xs" "in_fingerprint i = fp" "in_id i = u" by blast
      then show "map_of (as_fingerprint_index t) fp = Some u" using look wf_store_instance [OF wf, of u i] by blast
    next
      assume "map_of (as_fingerprint_index t) fp = Some u"
      then obtain i where i: "map_of (as_instances t) u = Some i" "in_fingerprint i = fp" using wf_store_index [OF wf] by blast
      then have "in_id i = u" using wf_store_instance [OF wf] by blast
      then show "\<exists>i\<in>set xs. in_fingerprint i = fp \<and> in_id i = u" using i look by blast
    qed
    finally show ?thesis .
  qed
  then show "map_of (rev (map (\<lambda>i. (in_fingerprint i, in_id i)) xs)) = map_of (as_fingerprint_index t)"
    by (intro ext option_eqI)
qed

text \<open>C33: What was saved last under a fingerprint is found by it and by its identifier, and every other
  alert is found as before. After a restart from the file that a save wrote, every alert is found
  again by its identifier and by its fingerprint.\<close>

theorem saved_alerts_survive_restart:
  assumes "wf_store s" "wf_store (alert_save io i s)" "as_data_dir s = Some dir" "sio_write_ok io"
    and "\<And>xs. mset (sio_order io xs) = mset xs" "sio_ser io (sio_order io (map snd (as_instances (alert_save io i s)))) = Some json"
    and "de json = Some (sio_order io (map snd (as_instances (alert_save io i s))))"
  shows "get_by_fingerprint (alert_save io i s) (in_fingerprint i) = Some i \<and>
    get_by_id (alert_save io i s) u = (if u = in_id i then Some i else get_by_id s u) \<and>
    get_by_id (alert_store_new de (Some dir) (as_file (alert_save io i s))) = get_by_id (alert_save io i s) \<and>
    get_by_fingerprint (alert_store_new de (Some dir) (as_file (alert_save io i s))) = get_by_fingerprint (alert_save io i s)"
proof -
  let ?t = "alert_save io i s"
  define xs where "xs = sio_order io (map snd (as_instances ?t))"
  have json: "sio_ser io xs = Some json" "de json = Some xs" using assms (6,7) by (simp_all only: xs_def)
  have saved: "as_file ?t = Some json"
  proof -
    have "xs = sio_order io (map snd (as_instances (put_instance i s)))" by (simp add: xs_def alert_save_def)
    then show ?thesis using json (1) assms (3,4) by (simp add: alert_save_def persist_to_disk_def)
  qed
  have "mset xs = mset (map snd (as_instances ?t))" unfolding xs_def by (rule assms (5))
  note same = load_permuted [OF assms (2) this]
  have m: "map_of (as_instances (alert_store_new de (Some dir) (as_file ?t))) = map_of (as_instances ?t)"
    "map_of (as_fingerprint_index (alert_store_new de (Some dir) (as_file ?t))) = map_of (as_fingerprint_index ?t)"
    unfolding saved alert_store_new_def load_from_disk_def by (simp_all add: json (2) fold_put same)
  have "get_by_id (alert_store_new de (Some dir) (as_file ?t)) = get_by_id ?t"
    "get_by_fingerprint (alert_store_new de (Some dir) (as_file ?t)) = get_by_fingerprint ?t"
    by (intro ext, simp only: get_by_id_def get_by_fingerprint_def m)+
  then show ?thesis by (simp add: get_by_fingerprint_def get_by_id_def)
qed

definition sample_alert :: alert_instance where
  "sample_alert = new_instance 1 0 7 (sample_rule ''a'') 0 []"

definition sample_sio :: store_io where
  "sample_sio = \<lparr>sio_order = rev, sio_ser = (\<lambda>_. Some ''json''), sio_write_ok = True\<rparr>"

theorem saved_alerts_survive_restart_witness:
  "get_by_fingerprint (alert_store_new (\<lambda>_. Some [sample_alert]) (Some ''d'')
     (as_file (alert_save sample_sio sample_alert (alert_store_new (\<lambda>_. None) (Some ''d'') None)))) 7 = Some sample_alert"
proof -
  define s where "s = alert_store_new (\<lambda>_. None) (Some ''d'') None"
  have sel: "as_instances s = []" "as_fingerprint_index s = []" "as_data_dir s = Some ''d''"
    by (simp_all add: s_def alert_store_new_def load_from_disk_def)
  have wf: "wf_store s" by (simp add: wf_store_def sel)
  have i: "in_id sample_alert = 1" "in_fingerprint sample_alert = 7" by (simp_all add: sample_alert_def new_instance_def)
  have wf': "wf_store (alert_save sample_sio sample_alert s)"
    using wf by (rule wf_store_save_new) (simp_all add: get_by_id_def get_by_fingerprint_def sel)
  have "as_instances (alert_save sample_sio sample_alert s) = [(1, sample_alert)]"
    by (simp add: alert_save_def put_instance_def sel i)
  then have "sio_ser sample_sio (sio_order sample_sio (map snd (as_instances (alert_save sample_sio sample_alert s)))) = Some ''json''"
    "(\<lambda>_. Some [sample_alert]) ''json'' = Some (sio_order sample_sio (map snd (as_instances (alert_save sample_sio sample_alert s))))"
    by (simp_all add: sample_sio_def)
  from saved_alerts_survive_restart [OF wf wf' sel (3) _ _ this] show ?thesis unfolding s_def by (simp add: sample_sio_def i)
qed

subsection \<open>Alerts follow the state machine\<close>

definition all_events :: "transition_event list" where
  "all_events = [DurationElapsed, ConditionCleared, ConditionMet, AcknowledgedBy [], NoiseSuppressed, NoiseScoreDropped,
     MarkedNoise, AutoSuppressed, AckWindowExpired]"

definition legal :: "alert_state \<Rightarrow> alert_state \<Rightarrow> bool" where
  "legal a b \<longleftrightarrow> b \<in> set (List.map_filter (\<lambda>e. map_option fst (transition_target a e)) all_events)"

lemma transition_legal: "transition now a e = Some (b, tr) \<Longrightarrow> legal a b \<and> tr_from tr = a \<and> tr_to tr = b"
  by (cases a; cases e) (auto simp: transition_def legal_def all_events_def map_filter_simps)

text \<open>A log starts in \<^const>\<open>Pending\<close>, each entry continues from the state before it, and each step is one of the
  machine.\<close>

fun follow :: "alert_state \<Rightarrow> state_transition list \<Rightarrow> alert_state option" where
  "follow a [] = Some a"
| "follow a (t # ts) = (if tr_from t = a \<and> legal a (tr_to t) then follow (tr_to t) ts else None)"

lemma follow_append: "follow a ts = Some b \<Longrightarrow> follow a (ts @ us) = follow b us"
  by (induction ts arbitrary: a) (auto split: if_splits)

definition times_fired :: "alert_instance \<Rightarrow> nat" where
  "times_fired i = length (filter (\<lambda>t. tr_to t = Firing) (in_transition_log i))"

definition events_of :: "ulid \<Rightarrow> alert_instance list \<Rightarrow> nat" where
  "events_of u sent = length (filter (\<lambda>e. in_id e = u) sent)"

type_synonym alert_system = "alert_store \<times> alert_instance list"

text \<open>The operations that change an alert, in any order; \<open>sent\<close> are the firing events so far. A fresh
  identifier is not in the store.\<close>

inductive alert_step :: "(string list \<Rightarrow> u64) \<Rightarrow> alert_system \<Rightarrow> alert_system \<Rightarrow> bool" for hash where
  step_evaluate: "evaluate_rule_with_value hash io fresh now rule value labels s = (s', es) \<Longrightarrow> get_by_id s fresh = None \<Longrightarrow>
    alert_step hash (s, sent) (s', sent @ es)"
| step_acknowledge: "acknowledge_alert parse io now ident by_field s = (res, s') \<Longrightarrow> alert_step hash (s, sent) (s', sent)"
| step_resolve: "resolve_alert parse io now ident s = (res, s') \<Longrightarrow> alert_step hash (s, sent) (s', sent)"

definition alert_init :: "alert_system \<Rightarrow> bool" where
  "alert_init st \<longleftrightarrow> as_instances (fst st) = [] \<and> as_fingerprint_index (fst st) = [] \<and> snd st = []"

definition alert_ok :: "alert_instance list \<Rightarrow> alert_instance \<Rightarrow> bool" where
  "alert_ok sent i \<longleftrightarrow> follow Pending (in_transition_log i) = Some (in_state i) \<and> events_of (in_id i) sent = times_fired i"

definition alert_inv :: "alert_system \<Rightarrow> bool" where
  "alert_inv st \<longleftrightarrow> wf_store (fst st) \<and> (\<forall>u i. get_by_id (fst st) u = Some i \<longrightarrow> alert_ok (snd st) i) \<and>
     (\<forall>u. get_by_id (fst st) u = None \<longrightarrow> events_of u (snd st) = 0)"

text \<open>Saving an alert that continues a stored one, or a new one, together with the events it sends.\<close>

lemma alert_inv_update:
  assumes "alert_inv (s, sent)" "get_by_id s (in_id i) = Some j" "in_fingerprint i = in_fingerprint j"
    and "follow Pending (in_transition_log i) = Some (in_state i)"
    and "times_fired i = times_fired j + length es" "list_all (\<lambda>e. in_id e = in_id i) es"
  shows "alert_inv (alert_save io i s, sent @ es)"
proof -
  have j: "in_id j = in_id i" "alert_ok sent j"
    using assms (1,2) wf_store_instance [of s "in_id i" j] by (auto simp: alert_inv_def get_by_id_def)
  have es: "filter (\<lambda>e. in_id e = in_id i) es = es" using assms (6) by (simp add: filter_id_conv list_all_iff)
  have off: "events_of u (sent @ es) = events_of u sent" if "u \<noteq> in_id i" for u
    using assms (6) that by (auto simp: events_of_def list_all_iff filter_empty_conv)
  have "alert_ok (sent @ es) i" using assms (4,5) j es by (simp add: alert_ok_def events_of_def)
  then have "alert_ok (sent @ es) k" if "get_by_id (alert_save io i s) u = Some k" for u k
    using that assms (1) off [of u] wf_store_instance [of s u k]
    by (auto simp: alert_inv_def get_by_id_def alert_ok_def split: if_splits)
  then show ?thesis
    using assms (1-3) off wf_store_save_update [of s i j io] by (auto simp: alert_inv_def get_by_id_def split: if_splits)
qed

text \<open>An alert after one transition, whatever else of it changes.\<close>

lemma after_transition:
  assumes "alert_inv (s, sent)" "get_by_id s (in_id i) = Some i" "transition now (in_state i) e = Some (b, tr)"
    and "in_id i' = in_id i" "in_fingerprint i' = in_fingerprint i" "in_state i' = b"
    "in_transition_log i' = in_transition_log i @ [tr]"
  shows "alert_inv (alert_save io i' s, sent @ (if b = Firing then [i'] else []))"
proof (rule alert_inv_update)
  have tr: "legal (in_state i) b" "tr_from tr = in_state i" "tr_to tr = b" using transition_legal [OF assms (3)] by blast+
  have "follow Pending (in_transition_log i) = Some (in_state i)" using assms (1,2) by (auto simp: alert_inv_def alert_ok_def)
  then show "follow Pending (in_transition_log i') = Some (in_state i')" unfolding assms (6,7) by (simp add: follow_append tr)
  show "times_fired i' = times_fired i + length (if b = Firing then [i'] else [])" by (simp add: times_fired_def assms (7) tr)
qed (use assms in auto)

lemma no_transition:
  assumes "alert_inv (s, sent)" "get_by_id s (in_id i) = Some i"
    and "in_id i' = in_id i" "in_fingerprint i' = in_fingerprint i" "in_state i' = in_state i"
    "in_transition_log i' = in_transition_log i"
  shows "alert_inv (alert_save io i' s, sent)"
proof -
  have "follow Pending (in_transition_log i) = Some (in_state i)" using assms (1,2) by (auto simp: alert_inv_def alert_ok_def)
  then have "alert_inv (alert_save io i' s, sent @ [])"
    using assms by (intro alert_inv_update [where j = i]) (auto simp: times_fired_def)
  then show ?thesis by simp
qed

lemma alert_inv_new:
  assumes "alert_inv (s, sent)" "get_by_id s (in_id i) = None" "get_by_fingerprint s (in_fingerprint i) = None"
    and "in_state i = Pending" "in_transition_log i = []"
  shows "alert_inv (alert_save io i s, sent)"
proof -
  have "alert_ok sent i" using assms (1,2,4,5) by (simp add: alert_inv_def alert_ok_def times_fired_def)
  then show ?thesis using assms (1,2) wf_store_save_new [OF _ assms (2,3), of io] by (auto simp: alert_inv_def get_by_id_def)
qed

lemma met_not_firing: "met_event now rule i = Some e \<Longrightarrow> in_state i \<noteq> Firing"
  by (auto simp: met_event_def split: alert_state.splits)

lemma cleared_not_firing: "cleared_event i = Some e \<Longrightarrow> transition now (in_state i) e = Some (b, tr) \<Longrightarrow> b \<noteq> Firing"
  by (cases "in_state i") (auto simp: cleared_event_def transition_def)

lemma evaluate_keeps_inv:
  assumes inv: "alert_inv (s, sent)" and run: "evaluate_rule_with_value hash io fresh now rule value labels s = (s', es)"
    and fresh: "get_by_id s fresh = None"
  shows "alert_inv (s', sent @ es)"
proof -
  define fp where "fp = compute_fingerprint hash (ar_id rule) labels"
  define met where "met = evaluate_threshold (ar_condition rule) value"
  note run = run [unfolded evaluate_rule_with_value_def Let_def, folded fp_def met_def]
  show ?thesis
  proof (cases "get_by_fingerprint s fp")
    case None
    show ?thesis
    proof (cases met)
      case True
      then have "s' = alert_save io (new_instance fresh now fp rule value labels) s" "es = []" using run None by simp_all
      then show ?thesis using alert_inv_new [OF inv, of "new_instance fresh now fp rule value labels" io] None fresh by (simp add: new_instance_def)
    next
      case False
      then show ?thesis using run None inv by simp
    qed
  next
    case (Some i)
    have i: "get_by_id s (in_id i) = Some i" using wf_store_get (1) inv Some by (auto simp: alert_inv_def)
    show ?thesis
    proof (cases met)
      case True
      then have r: "evaluate_met io now rule value i s = (s', es)" using run Some by simp
      show ?thesis
      proof (cases "met_event now rule i")
        case None
        then have "s' = alert_save io (i\<lparr>in_value := Some value, in_updated_at := now\<rparr>) s" "es = []" using r by (simp_all add: evaluate_met_def)
        then show ?thesis using no_transition [OF inv i] by simp
      next
        case (Some e)
        then show ?thesis using r met_not_firing [OF Some] after_transition [OF inv i] inv
          by (auto simp: evaluate_met_def Let_def split: option.splits if_splits)
      qed
    next
      case False
      then have r: "s' = evaluate_cleared io now i s" "es = []" using run Some by simp_all
      show ?thesis
      proof (cases "\<exists>e b tr. cleared_event i = Some e \<and> transition now (in_state i) e = Some (b, tr)")
        case True
        then obtain e b tr where e: "cleared_event i = Some e" "transition now (in_state i) e = Some (b, tr)" by blast
        show ?thesis using after_transition [OF inv i e (2)] cleared_not_firing [OF e] unfolding r by (simp add: evaluate_cleared_def e)
      next
        case False
        then have "s' = s" unfolding r by (auto simp: evaluate_cleared_def split: option.splits)
        then show ?thesis using inv r by simp
      qed
    qed
  qed
qed

lemma acknowledge_cases:
  assumes "acknowledge_alert parse io now ident by_field s = (res, s')"
  shows "s' = s \<or> (\<exists>u i b tr n. get_by_id s u = Some i \<and> transition now (in_state i) (AcknowledgedBy n) = Some (b, tr) \<and>
    s' = alert_save io (i\<lparr>in_state := b, in_acknowledged_by := Some n, in_updated_at := now, in_transition_log := in_transition_log i @ [tr]\<rparr>) s)"
proof (cases "s' = s")
  case False
  then show ?thesis using assms unfolding acknowledge_alert_def Let_def by (auto split: option.splits prod.splits) blast+
qed simp

lemma resolve_cases:
  assumes "resolve_alert parse io now ident s = (res, s')"
  shows "s' = s \<or> (\<exists>u i b tr. get_by_id s u = Some i \<and> transition now (in_state i) ConditionCleared = Some (b, tr) \<and>
    s' = alert_save io (i\<lparr>in_state := b, in_resolved_at := Some now, in_updated_at := now, in_transition_log := in_transition_log i @ [tr]\<rparr>) s)"
proof (cases "s' = s")
  case False
  then show ?thesis using assms unfolding resolve_alert_def Let_def by (auto split: option.splits prod.splits)
qed simp

lemma found_by_id: "alert_inv (s, sent) \<Longrightarrow> get_by_id s u = Some i \<Longrightarrow> get_by_id s (in_id i) = Some i"
  using wf_store_instance [of s u i] by (auto simp: alert_inv_def get_by_id_def)

lemma handler_target: "transition now a (AcknowledgedBy n) = Some (b, tr) \<or> transition now a ConditionCleared = Some (b, tr) \<Longrightarrow> b \<noteq> Firing"
  by (cases a) (auto simp: transition_def)

lemma alert_inv_step: "alert_inv st \<Longrightarrow> alert_step hash st st' \<Longrightarrow> alert_inv st'"
proof (erule alert_step.cases, goal_cases)
  case 1
  then show ?case using evaluate_keeps_inv by simp
next
  case (2 parse io now ident by_field s res s' sent)
  then have inv: "alert_inv (s, sent)" by simp
  have "alert_inv (s', sent @ [])"
    using acknowledge_cases [OF 2 (4)] inv after_transition [OF inv found_by_id [OF inv]] handler_target by fastforce
  then show ?case using 2 by simp
next
  case (3 parse io now ident s res s' sent)
  then have inv: "alert_inv (s, sent)" by simp
  have "alert_inv (s', sent @ [])"
    using resolve_cases [OF 3 (4)] inv after_transition [OF inv found_by_id [OF inv]] handler_target by fastforce
  then show ?case using 3 by simp
qed

interpretation alerts: state_machine alert_init "alert_step hash" alert_inv for hash
proof
  show "alert_inv st" if "alert_init st" for st
    using that by (auto simp: alert_init_def alert_inv_def wf_store_def get_by_id_def events_of_def)
qed (rule alert_inv_step)

text \<open>C13: Whatever evaluations, acknowledgements and resolutions follow one another, the log of every stored
  alert is a path of the state machine from \<open>Pending\<close> to the alert's state, the number of firing
  events sent for it is the number of its transitions into \<open>Firing\<close>, and the alert is found by its
  fingerprint.\<close>

theorem alerts_follow_the_machine:
  assumes "alert_init st" "(alert_step hash)\<^sup>*\<^sup>* st (s, sent)" "get_by_id s u = Some i"
  shows "follow Pending (in_transition_log i) = Some (in_state i) \<and> events_of u sent = times_fired i \<and>
    get_by_fingerprint s (in_fingerprint i) = Some i"
proof -
  have inv: "alert_inv (s, sent)" using assms (1,2) by (rule alerts.inv_reachable)
  then have w: "in_id i = u" "map_of (as_fingerprint_index s) (in_fingerprint i) = Some u"
    using wf_store_instance [of s u i] assms (3) by (auto simp: alert_inv_def get_by_id_def)
  then show ?thesis using inv assms (3) by (auto simp: alert_inv_def alert_ok_def get_by_fingerprint_def get_by_id_def)
qed

definition secs :: "nat \<Rightarrow> instant" where "secs n = int n * 1000000000"

text \<open>Evaluations of the sample rule, which fires above zero after sixty seconds.\<close>

definition sample_eval :: "ulid \<Rightarrow> nat \<Rightarrow> bool \<Rightarrow> alert_store \<Rightarrow> alert_store \<times> alert_instance list" where
  "sample_eval fresh t high s = evaluate_rule_with_value (\<lambda>_. 7) sample_sio fresh (secs t) (sample_rule ''a'')
     (if high then 0x3FF0000000000000 else 0) [] s"

definition store1 :: alert_store where "store1 = fst (sample_eval 1 0 True store_in_memory)"

definition store2 :: alert_store where "store2 = fst (sample_eval 2 60 True store1)"

theorem alerts_follow_the_machine_witness:
  "\<exists>sent i. (alert_step (\<lambda>_. 7))\<^sup>*\<^sup>* (store_in_memory, []) (store2, sent) \<and> get_by_id store2 1 = Some i \<and>
     in_state i = Firing \<and> follow Pending (in_transition_log i) = Some Firing \<and> events_of 1 sent = times_fired i"
proof -
  have n: "get_by_id store_in_memory 1 = None" "get_by_id store1 2 = None" by code_simp+
  define es1 es2 where "es1 = snd (sample_eval 1 0 True store_in_memory)" and "es2 = snd (sample_eval 2 60 True store1)"
  have "alert_step (\<lambda>_. 7) (store_in_memory, []) (store1, [] @ es1)"
    by (rule step_evaluate [OF _ n (1)]) (simp add: store1_def es1_def sample_eval_def)
  moreover have "alert_step (\<lambda>_. 7) (store1, [] @ es1) (store2, ([] @ es1) @ es2)"
    by (rule step_evaluate [OF _ n (2)]) (simp add: store2_def es2_def sample_eval_def)
  ultimately have run: "(alert_step (\<lambda>_. 7))\<^sup>*\<^sup>* (store_in_memory, []) (store2, ([] @ es1) @ es2)"
    by (meson converse_rtranclp_into_rtranclp r_into_rtranclp)
  have "map_option in_state (get_by_id store2 1) = Some Firing" by code_simp
  then obtain i where i: "get_by_id store2 1 = Some i" "in_state i = Firing" by auto
  have "alert_init (store_in_memory, [])" by (simp add: alert_init_def store_in_memory_def)
  from alerts_follow_the_machine [OF this run i (1)] show ?thesis using run i by (auto simp: i)
qed

subsection \<open>When an alert fires\<close>



text \<open>The state of the sample alert and the number of events after each of several evaluations.\<close>

fun sample_evals :: "(nat \<times> bool) list \<Rightarrow> alert_store \<Rightarrow> (alert_state option \<times> nat) list" where
  "sample_evals [] s = []"
| "sample_evals ((t, high) # evs) s =
     (case sample_eval (of_nat (Suc (length (as_instances s)))) t high s of
        (s', es) \<Rightarrow> (map_option in_state (get_by_fingerprint s' 7), length es) # sample_evals evs s')"

text \<open>An alert that was resolved and whose condition is met again does not wait for its duration: it is
  pending at second 200 and fires at second 201, although the rule asks for sixty seconds, because
  its start is still that of the first time.\<close>

theorem refire_skips_the_wait:
  "sample_evals [(0, True), (60, True), (100, False), (200, True), (201, True)] store_in_memory =
     [(Some Pending, 0), (Some Firing, 1), (Some Resolved, 0), (Some Pending, 0), (Some Firing, 1)] \<and>
   cd_for_duration_secs (ar_condition (sample_rule ''a'')) = 60"
  by code_simp

subsection \<open>The locks of the store\<close>

text \<open>Tasks with the operations they still have to do, and per lock the number of readers and whether a
  writer holds it. A reader waits for the writer, a writer for everyone.\<close>

record lock_state =
  lk_tasks :: "lock_op list list"
  lk_readers :: "store_lock \<Rightarrow> nat"
  lk_writer :: "store_lock \<Rightarrow> bool"

definition lock_start :: "lock_op list list \<Rightarrow> lock_state" where
  "lock_start tasks = \<lparr>lk_tasks = tasks, lk_readers = (\<lambda>_. 0), lk_writer = (\<lambda>_. False)\<rparr>"

definition lock_step :: "nat \<Rightarrow> lock_state \<Rightarrow> lock_state option" where
  "lock_step t st =
     (case lk_tasks st ! t of
        [] \<Rightarrow> None
      | lop # rest \<Rightarrow>
          (let st' = st\<lparr>lk_tasks := (lk_tasks st)[t := rest]\<rparr>
           in case lop of
                Acquire_Read l \<Rightarrow> if lk_writer st l then None else Some (st'\<lparr>lk_readers := (lk_readers st)(l := lk_readers st l + 1)\<rparr>)
              | Acquire_Write l \<Rightarrow> if lk_writer st l \<or> lk_readers st l > 0 then None else Some (st'\<lparr>lk_writer := (lk_writer st)(l := True)\<rparr>)
              | Release_Read l \<Rightarrow> Some (st'\<lparr>lk_readers := (lk_readers st)(l := lk_readers st l - 1)\<rparr>)
              | Release_Write l \<Rightarrow> Some (st'\<lparr>lk_writer := (lk_writer st)(l := False)\<rparr>)))"

fun lock_run :: "nat list \<Rightarrow> lock_state \<Rightarrow> lock_state option" where
  "lock_run [] st = Some st"
| "lock_run (t # ts) st = (case lock_step t st of None \<Rightarrow> None | Some st' \<Rightarrow> lock_run ts st')"

text \<open>Saving an alert and looking one up by its fingerprint take the two locks of the store in opposite
  orders. When each has its first lock, neither task can go on, and both stay blocked for ever.\<close>

theorem alert_store_can_deadlock:
  "\<exists>st. lock_run [0, 1] (lock_start [save_locks, get_by_fingerprint_locks]) = Some st \<and>
     list_all (\<lambda>ops. ops \<noteq> []) (lk_tasks st) \<and> lock_step 0 st = None \<and> lock_step 1 st = None"
  by (simp add: lock_start_def lock_step_def save_locks_def get_by_fingerprint_locks_def)

text \<open>The periodic evaluation of the engine changes nothing, whatever the rules.\<close>

lemma evaluate_all_inert: "evaluate_all hash order schedule timed_out rs s = (s, [])"
proof -
  have "fold (\<lambda>rule (s, sent). if timed_out rule then (s, sent) else case evaluate_rule hash rule s of (s', es) \<Rightarrow> (s', sent @ es))
      rules (s, []) = (s, [])" for rules
    by (induction rules) (simp_all add: evaluate_rule_def Let_def)
  then show ?thesis by (simp add: evaluate_all_def)
qed

end
