(* ===== verification/Alert_Router.thy ===== *)
theory Alert_Router
  imports Alerts Prelude
begin

section \<open>Routing of firing alerts\<close>

text \<open>
  The model of \<^verbatim>\<open>parqtel-alert/src/router.rs\<close> with the configuration it uses from
  \<^verbatim>\<open>parqtel-core/src/config/alert.rs\<close>: routes, silences and the repeat window. The wall clock in seconds,
  the readings of the monotonic clock before and after a delivery and the outcome of the request
  are arguments, as is the JSON encoding of the silences.
\<close>

subsection \<open>Configuration\<close>

record route_config =
  ro_name :: string
  ro_match_severity :: string
  ro_match_labels :: entries
  ro_webhook_url :: string
  ro_repeat_minutes :: u64

definition route_config_default :: route_config where
  "route_config_default = \<lparr>ro_name = [], ro_match_severity = ''info'', ro_match_labels = [], ro_webhook_url = [], ro_repeat_minutes = 240\<rparr>"

record silence_config =
  si_name :: string
  si_created_by :: string
  si_match_labels :: entries
  si_starts_at :: i64
  si_ends_at :: i64

record notification_config =
  nc_dedup_flush_interval_secs :: u64
  nc_max_concurrent_sends :: nat
  nc_send_timeout_secs :: u64
  nc_self_monitoring_failure_threshold :: f64
  nc_routes :: "route_config list"

text \<open>The derived default is all zeros and differs from the defaults of the fields when decoding.\<close>

definition notification_config_default :: notification_config where
  "notification_config_default = \<lparr>nc_dedup_flush_interval_secs = 0, nc_max_concurrent_sends = 0, nc_send_timeout_secs = 0,
     nc_self_monitoring_failure_threshold = 0, nc_routes = []\<rparr>"

subsection \<open>Matching\<close>

definition severity_rank :: "severity \<Rightarrow> nat" where
  "severity_rank sev = (case sev of Critical \<Rightarrow> 3 | Warning \<Rightarrow> 2 | Info \<Rightarrow> 1)"

definition char_to_lower :: "char \<Rightarrow> char" where
  "char_to_lower c = (let n = (of_char c :: nat) in if 65 \<le> n \<and> n \<le> 90 then char_of (n + 32) else c)"

definition parse_match_severity :: "string \<Rightarrow> nat" where
  "parse_match_severity s =
     (let l = map char_to_lower s
      in if l = ''critical'' then 3 else if l = ''warning'' then 2 else if l = ''info'' then 1 else 1)"

definition labels_match :: "entries \<Rightarrow> entries \<Rightarrow> bool" where
  "labels_match wanted labels \<longleftrightarrow> list_all (\<lambda>(k, v). map_of labels k = Some v) wanted"

definition is_silenced :: "i64 \<Rightarrow> silence_config list \<Rightarrow> alert_instance \<Rightarrow> bool" where
  "is_silenced now silences i \<longleftrightarrow>
     list_ex (\<lambda>s. si_ends_at s > now \<and> si_starts_at s \<le> now \<and> labels_match (si_match_labels s) (in_labels i)) silences"

definition route_matches :: "alert_instance \<Rightarrow> route_config \<Rightarrow> bool" where
  "route_matches i r \<longleftrightarrow> ro_webhook_url r \<noteq> [] \<and>
     severity_rank (in_severity i) \<ge> parse_match_severity (ro_match_severity r) \<and> labels_match (ro_match_labels r) (in_labels i)"

definition match_route :: "route_config list \<Rightarrow> alert_instance \<Rightarrow> route_config option" where
  "match_route routes i = List.find (route_matches i) routes"

subsection \<open>The router\<close>

type_synonym delivery_key = "string \<times> u64"

record alert_router =
  rt_config :: notification_config
  rt_silences :: "silence_config list"
  rt_last_sent :: "(delivery_key \<times> instant) list"
  rt_silence_dir :: "string option"
  rt_file :: "string option"

definition router_new :: "notification_config \<Rightarrow> alert_router" where
  "router_new config = \<lparr>rt_config = config, rt_silences = [], rt_last_sent = [], rt_silence_dir = None, rt_file = None\<rparr>"

definition load_silences_from_disk ::
  "(string \<Rightarrow> silence_config list option) \<Rightarrow> i64 \<Rightarrow> string option \<Rightarrow> alert_router \<Rightarrow> alert_router" where
  "load_silences_from_disk de now content rt =
     (case rt_silence_dir rt of
        None \<Rightarrow> rt
      | Some dir \<Rightarrow>
          (case content of
             None \<Rightarrow> rt
           | Some text \<Rightarrow>
               (case de text of
                  None \<Rightarrow> rt
                | Some silences \<Rightarrow> rt\<lparr>rt_silences := filter (\<lambda>s. si_ends_at s > now) silences\<rparr>)))"

definition with_silence_dir ::
  "(string \<Rightarrow> silence_config list option) \<Rightarrow> i64 \<Rightarrow> string \<Rightarrow> string option \<Rightarrow> alert_router \<Rightarrow> alert_router" where
  "with_silence_dir de now dir content rt =
     load_silences_from_disk de now content (rt\<lparr>rt_silence_dir := Some dir, rt_file := content\<rparr>)"

definition persist_silences :: "(silence_config list \<Rightarrow> string option) \<Rightarrow> bool \<Rightarrow> i64 \<Rightarrow> alert_router \<Rightarrow> alert_router" where
  "persist_silences ser write_ok now rt =
     (case rt_silence_dir rt of
        None \<Rightarrow> rt
      | Some dir \<Rightarrow>
          (case ser (filter (\<lambda>s. si_ends_at s > now) (rt_silences rt)) of
             None \<Rightarrow> rt
           | Some json \<Rightarrow> if write_ok then rt\<lparr>rt_file := Some json\<rparr> else rt))"

definition set_config :: "notification_config \<Rightarrow> alert_router \<Rightarrow> alert_router" where
  "set_config config rt = rt\<lparr>rt_config := config\<rparr>"

definition add_silence :: "(silence_config list \<Rightarrow> string option) \<Rightarrow> bool \<Rightarrow> i64 \<Rightarrow> silence_config \<Rightarrow> alert_router \<Rightarrow> alert_router" where
  "add_silence ser write_ok now silence rt =
     persist_silences ser write_ok now
       (rt\<lparr>rt_silences := filter (\<lambda>s. si_name s \<noteq> si_name silence) (rt_silences rt) @ [silence]\<rparr>)"

definition remove_silence :: "(silence_config list \<Rightarrow> string option) \<Rightarrow> bool \<Rightarrow> i64 \<Rightarrow> string \<Rightarrow> alert_router \<Rightarrow> bool \<times> alert_router" where
  "remove_silence ser write_ok now name rt =
     (let kept = filter (\<lambda>s. si_name s \<noteq> name) (rt_silences rt);
          removed = (length kept \<noteq> length (rt_silences rt));
          rt1 = rt\<lparr>rt_silences := kept\<rparr>
      in (removed, if removed then persist_silences ser write_ok now rt1 else rt1))"

definition active_silences :: "i64 \<Rightarrow> alert_router \<Rightarrow> silence_config list" where
  "active_silences now rt = filter (\<lambda>s. si_ends_at s > now) (rt_silences rt)"

definition NOTIFY_ONCE_WINDOW_SECS :: u64 where "NOTIFY_ONCE_WINDOW_SECS = 24 * 3600"

text \<open>The window in nanoseconds; the product of the minutes wraps around. The monotonic clock never shows a
  negative duration.\<close>

definition repeat_window :: "route_config \<Rightarrow> int" where
  "repeat_window r =
     (if ro_repeat_minutes r = 0 then uint NOTIFY_ONCE_WINDOW_SECS else uint (ro_repeat_minutes r * 60)) * 1000000000"

definition mono_elapsed :: "instant \<Rightarrow> instant \<Rightarrow> int" where
  "mono_elapsed now tm = max 0 (now - tm)"

definition ONE_DAY_NS :: int where "ONE_DAY_NS = 24 * 3600 * 1000000000"

definition record_sent :: "delivery_key \<Rightarrow> instant \<Rightarrow> (delivery_key \<times> instant) list \<Rightarrow> (delivery_key \<times> instant) list" where
  "record_sent key now sent =
     (let sent' = AList.update key now sent
      in if length sent' > 10000 then filter (\<lambda>(_, tm). mono_elapsed now tm < ONE_DAY_NS) sent' else sent')"

text \<open>Whether an event leads to a delivery, and by which route.\<close>

definition due_route :: "i64 \<Rightarrow> instant \<Rightarrow> alert_instance \<Rightarrow> alert_router \<Rightarrow> route_config option" where
  "due_route now_unix before i rt =
     (if in_state i \<noteq> Firing then None
      else if is_silenced now_unix (rt_silences rt) i then None
      else case match_route (nc_routes (rt_config rt)) i of
             None \<Rightarrow> None
           | Some r \<Rightarrow>
               (case map_of (rt_last_sent rt) (ro_name r, in_fingerprint i) of
                  Some sent_at \<Rightarrow> if mono_elapsed before sent_at < repeat_window r then None else Some r
                | None \<Rightarrow> Some r))"

definition handle_event ::
  "i64 \<Rightarrow> instant \<Rightarrow> instant \<Rightarrow> bool \<Rightarrow> alert_instance \<Rightarrow> alert_router \<Rightarrow> string option \<times> alert_router" where
  "handle_event now_unix before after delivered i rt =
     (case due_route now_unix before i rt of
        None \<Rightarrow> (None, rt)
      | Some r \<Rightarrow>
          (if delivered then Some (ro_name r) else None,
           rt\<lparr>rt_last_sent := record_sent (ro_name r, in_fingerprint i) after (rt_last_sent rt)\<rparr>))"

subsection \<open>Handlers\<close>

definition set_routes :: "route_config list \<Rightarrow> alert_router \<Rightarrow> alert_router" where
  "set_routes routes rt = set_config ((rt_config rt)\<lparr>nc_routes := routes\<rparr>) rt"

text \<open>A name is blank when trimming leaves nothing; only the white space of ASCII is considered.\<close>

definition blank :: "string \<Rightarrow> bool" where
  "blank s \<longleftrightarrow> list_all (\<lambda>c. let n = (of_char c :: nat) in n = 32 \<or> 9 \<le> n \<and> n \<le> 13) s"

definition create_silence ::
  "(silence_config list \<Rightarrow> string option) \<Rightarrow> bool \<Rightarrow> i64 \<Rightarrow> silence_config \<Rightarrow> alert_router
     \<Rightarrow> (handler_error + unit) \<times> alert_router" where
  "create_silence ser write_ok now silence rt =
     (if blank (si_name silence) then (Inl Bad_Request, rt)
      else if si_ends_at silence \<le> si_starts_at silence then (Inl Bad_Request, rt)
      else (Inr (), add_silence ser write_ok now silence rt))"

definition delete_silence ::
  "(silence_config list \<Rightarrow> string option) \<Rightarrow> bool \<Rightarrow> i64 \<Rightarrow> string \<Rightarrow> alert_router \<Rightarrow> (handler_error + unit) \<times> alert_router" where
  "delete_silence ser write_ok now name rt =
     (case remove_silence ser write_ok now name rt of
        (True, rt') \<Rightarrow> (Inr (), rt')
      | (False, rt') \<Rightarrow> (Inl Not_Found, rt'))"

subsection \<open>The repeat window\<close>

text \<open>Routers with the attempts so far and the last reading of the monotonic clock. The routing table and the
  silences may change at any time.\<close>

type_synonym routing = "alert_router \<times> (delivery_key \<times> instant) list \<times> instant"

inductive routing_step :: "routing \<Rightarrow> routing \<Rightarrow> bool" where
  step_attempt: "due_route now_unix before i rt = Some r \<Longrightarrow> handle_event now_unix before after delivered i rt = (res, rt') \<Longrightarrow>
    clk \<le> before \<Longrightarrow> before \<le> after \<Longrightarrow>
    routing_step (rt, sent, clk) (rt', ((ro_name r, in_fingerprint i), after) # sent, after)"
| step_other: "rt_last_sent rt' = rt_last_sent rt \<Longrightarrow> clk \<le> clk' \<Longrightarrow> routing_step (rt, sent, clk) (rt', sent, clk')"

definition routing_init :: "routing \<Rightarrow> bool" where
  "routing_init st \<longleftrightarrow> rt_last_sent (fst st) = [] \<and> fst (snd st) = []"

text \<open>Every attempt is remembered, or it is a day old.\<close>

definition routing_inv :: "routing \<Rightarrow> bool" where
  "routing_inv st = (case st of (rt, sent, clk) \<Rightarrow>
     distinct (map fst (rt_last_sent rt)) \<and> (\<forall>k tm. map_of (rt_last_sent rt) k = Some tm \<longrightarrow> tm \<le> clk) \<and>
     (\<forall>(k, tm)\<in>set sent. (\<exists>tm'\<ge>tm. map_of (rt_last_sent rt) k = Some tm') \<or> ONE_DAY_NS \<le> clk - tm))"

lemma map_of_filter_val:
  "distinct (map fst xs) \<Longrightarrow> map_of (filter (\<lambda>(_, v). P v) xs) k =
     (case map_of xs k of None \<Rightarrow> None | Some v \<Rightarrow> if P v then Some v else None)"
proof (induction xs)
  case (Cons x xs)
  obtain a b where x: "x = (a, b)" by (cases x)
  have "map_of xs a = None" using Cons.prems by (simp add: x map_of_eq_None_iff)
  then show ?case using Cons by (auto simp: x)
qed simp

lemma record_sent_lookup:
  assumes "distinct (map fst sent)" "\<forall>k tm. map_of sent k = Some tm \<longrightarrow> tm \<le> now"
  shows "distinct (map fst (record_sent key now sent))"
    and "map_of (record_sent key now sent) k = Some tm \<Longrightarrow> tm \<le> now"
    and "map_of (record_sent key now sent) key = Some now"
    and "map_of sent k = Some tm \<Longrightarrow> k \<noteq> key \<Longrightarrow> map_of (record_sent key now sent) k = Some tm \<or> ONE_DAY_NS \<le> now - tm"
proof -
  let ?u = "AList.update key now sent"
  have d: "distinct (map fst ?u)" using assms (1) by (rule distinct_update)
  have m: "map_of ?u = (map_of sent)(key \<mapsto> now)" by (simp add: update_conv')
  have f: "map_of (filter (\<lambda>(_, tm). mono_elapsed now tm < ONE_DAY_NS) ?u) k =
      (case map_of ?u k of None \<Rightarrow> None | Some tm \<Rightarrow> if mono_elapsed now tm < ONE_DAY_NS then Some tm else None)" for k
    using d by (rule map_of_filter_val)
  have mono: "mono_elapsed now tm < ONE_DAY_NS \<or> ONE_DAY_NS \<le> now - tm" for tm by (auto simp: mono_elapsed_def ONE_DAY_NS_def)
  have now: "mono_elapsed now now < ONE_DAY_NS" by (simp add: mono_elapsed_def ONE_DAY_NS_def)
  show "distinct (map fst (record_sent key now sent))" using d by (simp add: record_sent_def Let_def distinct_map_filter)
  show "map_of (record_sent key now sent) k = Some tm \<Longrightarrow> tm \<le> now"
    using assms (2) [rule_format, of k tm] by (auto simp: record_sent_def Let_def f m split: if_splits option.splits)
  show "map_of (record_sent key now sent) key = Some now"
    using now by (simp add: record_sent_def Let_def f m)
  show "map_of (record_sent key now sent) k = Some tm \<or> ONE_DAY_NS \<le> now - tm" if "map_of sent k = Some tm" "k \<noteq> key"
    using that mono [of tm] by (auto simp: record_sent_def Let_def f m)
qed

lemma routing_inv_last: "routing_inv (rt, sent, clk) \<Longrightarrow> map_of (rt_last_sent rt) k = Some tm \<Longrightarrow> tm \<le> clk"
  unfolding routing_inv_def prod.case by blast

lemma routing_inv_sent:
  "routing_inv (rt, sent, clk) \<Longrightarrow> (k, tm) \<in> set sent \<Longrightarrow> (\<exists>tm'\<ge>tm. map_of (rt_last_sent rt) k = Some tm') \<or> ONE_DAY_NS \<le> clk - tm"
  unfolding routing_inv_def prod.case by blast

lemma routing_invI:
  assumes "distinct (map fst (rt_last_sent rt))" "\<And>k tm. map_of (rt_last_sent rt) k = Some tm \<Longrightarrow> tm \<le> clk"
    and "\<And>k tm. (k, tm) \<in> set sent \<Longrightarrow> (\<exists>tm'\<ge>tm. map_of (rt_last_sent rt) k = Some tm') \<or> ONE_DAY_NS \<le> clk - tm"
  shows "routing_inv (rt, sent, clk)"
  unfolding routing_inv_def prod.case using assms by (intro conjI ballI allI impI; (unfold split_paired_all)?; blast)

lemma routing_inv_step: "routing_inv st \<Longrightarrow> routing_step st st' \<Longrightarrow> routing_inv st'"
proof (erule routing_step.cases, goal_cases)
  case (1 now_unix before i rt r after delivered res rt' clk sent)
  then have inv: "routing_inv (rt, sent, clk)" by simp
  define key where "key = (ro_name r, in_fingerprint i)"
  have c: "clk \<le> after" using 1 by simp
  have last: "rt_last_sent rt' = record_sent key after (rt_last_sent rt)" using 1 by (auto simp: handle_event_def key_def)
  have d: "distinct (map fst (rt_last_sent rt))" using inv by (simp add: routing_inv_def)
  have b: "\<forall>k tm. map_of (rt_last_sent rt) k = Some tm \<longrightarrow> tm \<le> after" using routing_inv_last [OF inv] c order_trans by blast
  note look = record_sent_lookup [where key = key, OF d b, folded last]
  have "(\<exists>tm'\<ge>tm. map_of (rt_last_sent rt') k = Some tm') \<or> ONE_DAY_NS \<le> after - tm" if e: "(k, tm) \<in> set ((key, after) # sent)" for k tm
  proof (cases "k = key")
    case True
    have "tm \<le> after \<or> ONE_DAY_NS \<le> after - tm"
      using e routing_inv_sent [OF inv, of k tm] b [rule_format, of k] c by fastforce
    then show ?thesis using look (3) True by auto
  next
    case False
    then have "(\<exists>tm'\<ge>tm. map_of (rt_last_sent rt) k = Some tm') \<or> ONE_DAY_NS \<le> clk - tm"
      using e routing_inv_sent [OF inv, of k tm] by auto
    then show ?thesis
    proof
      assume "\<exists>tm'\<ge>tm. map_of (rt_last_sent rt) k = Some tm'"
      then obtain tm' where t: "tm \<le> tm'" "map_of (rt_last_sent rt) k = Some tm'" by blast
      show ?thesis using look (4) [OF t (2) False] t (1) by auto
    qed (use c in simp)
  qed
  with look (1,2) have "routing_inv (rt', (key, after) # sent, after)" by (rule routing_invI)
  then show ?case using 1 by (simp add: key_def)
next
  case (2 rt' rt clk clk' sent)
  then have inv: "routing_inv (rt, sent, clk)" and c: "clk \<le> clk'" and r: "rt_last_sent rt' = rt_last_sent rt" by simp_all
  have "distinct (map fst (rt_last_sent rt))" using inv by (simp add: routing_inv_def)
  moreover have "(\<exists>tm'\<ge>tm. map_of (rt_last_sent rt) k = Some tm') \<or> ONE_DAY_NS \<le> clk' - tm" if "(k, tm) \<in> set sent" for k tm
    using routing_inv_sent [OF inv that] c by auto
  moreover have "tm \<le> clk'" if "map_of (rt_last_sent rt) k = Some tm" for k tm using routing_inv_last [OF inv that] c by simp
  ultimately have "routing_inv (rt', sent, clk')" using r by (intro routing_invI) (simp_all only: r)
  then show ?case using 2 by simp
qed

interpretation routing: state_machine routing_init routing_step routing_inv
proof
  show "routing_inv st" if "routing_init st" for st using that by (cases st) (auto simp: routing_init_def routing_inv_def)
qed (rule routing_inv_step)

text \<open>C15: However events, changes of the routing table and silences interleave, a delivery is attempted only for
  a firing alert that no silence covers, by the first route that matches it, and at least the
  repeat window of that route, or a day if that is less, after every earlier attempt for the same
  route and alert.\<close>

theorem repeat_window_is_honoured:
  assumes "routing_init st" "routing_step\<^sup>*\<^sup>* st (rt, sent, clk)" "clk \<le> before" "due_route now_unix before i rt = Some r"
    and "((ro_name r, in_fingerprint i), tm) \<in> set sent"
  shows "in_state i = Firing \<and> \<not> is_silenced now_unix (rt_silences rt) i \<and>
    match_route (nc_routes (rt_config rt)) i = Some r \<and> min (repeat_window r) ONE_DAY_NS \<le> before - tm"
proof -
  have inv: "routing_inv (rt, sent, clk)" using assms (1,2) by (rule routing.inv_reachable)
  have due: "in_state i = Firing" "\<not> is_silenced now_unix (rt_silences rt) i" "match_route (nc_routes (rt_config rt)) i = Some r"
    "map_of (rt_last_sent rt) (ro_name r, in_fingerprint i) = Some tm' \<Longrightarrow> repeat_window r \<le> mono_elapsed before tm'" for tm'
    using assms (4) by (auto simp: due_route_def split: if_splits option.splits)
  from routing_inv_sent [OF inv assms (5)] consider tm' where "tm \<le> tm'" "map_of (rt_last_sent rt) (ro_name r, in_fingerprint i) = Some tm'"
    | "ONE_DAY_NS \<le> clk - tm" by blast
  then show ?thesis
  proof cases
    case 1
    then have "repeat_window r \<le> mono_elapsed before tm'" "tm' \<le> clk" using due (4) routing_inv_last [OF inv] by blast+
    then show ?thesis using due (1-3) 1 (1) assms (3) by (simp add: mono_elapsed_def)
  next
    case 2
    then show ?thesis using due (1-3) assms (3) by simp
  qed
qed

definition sample_route :: route_config where
  "sample_route = route_config_default\<lparr>ro_name := ''ops'', ro_webhook_url := ''http://sink''\<rparr>"

definition firing_alert :: alert_instance where
  "firing_alert = (new_instance 1 0 7 (sample_rule ''a'') 0 [])\<lparr>in_state := Firing\<rparr>"

definition sample_router :: alert_router where
  "sample_router = router_new (notification_config_default\<lparr>nc_routes := [sample_route]\<rparr>)"

definition FIVE_HOURS :: int where "FIVE_HOURS = 5 * 3600 * 1000000000"

theorem repeat_window_is_honoured_witness:
  "\<exists>rt. routing_step\<^sup>*\<^sup>* (sample_router, [], 0) (rt, [((''ops'', 7), 0)], 0) \<and> due_route 0 FIVE_HOURS firing_alert rt = Some sample_route \<and>
     min (repeat_window sample_route) ONE_DAY_NS \<le> FIVE_HOURS - 0"
proof -
  define rt where "rt = snd (handle_event 0 0 0 True firing_alert sample_router)"
  have due: "due_route 0 0 firing_alert sample_router = Some sample_route" by code_simp
  have k: "(ro_name sample_route, in_fingerprint firing_alert) = (''ops'', 7)" by code_simp
  have "routing_step (sample_router, [], 0) (rt, [((ro_name sample_route, in_fingerprint firing_alert), 0)], 0)"
    by (rule step_attempt [OF due]) (simp_all add: rt_def prod_eq_iff)
  then have run: "routing_step\<^sup>*\<^sup>* (sample_router, [], 0) (rt, [((''ops'', 7), 0)], 0)" unfolding k by simp
  have again: "due_route 0 FIVE_HOURS firing_alert rt = Some sample_route" unfolding rt_def by code_simp
  have "routing_init (sample_router, [], 0)" by (simp add: routing_init_def sample_router_def router_new_def)
  from repeat_window_is_honoured [OF this run _ again, of 0] k
  have "min (repeat_window sample_route) ONE_DAY_NS \<le> FIVE_HOURS - 0" by (simp add: FIVE_HOURS_def)
  then show ?thesis using run again by blast
qed

text \<open>A failed delivery counts like a successful one: the alert is not delivered again before the repeat
  window is over. The severity \<open>page\<close> that the configuration documents is read as the lowest one, so such
  a route takes every alert.\<close>

theorem failed_delivery_is_not_retried:
  "fst (handle_event 0 0 0 False firing_alert sample_router) = None \<and>
   due_route 0 (239 * 60 * 1000000000) firing_alert (snd (handle_event 0 0 0 False firing_alert sample_router)) = None \<and>
   route_matches ((firing_alert)\<lparr>in_severity := Info\<rparr>) (sample_route\<lparr>ro_match_severity := ''page''\<rparr>)"
  by code_simp

end
