(* ===== verification/Float_Text.thy ===== *)
theory Float_Text
  imports Float64
begin

section \<open>Numbers as text, roots and sums\<close>

text \<open>
  More of \<^verbatim>\<open>f64\<close>: reading a decimal literal (\<open>f64::from_str\<close>), printing the shortest digits that read back
  (\<open>Display\<close>), the correctly rounded square root, rounding to an integer, \<open>clamp\<close>, sums and the order
  that \<open>sort_by\<close> with \<open>partial_cmp\<close> gives. Reading and the root round an exact rational.
\<close>

subsection \<open>Reading\<close>

definition is_ascii_digit :: "char \<Rightarrow> bool" where
  "is_ascii_digit c \<longleftrightarrow> 48 \<le> (of_char c :: nat) \<and> (of_char c :: nat) \<le> 57"

fun digits_val :: "int \<Rightarrow> string \<Rightarrow> int" where
  "digits_val acc [] = acc"
| "digits_val acc (c # cs) = digits_val (acc * 10 + (of_char c - 48)) cs"

definition pow10 :: "int \<Rightarrow> rat" where
  "pow10 e = (if 0 \<le> e then 10 ^ nat e else 1 / 10 ^ nat (- e))"

definition ascii_lower :: "char \<Rightarrow> char" where
  "ascii_lower c = (if 65 \<le> (of_char c :: int) \<and> (of_char c :: int) \<le> 90 then char_of (of_char c + 32 :: int) else c)"

definition split_sign :: "string \<Rightarrow> bool \<times> string" where
  "split_sign s = (case s of [] \<Rightarrow> (False, []) | c # cs \<Rightarrow> if c = CHR ''-'' then (True, cs) else if c = CHR ''+'' then (False, cs) else (False, s))"

definition parse_exponent :: "string \<Rightarrow> int option" where
  "parse_exponent s =
     (case s of
        [] \<Rightarrow> Some 0
      | c # cs \<Rightarrow>
          if ascii_lower c = CHR ''e''
          then case split_sign cs of (neg, ds) \<Rightarrow>
                 if ds \<noteq> [] \<and> list_all is_ascii_digit ds then Some (if neg then - digits_val 0 ds else digits_val 0 ds) else None
          else None)"

definition parse_unsigned :: "string \<Rightarrow> rat option" where
  "parse_unsigned s =
     (let whole = takeWhile is_ascii_digit s; r = dropWhile is_ascii_digit s;
          frac = (case r of c # cs \<Rightarrow> if c = CHR ''.'' then takeWhile is_ascii_digit cs else [] | [] \<Rightarrow> []);
          r' = (case r of c # cs \<Rightarrow> if c = CHR ''.'' then dropWhile is_ascii_digit cs else r | [] \<Rightarrow> [])
      in if whole = [] \<and> frac = [] then None
         else map_option (\<lambda>e. of_int (digits_val 0 (whole @ frac)) * pow10 (e - int (length frac))) (parse_exponent r'))"

definition f64_parse :: "string \<Rightarrow> f64 option" where
  "f64_parse s =
     (case split_sign s of (neg, body) \<Rightarrow>
        let word = map ascii_lower body
        in if word = ''inf'' \<or> word = ''infinity'' then Some (f64_make neg INF_MAG)
           else if word = ''nan'' then Some F64_NAN
           else map_option (\<lambda>r. f64_round neg (if neg then - r else r)) (parse_unsigned body))"

subsection \<open>Printing\<close>

function show_pos :: "int \<Rightarrow> string" where
  "show_pos n = (if n \<le> 0 then [] else show_pos (n div 10) @ [char_of (48 + n mod 10)])"
  by auto

termination by (relation "measure nat") auto

declare show_pos.simps [simp del]

definition show_int :: "int \<Rightarrow> string" where
  "show_int n = (if n = 0 then ''0'' else if n < 0 then CHR ''-'' # show_pos (- n) else show_pos n)"

text \<open>The exponent of the first decimal digit.\<close>

definition rat_ilog10 :: "rat \<Rightarrow> int" where
  "rat_ilog10 r =
     (let k = (rat_ilog2 r * 30103) div 100000
      in if pow10 (k + 1) \<le> r then k + 1 else if r < pow10 k then k - 1 else k)"

text \<open>The two decimal numbers of \<open>n\<close> digits around \<open>r\<close>: the nearer one of those that round to the same double.
  Seventeen digits always do.\<close>

definition nearest_digits :: "rat \<Rightarrow> nat \<Rightarrow> (int \<times> int) option" where
  "nearest_digits r n =
     (let e = rat_ilog10 r - int n + 1; q = r / pow10 e; d = \<lfloor>q\<rfloor>;
          ok = (\<lambda>d. round_mag (of_int d * pow10 e) = round_mag r);
          low = ok d; high = ok (d + 1)
      in if low \<and> (\<not> high \<or> q - of_int d \<le> 1 / 2) then Some (d, e)
         else if high then Some (d + 1, e) else None)"

fun shortest_digits :: "rat \<Rightarrow> nat \<Rightarrow> nat \<Rightarrow> int \<times> int" where
  "shortest_digits r n 0 = (\<lfloor>r\<rfloor>, 0)"
| "shortest_digits r n (Suc left) =
     (case nearest_digits r n of Some de \<Rightarrow> de | None \<Rightarrow> shortest_digits r (Suc n) left)"

definition show_decimal :: "int \<Rightarrow> int \<Rightarrow> string" where
  "show_decimal d e =
     (let s = show_int d; p = int (length s) + e
      in if 0 \<le> e then s @ replicate (nat e) (CHR ''0'')
         else if 0 < p then take (nat p) s @ ''.'' @ drop (nat p) s
         else ''0.'' @ replicate (nat (- p)) (CHR ''0'') @ s)"

definition f64_show :: "f64 \<Rightarrow> string" where
  "f64_show x =
     (if f64_is_nan x then ''NaN''
      else (if f64_sign x then ''-'' else []) @
        (if f64_is_inf x then ''inf'' else if f64_mag x = 0 then ''0''
         else case shortest_digits (mag_val (f64_mag x)) 1 17 of (d, e) \<Rightarrow> show_decimal d e))"

subsection \<open>Roots and rounding\<close>

text \<open>The integer part of a square root, bit by bit from bit \<open>i\<close> down.\<close>

primrec isqrt_bits :: "int \<Rightarrow> nat \<Rightarrow> int \<Rightarrow> int" where
  "isqrt_bits n 0 acc = acc"
| "isqrt_bits n (Suc i) acc =
     (let acc' = acc + 2 ^ i in isqrt_bits n i (if acc' * acc' \<le> n then acc' else acc))"

text \<open>The root of a number scaled to about 120 bits has about 60; when it is not exact, a half in the last
  place stands for the rest, which no rounding to 53 bits can tell from it.\<close>

definition f64_sqrt :: "f64 \<Rightarrow> f64" where
  "f64_sqrt x =
     (if f64_is_nan x then F64_NAN
      else if f64_mag x = 0 then x
      else if f64_sign x then F64_NAN
      else if f64_is_inf x then x
      else let r = f64_val x; k = 60 - rat_ilog2 r div 2;
               n = \<lfloor>r * pow2 (2 * k)\<rfloor>; s = isqrt_bits n 64 0
           in f64_round False ((if s * s = n then of_int s else of_int s + 1 / 2) * pow2 (- k)))"

text \<open>\<open>f64::round\<close> rounds half away from zero.\<close>

definition f64_round_int :: "f64 \<Rightarrow> f64" where
  "f64_round_int x =
     (if f64_is_nan x then F64_NAN else if f64_is_inf x then x
      else let r = \<lfloor>\<bar>f64_val x\<bar> + 1 / 2\<rfloor> in f64_round (f64_sign x) (of_int (if f64_sign x then - r else r)))"

definition f64_fract :: "f64 \<Rightarrow> f64" where
  "f64_fract x =
     (if f64_is_nan x \<or> f64_is_inf x then F64_NAN
      else f64_sub x (f64_round (f64_sign x) (of_int (rat_trunc (f64_val x)))))"

definition f64_square :: "f64 \<Rightarrow> f64" where
  "f64_square x = f64_mul x x"

text \<open>\<open>f64::clamp\<close> panics unless \<open>lo <= hi\<close>.\<close>

definition f64_clamp :: "f64 \<Rightarrow> f64 \<Rightarrow> f64 \<Rightarrow> f64 option" where
  "f64_clamp lo hi x =
     (if f64_le lo hi then Some (if f64_lt x lo then lo else if f64_lt hi x then hi else x) else None)"

subsection \<open>Constants and sums\<close>

definition F64_ONE :: f64 where "F64_ONE = 0x3FF0000000000000"
definition F64_NEG_ZERO :: f64 where "F64_NEG_ZERO = 0x8000000000000000"
definition F64_1E9 :: f64 where "F64_1E9 = f64_of_int 1000000000"

text \<open>The sum of an iterator starts at the neutral \<open>-0.0\<close>.\<close>

definition f64_sum :: "f64 list \<Rightarrow> f64" where
  "f64_sum xs = foldl f64_add F64_NEG_ZERO xs"

subsection \<open>Sorting by value\<close>

text \<open>\<open>sort_by\<close> with \<open>partial_cmp\<close>, and equality when there is no order. Without NaN this is a stable sort by the
  value; with one the comparison is not an order, the result is some permutation, which is the
  argument \<open>perm\<close>.\<close>

definition sort_by_value :: "(f64 list \<Rightarrow> nat list) \<Rightarrow> ('a \<Rightarrow> f64) \<Rightarrow> 'a list \<Rightarrow> 'a list" where
  "sort_by_value perm key xs =
     (if list_ex (\<lambda>x. f64_is_nan (key x)) xs then map (\<lambda>i. xs ! i) (perm (map key xs))
      else sort_key (\<lambda>x. f64_key (key x)) xs)"

definition sort_by_value_desc :: "(f64 list \<Rightarrow> nat list) \<Rightarrow> ('a \<Rightarrow> f64) \<Rightarrow> 'a list \<Rightarrow> 'a list" where
  "sort_by_value_desc perm key xs =
     (if list_ex (\<lambda>x. f64_is_nan (key x)) xs then map (\<lambda>i. xs ! i) (perm (map (\<lambda>x. f64_neg (key x)) xs))
      else sort_key (\<lambda>x. - f64_key (key x)) xs)"

end
