(* ===== verification/Query_Ast.thy ===== *)
theory Query_Ast
  imports Float_Text Labels
begin

section \<open>Label matchers, expressions and plans\<close>

text \<open>
  The data of metric queries: the label matchers of \<^verbatim>\<open>parqtel-query/src/matcher.rs\<close>, the expression tree and the
  histogram samples of \<^verbatim>\<open>ast.rs\<close>, and the validated plan of \<^verbatim>\<open>plan.rs\<close>.

  A label set is the list of its entries, in the order of the keys: the address of its storage, which only
  speeds up comparisons, does not matter here. The regular expression engine is a record of functions on
  the text of the pattern.
\<close>

subsection \<open>Label sets as entries\<close>

definition lbl :: "entries \<Rightarrow> label_set" where
  "lbl es = from_sorted_unique 0 es"

definition lbl_get :: "entries \<Rightarrow> string \<Rightarrow> string option" where
  "lbl_get es k = ls_get (lbl es) k"

definition lbl_merge :: "entries \<Rightarrow> entries \<Rightarrow> entries" where
  "lbl_merge es fs = ls_entries (ls_merge 0 (lbl es) (lbl fs))"

definition lbl_filtered :: "(string \<Rightarrow> string \<Rightarrow> bool) \<Rightarrow> entries \<Rightarrow> entries" where
  "lbl_filtered keep es = ls_entries (ls_filtered 0 keep (lbl es))"

definition lbl_with :: "entries \<Rightarrow> string \<Rightarrow> string \<Rightarrow> entries" where
  "lbl_with es k v = ls_entries (ls_with 0 (lbl es) k v)"

definition lbl_fingerprint :: "entries \<Rightarrow> u64" where
  "lbl_fingerprint es = fingerprint (lbl es)"

text \<open>\<open>LabelSet::try_from_iter(...).unwrap_or_default()\<close>.\<close>

definition lbl_from_or_default :: "entries \<Rightarrow> entries" where
  "lbl_from_or_default es = (case try_from_iter 0 es of Inl _ \<Rightarrow> [] | Inr s \<Rightarrow> ls_entries s)"

lemma lbl_get_map: "strict_keys es \<Longrightarrow> lbl_get es k = map_of es k"
  using ls_get_map [of "lbl es" k] by (simp add: lbl_get_def lbl_def wf_labels_def labels_map_def)

lemma lbl_filtered_eq: "lbl_filtered keep es = filter (\<lambda>e. keep (fst e) (snd e)) es"
  by (auto simp: lbl_filtered_def ls_filtered_def lbl_def Let_def) (metis filter_id_conv length_filter_less less_irrefl_nat)

lemma lbl_filtered_cong: "(\<And>k v. keep k v = keep' k v) \<Longrightarrow> lbl_filtered keep es = lbl_filtered keep' es"
  by (simp add: lbl_filtered_eq)

subsection \<open>Matchers\<close>

datatype match_op = MEqual | MNotEqual | MRegexMatch | MRegexNotMatch

record label_matcher =
  lm_name :: string
  lm_op :: match_op
  lm_value :: string
  lm_regex :: "string option"

text \<open>What the sources use of the regular expressions: whether a pattern compiles, whether it matches a text, the
  groups of its first match and the text with that match replaced.\<close>

record regex_api =
  rx_ok :: "string \<Rightarrow> bool"
  rx_is_match :: "string \<Rightarrow> string \<Rightarrow> bool"
  rx_captures :: "string \<Rightarrow> string \<Rightarrow> string option list option"
  rx_replace :: "string \<Rightarrow> string \<Rightarrow> string \<Rightarrow> string"

definition matcher_equal :: "string \<Rightarrow> string \<Rightarrow> label_matcher" where
  "matcher_equal name value = \<lparr>lm_name = name, lm_op = MEqual, lm_value = value, lm_regex = None\<rparr>"

text \<open>Errors carry the message up to the text of the offending value.\<close>

definition matcher_new :: "regex_api \<Rightarrow> string \<Rightarrow> match_op \<Rightarrow> string \<Rightarrow> label_matcher result" where
  "matcher_new rx name op value =
     (if op \<in> {MRegexMatch, MRegexNotMatch}
      then if rx_ok rx value
           then Inr \<lparr>lm_name = name, lm_op = op, lm_value = value, lm_regex = Some value\<rparr>
           else Inl (Validation (''Invalid regex '' @ value))
      else Inr \<lparr>lm_name = name, lm_op = op, lm_value = value, lm_regex = None\<rparr>)"

definition matcher_matches :: "regex_api \<Rightarrow> label_matcher \<Rightarrow> string option \<Rightarrow> bool" where
  "matcher_matches rx m label_value =
     (let val = (case label_value of None \<Rightarrow> [] | Some v \<Rightarrow> v)
      in case lm_op m of
           MEqual \<Rightarrow> val = lm_value m
         | MNotEqual \<Rightarrow> val \<noteq> lm_value m
         | MRegexMatch \<Rightarrow> (case lm_regex m of None \<Rightarrow> False | Some re \<Rightarrow> rx_is_match rx re val)
         | MRegexNotMatch \<Rightarrow> (case lm_regex m of None \<Rightarrow> False | Some re \<Rightarrow> \<not> rx_is_match rx re val))"

fun evaluate_matchers :: "regex_api \<Rightarrow> label_matcher list \<Rightarrow> entries \<Rightarrow> string \<Rightarrow> bool" where
  "evaluate_matchers rx [] labels metric_name = True"
| "evaluate_matchers rx (m # ms) labels metric_name =
     (let val = (if lm_name m = ''__name__'' then Some metric_name else lbl_get labels (lm_name m))
      in if \<not> matcher_matches rx m val then False else evaluate_matchers rx ms labels metric_name)"

subsection \<open>Expressions\<close>

datatype agg_op =
    ASum | AAvg | AMin | AMax | ACount | AStddev | AStdvar | ACountValues | ATopK | ABottomK | AQuantile | AGroup

datatype grouping = GNone | GBy "string list" | GWithout "string list"

datatype binary_op =
    OAdd | OSub | OMul | ODiv | OMod | OPow | OEq | ONe | OGt | OLt | OGe | OLe | OAnd | OOr | OUnless

definition is_comparison :: "binary_op \<Rightarrow> bool" where
  "is_comparison op \<longleftrightarrow> op \<in> {OEq, ONe, OGt, OLt, OGe, OLe}"

datatype vector_match = VAll | VOn "string list" | VIgnoring "string list"

datatype match_cardinality = OneToOne | ManyToOne "string list" | OneToMany "string list"

record selector_expr =
  se_metric_name :: "string option"
  se_matchers :: "label_matcher list"

datatype expr =
    Selector selector_expr
  | Number f64
  | Str string
  | Call string "expr list"
  | Aggregation agg_op grouping "expr option" expr
  | Range expr i64 "i64 option" i64
  | Binary binary_op expr expr "(vector_match \<times> match_cardinality) option" bool
  | Paren expr

subsection \<open>Samples\<close>

record sample =
  sa_timestamp_ns :: i64
  sa_value :: f64

record time_series =
  ts_labels :: entries
  ts_samples :: "sample list"

definition timestamp_seconds :: "sample \<Rightarrow> f64" where
  "timestamp_seconds s = f64_div (f64_of_int (sa_timestamp_ns s)) F64_1E9"

type_synonym instant_vector = "(entries \<times> f64) list"
type_synonym range_vector = "(entries \<times> sample list) list"

definition iv_get :: "instant_vector \<Rightarrow> entries \<Rightarrow> f64 option" where
  "iv_get iv labels = map_option snd (List.find (\<lambda>s. fst s = labels) iv)"

record eval_context =
  cx_ts_ns :: i64
  cx_range_ns :: i64
  cx_offset_ns :: i64
  cx_subquery_step_ns :: "i64 option"

type_synonym series_data = "(string \<times> (entries \<times> (i64 \<times> f64) list) list) list"

record hist_sample =
  hs_timestamp_ns :: i64
  hs_count :: u64
  hs_sum :: f64
  hs_boundaries :: "f64 list"
  hs_counts :: "u64 list"

type_synonym hist_data = "(string \<times> (entries \<times> hist_sample list) list) list"

definition f64_of_u64 :: "u64 \<Rightarrow> f64" where
  "f64_of_u64 w = f64_of_int (uint w)"

text \<open>The counts that are not there are zero.\<close>

definition count_of :: "u64 list \<Rightarrow> f64" where
  "count_of counts = f64_of_u64 (case counts of [] \<Rightarrow> 0 | c # _ \<Rightarrow> c)"

fun quantile_loop :: "f64 \<Rightarrow> f64 \<Rightarrow> f64 \<Rightarrow> f64 list \<Rightarrow> u64 list \<Rightarrow> f64 option" where
  "quantile_loop target prev_count prev_bound [] counts = None"
| "quantile_loop target prev_count prev_bound (bound # bounds) counts =
     (let c = count_of counts
      in if f64_le target (f64_add prev_count c)
         then Some (if f64_le c 0 then bound
                    else f64_add prev_bound (f64_mul (f64_sub bound prev_bound) (f64_div (f64_sub target prev_count) c)))
         else quantile_loop target (f64_add prev_count c) bound bounds (tl counts))"

definition hist_quantile :: "hist_sample \<Rightarrow> f64 \<Rightarrow> f64" where
  "hist_quantile h q =
     (let size = f64_of_u64 (hs_count h)
      in if f64_le size 0 \<or> \<not> (f64_le 0 q \<and> f64_le q F64_ONE) then F64_NAN
         else case quantile_loop (f64_mul q size) 0 0 (hs_boundaries h) (hs_counts h) of
                Some v \<Rightarrow> v
              | None \<Rightarrow> if hs_boundaries h = [] then F64_INFINITY else last (hs_boundaries h))"

fun below_loop :: "f64 \<Rightarrow> f64 \<Rightarrow> f64 \<Rightarrow> f64 list \<Rightarrow> u64 list \<Rightarrow> f64" where
  "below_loop v acc prev_bound [] counts = acc"
| "below_loop v acc prev_bound (bound # bounds) counts =
     (let c = count_of counts
      in if f64_le v prev_bound then acc
         else if f64_le bound v then below_loop v (f64_add acc c) bound bounds (tl counts)
         else f64_add acc
                (f64_mul c (if f64_lt prev_bound bound
                            then f64_div (f64_sub v prev_bound) (f64_sub bound prev_bound) else 0)))"

definition hist_fraction :: "hist_sample \<Rightarrow> f64 \<Rightarrow> f64 \<Rightarrow> f64" where
  "hist_fraction h lower upper =
     (let size = f64_of_u64 (hs_count h);
          below = (\<lambda>v. f64_min (below_loop v 0 0 (hs_boundaries h) (hs_counts h)) size)
      in if f64_le size 0 then F64_NAN
         else f64_div (f64_max (f64_sub (below upper) (below lower)) 0) size)"

text \<open>The finite buckets that are not empty, as counts and midpoints.\<close>

fun bucket_midpoints :: "f64 \<Rightarrow> f64 list \<Rightarrow> u64 list \<Rightarrow> (f64 \<times> f64) list" where
  "bucket_midpoints prev_bound [] counts = []"
| "bucket_midpoints prev_bound (bound # bounds) counts =
     (let c = count_of counts
      in (if f64_lt 0 c \<and> f64_finite bound then [(c, f64_div (f64_add prev_bound bound) (f64_of_int 2))] else []) @
         bucket_midpoints bound bounds (tl counts))"

definition hist_variance :: "hist_sample \<Rightarrow> f64" where
  "hist_variance h =
     (let ms = bucket_midpoints 0 (hs_boundaries h) (hs_counts h);
          weight_sum = foldl (\<lambda>acc (c, mid). f64_add acc c) 0 ms;
          mean = foldl (\<lambda>acc (c, mid). f64_add acc (f64_mul c mid)) 0 ms;
          mu = f64_div mean weight_sum;
          var = foldl (\<lambda>acc (c, mid). f64_add acc (f64_mul c (f64_square (f64_sub mid mu)))) 0 ms
      in if f64_le weight_sum 0 then F64_NAN else f64_div var weight_sum)"

subsection \<open>Plans\<close>

datatype plan_op =
    PAvg | PSum | PMin | PMax | PCount | PStddev | PStdvar | PRate | PIrate | PIncrease | PDelta | PHistogramQuantile
  | PAbs | PCeil | PFloor | PRound | PClampMin | PClampMax | PTopK | PBottomK | PLabelReplace

record query_plan =
  qp_metric_name :: string
  qp_matchers :: "label_matcher list"
  qp_start_ns :: i64
  qp_end_ns :: i64
  qp_step_ns :: "i64 option"
  qp_max_series :: nat
  qp_max_samples_per_series :: nat
  qp_aggregation :: "plan_op option"
  qp_quantile :: "f64 option"
  qp_topk_n :: "nat option"
  qp_group_by :: "string list"
  qp_group_without :: "string list"
  qp_label_replace :: "(string \<times> string \<times> string \<times> string) option"
  qp_scalar_param :: "f64 option"
  qp_clamp :: "(f64 option \<times> f64 option) option"
  qp_range_ns :: "i64 option"

definition THIRTY_DAYS_NS :: i64 where
  "THIRTY_DAYS_NS = 30 * 24 * 3600 * 1000000000"

text \<open>The arguments of the constructor are the fields of the record.\<close>

definition plan_new_full :: "query_plan \<Rightarrow> query_plan result" where
  "plan_new_full p =
     (if qp_metric_name p = [] then Inl (Validation ''Metric name cannot be empty'')
      else if qp_start_ns p \<ge> qp_end_ns p then Inl (Validation ''Start time must be before end time'')
      else if (case qp_step_ns p of Some step \<Rightarrow> step \<le> 0 | None \<Rightarrow> False)
           then Inl (Validation ''Step size must be greater than zero'')
      else if wrap_i64 (qp_end_ns p - qp_start_ns p) > THIRTY_DAYS_NS
           then Inl (Validation ''Time range cannot span more than 30 days'')
      else if (case qp_quantile p of Some q \<Rightarrow> f64_le q 0 \<or> f64_le F64_ONE q | None \<Rightarrow> False)
           then Inl (Validation ''Quantile must be in the open interval (0, 1)'')
      else Inr p)"

definition plan_new ::
  "string \<Rightarrow> label_matcher list \<Rightarrow> i64 \<Rightarrow> i64 \<Rightarrow> i64 option \<Rightarrow> nat \<Rightarrow> nat \<Rightarrow> plan_op option \<Rightarrow> f64 option \<Rightarrow> query_plan result" where
  "plan_new metric_name matchers start_ns end_ns step_ns max_series max_samples aggregation quantile =
     plan_new_full \<lparr>qp_metric_name = metric_name, qp_matchers = matchers, qp_start_ns = start_ns, qp_end_ns = end_ns,
       qp_step_ns = step_ns, qp_max_series = max_series, qp_max_samples_per_series = max_samples,
       qp_aggregation = aggregation, qp_quantile = quantile, qp_topk_n = None, qp_group_by = [], qp_group_without = [],
       qp_label_replace = None, qp_scalar_param = None, qp_clamp = None, qp_range_ns = None\<rparr>"

subsection \<open>What the matchers and plans promise\<close>

lemma evaluate_matchers_all:
  "evaluate_matchers rx ms labels name \<longleftrightarrow>
     list_all (\<lambda>m. matcher_matches rx m (if lm_name m = ''__name__'' then Some name else lbl_get labels (lm_name m))) ms"
  by (induction ms) (auto simp: Let_def)

text \<open>C18: A plan is accepted only with a name, a start before its end and a positive step, and as long as the
  difference of its bounds fits into 64 bits it spans at most thirty days. Beyond that the
  difference wraps around and the limit does not hold: a plan over all of time is accepted.\<close>

theorem plan_span_bounded:
  assumes "plan_new_full p = Inr p'"
  shows "p' = p \<and> qp_metric_name p \<noteq> [] \<and> qp_start_ns p < qp_end_ns p \<and> (\<forall>step. qp_step_ns p = Some step \<longrightarrow> 0 < step) \<and>
    (- (2 ^ 63) \<le> qp_start_ns p \<and> qp_end_ns p - qp_start_ns p < 2 ^ 63 \<longrightarrow> qp_end_ns p - qp_start_ns p \<le> THIRTY_DAYS_NS) \<and>
    (\<exists>everything. plan_new ''up'' [] (- (2 ^ 63)) (2 ^ 63 - 1) None 1 1 None None = Inr everything)"
proof -
  have "\<exists>everything. plan_new ''up'' [] (- (2 ^ 63)) (2 ^ 63 - 1) None 1 1 None None = Inr everything"
    by (simp add: plan_new_def plan_new_full_def wrap_i64_def THIRTY_DAYS_NS_def)
  moreover have "qp_end_ns p - qp_start_ns p \<le> THIRTY_DAYS_NS" if "qp_end_ns p - qp_start_ns p < 2 ^ 63"
    using assms that wrap_i64_id [of "qp_end_ns p - qp_start_ns p"]
    by (auto simp: plan_new_full_def split: if_splits option.splits)
  ultimately show ?thesis
    using assms by (auto simp: plan_new_full_def split: if_splits option.splits)
qed

theorem plan_span_bounded_witness:
  "\<exists>p. plan_new ''up'' [] 0 60000000000 (Some 15000000000) 100 1000 (Some PRate) None = Inr p \<and>
     qp_end_ns p - qp_start_ns p \<le> THIRTY_DAYS_NS"
proof -
  define p where "p = \<lparr>qp_metric_name = ''up'', qp_matchers = [], qp_start_ns = 0, qp_end_ns = 60000000000,
       qp_step_ns = Some 15000000000, qp_max_series = 100, qp_max_samples_per_series = 1000,
       qp_aggregation = Some PRate, qp_quantile = None, qp_topk_n = None, qp_group_by = [], qp_group_without = [],
       qp_label_replace = None, qp_scalar_param = None, qp_clamp = None, qp_range_ns = None\<rparr>"
  have e: "plan_new_full p = Inr p" by (simp add: p_def plan_new_full_def wrap_i64_def THIRTY_DAYS_NS_def)
  moreover have "plan_new ''up'' [] 0 60000000000 (Some 15000000000) 100 1000 (Some PRate) None = plan_new_full p"
    by (simp add: plan_new_def p_def)
  ultimately show ?thesis using plan_span_bounded [OF e] by (simp add: p_def)
qed

end
