(* ===== verification/Query_Text.thy ===== *)
theory Query_Text
  imports Query_Ast Block_Index
begin

section \<open>Selectors, durations and single-function queries\<close>

text \<open>
  The text side of \<^verbatim>\<open>parqtel-query/src/matcher.rs\<close>: \<open>parse_selector\<close>, \<open>parse_duration_str\<close> and \<open>parse_query\<close>, which splits a query
  of one function around a selector with string operations. The alert loop reads its rules with it.

  Slicing a string outside of its bounds panics; \<open>Panic\<close> is that outcome. \<open>trim\<close> removes the white space of ASCII.
  Messages that quote the query in debug format keep their fixed part only.
\<close>

datatype query_error = Fail error | Panic

type_synonym 'a qresult = "query_error + 'a"

definition qbind :: "'a qresult \<Rightarrow> ('a \<Rightarrow> 'b qresult) \<Rightarrow> 'b qresult" where
  "qbind r f = (case r of Inl e \<Rightarrow> Inl e | Inr x \<Rightarrow> f x)"

lemma qbind_simps [simp]: "qbind (Inl e) f = Inl e" "qbind (Inr x) f = f x"
  by (simp_all add: qbind_def)

abbreviation invalid :: "string \<Rightarrow> 'a qresult" where
  "invalid msg \<equiv> Inl (Fail (Validation msg))"

subsection \<open>Strings\<close>

definition is_space :: "char \<Rightarrow> bool" where
  "is_space c \<longleftrightarrow> (of_char c :: nat) \<in> {9, 10, 11, 12, 13, 32}"

definition trim_start :: "string \<Rightarrow> string" where
  "trim_start s = dropWhile is_space s"

definition trim_end :: "string \<Rightarrow> string" where
  "trim_end s = rev (dropWhile is_space (rev s))"

definition trim :: "string \<Rightarrow> string" where
  "trim s = trim_end (trim_start s)"

definition ends_with :: "string \<Rightarrow> string \<Rightarrow> bool" where
  "ends_with s suf \<longleftrightarrow> length suf \<le> length s \<and> drop (length s - length suf) s = suf"

fun find_str :: "string \<Rightarrow> string \<Rightarrow> nat option" where
  "find_str pat [] = (if pat = [] then Some 0 else None)"
| "find_str pat (c # cs) = (if take (length pat) (c # cs) = pat then Some 0 else map_option Suc (find_str pat cs))"

definition find_char :: "char \<Rightarrow> string \<Rightarrow> nat option" where
  "find_char c s = find_str [c] s"

definition rfind_char :: "char \<Rightarrow> string \<Rightarrow> nat option" where
  "rfind_char c s = map_option (\<lambda>i. length s - 1 - i) (find_char c (rev s))"

definition contains_str :: "string \<Rightarrow> string \<Rightarrow> bool" where
  "contains_str pat s \<longleftrightarrow> find_str pat s \<noteq> None"

definition CH_QUOTE :: char where "CH_QUOTE = CHR 0x22"
definition CH_TICK :: char where "CH_TICK = CHR 0x27"

text \<open>\<open>&s[1..s.len() - 1]\<close>: the range is out of order when only one byte is there.\<close>

definition slice_inner :: "string \<Rightarrow> string qresult" where
  "slice_inner s = (if length s < 2 then Inl Panic else Inr (butlast (tl s)))"

subsection \<open>Selectors\<close>

definition matcher_operator :: "string \<Rightarrow> (match_op \<times> nat) option" where
  "matcher_operator part =
     (case find_str ''=~'' part of
        Some i \<Rightarrow> Some (MRegexMatch, i)
      | None \<Rightarrow>
          (case find_str ''!~'' part of
             Some i \<Rightarrow> Some (MRegexNotMatch, i)
           | None \<Rightarrow>
               (case find_str ''!='' part of
                  Some i \<Rightarrow> Some (MNotEqual, i)
                | None \<Rightarrow> map_option (Pair MEqual) (find_char (CHR ''='') part))))"

definition parse_matcher :: "regex_api \<Rightarrow> string \<Rightarrow> label_matcher qresult" where
  "parse_matcher rx part =
     (case matcher_operator part of
        None \<Rightarrow> invalid (''Invalid label matcher: '' @ part)
      | Some (op, i) \<Rightarrow>
          (let name = trim (take i part);
               value = trim (drop (i + (if op = MEqual then 1 else 2)) part)
           in qbind (if starts_with value [CH_QUOTE] \<and> ends_with value [CH_QUOTE] then slice_inner value else Inr value)
                (\<lambda>v. case matcher_new rx name op v of Inl e \<Rightarrow> Inl (Fail e) | Inr m \<Rightarrow> Inr m)))"

fun parse_matchers :: "regex_api \<Rightarrow> string list \<Rightarrow> label_matcher list qresult" where
  "parse_matchers rx [] = Inr []"
| "parse_matchers rx (p # ps) =
     (let part = trim p
      in if part = [] then parse_matchers rx ps
         else qbind (parse_matcher rx part) (\<lambda>m. qbind (parse_matchers rx ps) (\<lambda>ms. Inr (m # ms))))"

definition parse_selector :: "regex_api \<Rightarrow> string \<Rightarrow> (string option \<times> label_matcher list) qresult" where
  "parse_selector rx text_in =
     (let selector = trim text_in
      in if selector = [] then invalid ''Empty selector''
         else case find_char (CHR ''{'') selector of
                Some start \<Rightarrow>
                  if \<not> ends_with selector ''}'' then invalid ''Selector missing closing brace''
                  else let name = trim (take start selector);
                           labels = butlast (drop (start + 1) selector)
                       in qbind (if labels = [] then Inr [] else parse_matchers rx (split_on (CHR '','') labels))
                            (\<lambda>ms. Inr (if name = [] then None else Some name, ms))
              | None \<Rightarrow> Inr (Some selector, []))"

subsection \<open>Durations\<close>

definition UNITS :: "(string \<times> i64) list" where
  "UNITS = [(''ms'', 1000000), (''s'', 1000000000), (''m'', 60000000000), (''h'', 3600000000000),
            (''d'', 86400000000000), (''w'', 604800000000000)]"

definition checked_i64 :: "int \<Rightarrow> i64 option" where
  "checked_i64 x = (if - (2 ^ 63) \<le> x \<and> x < 2 ^ 63 then Some x else None)"

text \<open>One round of the loop: the digits, then the first unit that follows them. Nothing but digits has no unit.\<close>

definition next_unit :: "string \<Rightarrow> (string \<times> string \<times> i64) option" where
  "next_unit rest =
     (let num = takeWhile is_ascii_digit rest; tail = dropWhile is_ascii_digit rest
      in if tail = [] then None
         else map_option (\<lambda>(suf, unit_ns). (num, drop (length suf) tail, unit_ns))
                (List.find (\<lambda>(suf, unit_ns). starts_with tail suf) UNITS))"

function duration_loop :: "i64 \<Rightarrow> string \<Rightarrow> i64 qresult" where
  "duration_loop acc rest =
     (if rest = [] then Inr acc
      else case next_unit rest of
             None \<Rightarrow> invalid ''invalid duration''
           | Some (num, rest', unit_ns) \<Rightarrow>
               (case parse_i64 num of
                  None \<Rightarrow> invalid ''invalid duration''
                | Some n \<Rightarrow>
                    (case Option.bind (checked_i64 (n * unit_ns)) (\<lambda>x. checked_i64 (acc + x)) of
                       None \<Rightarrow> invalid ''duration overflows''
                     | Some acc' \<Rightarrow> duration_loop acc' rest')))"
  by pat_completeness auto

lemma next_unit_shorter: "next_unit rest = Some (num, rest', unit_ns) \<Longrightarrow> length rest' < length rest"
proof -
  assume a: "next_unit rest = Some (num, rest', unit_ns)"
  define tail where "tail = dropWhile is_ascii_digit rest"
  from a obtain suf where s: "List.find (\<lambda>(suf, unit_ns). starts_with tail suf) UNITS = Some (suf, unit_ns)"
    "rest' = drop (length suf) tail" "tail \<noteq> []"
    by (auto simp: next_unit_def Let_def tail_def split: if_splits)
  then have "(suf, unit_ns) \<in> set UNITS" by (auto simp: find_Some_iff in_set_conv_nth)
  then have "0 < length suf" by (auto simp: UNITS_def)
  then have "length rest' < length tail" using s (2,3) by (simp add: diff_less)
  also have "length tail \<le> length rest" by (simp add: tail_def length_dropWhile_le)
  finally show ?thesis .
qed

termination duration_loop
  by (relation "measure (\<lambda>(acc, rest). length rest)") (auto dest: next_unit_shorter)

declare duration_loop.simps [simp del]

text \<open>Bare seconds are multiplied without a check.\<close>

definition parse_duration_str :: "string \<Rightarrow> i64 qresult" where
  "parse_duration_str s =
     (if s = [] then invalid ''empty range selector''
      else case parse_i64 s of
             Some secs \<Rightarrow> Inr (wrap_i64 (secs * 1000000000))
           | None \<Rightarrow> duration_loop 0 s)"

subsection \<open>Pieces of a query\<close>

definition strip_fn :: "string \<Rightarrow> string \<Rightarrow> string option" where
  "strip_fn fname query =
     (if starts_with query (fname @ ''('') \<and> ends_with query '')''
      then Some (butlast (drop (length fname + 1) query)) else None)"

definition split_range :: "string \<Rightarrow> (string \<times> i64 option) qresult" where
  "split_range s =
     (case rfind_char (CHR ''['') s of
        None \<Rightarrow> Inr (trim s, None)
      | Some idx \<Rightarrow>
          (case strip_suffix '']'' (drop (idx + 1) s) of
             None \<Rightarrow> invalid ''unterminated range selector''
           | Some dur \<Rightarrow> qbind (parse_duration_str dur) (\<lambda>ns. Inr (trim (take idx s), Some ns))))"

definition split_first_arg :: "string \<Rightarrow> (string \<times> string) qresult" where
  "split_first_arg s =
     (case find_char (CHR '','') s of
        None \<Rightarrow> invalid ''Expected comma-separated arguments''
      | Some i \<Rightarrow> Inr (take i s, drop (i + 1) s))"

definition split_first_selector :: "string \<Rightarrow> (string \<times> string) qresult" where
  "split_first_selector s =
     (case (case find_char (CHR ''}'') s of Some brace \<Rightarrow> Some (brace + 1) | None \<Rightarrow> find_char (CHR '','') s) of
        None \<Rightarrow> invalid ''Expected two comma-separated arguments''
      | Some after_sel \<Rightarrow>
          (case find_char (CHR '','') (drop after_sel s) of
             None \<Rightarrow> invalid ''Expected comma after selector''
           | Some i \<Rightarrow> Inr (take (after_sel + i) s, trim (drop (after_sel + i + 1) s))))"

text \<open>\<open>arg\<close> is the argument so far, reversed.\<close>

fun split_args_loop :: "nat \<Rightarrow> string \<Rightarrow> string \<Rightarrow> string list" where
  "split_args_loop depth arg [] = [trim (rev arg)]"
| "split_args_loop depth arg (c # cs) =
     (if c \<in> {CHR ''('', CHR ''{'', CHR ''[''} then split_args_loop (depth + 1) (c # arg) cs
      else if c \<in> {CHR '')'', CHR ''}'', CHR '']''} then split_args_loop (depth - 1) (c # arg) cs
      else if c = CHR '','' \<and> depth = 0 then trim (rev arg) # split_args_loop depth [] cs
      else split_args_loop depth (c # arg) cs)"

definition split_args :: "string \<Rightarrow> string list" where
  "split_args s = split_args_loop 0 [] s"

definition unquote :: "string \<Rightarrow> string qresult" where
  "unquote s =
     (if starts_with s [CH_QUOTE] \<and> ends_with s [CH_QUOTE] \<or> starts_with s [CH_TICK] \<and> ends_with s [CH_TICK]
      then slice_inner s else Inr s)"

definition split_label_list :: "string \<Rightarrow> string list" where
  "split_label_list s = filter (\<lambda>l. l \<noteq> []) (map trim (split_on (CHR '','') s))"

definition grouping_labels :: "string \<Rightarrow> string list" where
  "grouping_labels labels_str =
     split_label_list (take (case find_char (CHR '')'') labels_str of Some i \<Rightarrow> i | None \<Rightarrow> length labels_str) labels_str)"

definition parse_selector_with_grouping :: "string \<Rightarrow> string \<times> string list \<times> string list" where
  "parse_selector_with_grouping inner =
     (case find_str '' by ('' inner of
        Some i \<Rightarrow> (trim (take i inner), grouping_labels (drop (i + 5) inner), [])
      | None \<Rightarrow>
          (case find_str '' without ('' inner of
             Some i \<Rightarrow> (trim (take i inner), [], grouping_labels (drop (i + 10) inner))
           | None \<Rightarrow> (inner, [], [])))"

text \<open>The slice behind the keyword panics when the query is too short, which happens when \<open>without\<close> only
  appears later in a query that starts with \<open>by\<close>.\<close>

definition parse_leading_grouping :: "string \<Rightarrow> string \<Rightarrow> (string list \<times> bool \<times> string) qresult" where
  "parse_leading_grouping query fname =
     (let is_without = contains_str '' without ('' query;
          keyword = (if is_without then '' without ('' else '' by ('');
          skip_prefix = length fname + length keyword
      in if length query < skip_prefix then Inl Panic
         else let rest = drop skip_prefix query
              in case find_char (CHR '')'') rest of
                   None \<Rightarrow> invalid ''Missing closing ) in grouping clause''
                 | Some close \<Rightarrow> Inr (split_label_list (take close rest), is_without, trim (drop (close + 1) rest)))"

subsection \<open>Queries\<close>

record parsed_query =
  pq_metric_name :: string
  pq_matchers :: "label_matcher list"
  pq_aggregation :: "plan_op option"
  pq_quantile :: "f64 option"
  pq_topk_n :: "nat option"
  pq_by :: "string list"
  pq_without :: "string list"
  pq_label_replace :: "(string \<times> string \<times> string \<times> string) option"
  pq_scalar_param :: "f64 option"
  pq_clamp :: "(f64 option \<times> f64 option) option"
  pq_range_ns :: "i64 option"

definition plain_query :: "string option \<times> label_matcher list \<Rightarrow> plan_op option \<Rightarrow> parsed_query" where
  "plain_query nm op =
     \<lparr>pq_metric_name = (case fst nm of None \<Rightarrow> [] | Some n \<Rightarrow> n), pq_matchers = snd nm, pq_aggregation = op, pq_quantile = None,
      pq_topk_n = None, pq_by = [], pq_without = [], pq_label_replace = None, pq_scalar_param = None, pq_clamp = None,
      pq_range_ns = None\<rparr>"

definition parse_number :: "string \<Rightarrow> string \<Rightarrow> f64 qresult" where
  "parse_number msg s = (case f64_parse (trim s) of None \<Rightarrow> invalid msg | Some x \<Rightarrow> Inr x)"

text \<open>\<open>usize::from_str\<close>: an optional plus sign and decimal digits.\<close>

definition parse_usize :: "string \<Rightarrow> nat option" where
  "parse_usize s =
     (let ds = (case s of c # cs \<Rightarrow> if c = CHR ''+'' then cs else s | [] \<Rightarrow> [])
      in if ds = [] then None
         else case parse_int_digits 0 ds of None \<Rightarrow> None | Some n \<Rightarrow> if n < 2 ^ 64 then Some n else None)"

definition parse_ranked :: "regex_api \<Rightarrow> string \<Rightarrow> plan_op \<Rightarrow> string \<Rightarrow> parsed_query qresult" where
  "parse_ranked rx fname op inner =
     qbind (split_first_arg inner) (\<lambda>(head, tail).
       case parse_usize (trim head) of
         None \<Rightarrow> invalid (fname @ '' N must be a positive integer'')
       | Some n \<Rightarrow>
           (case parse_selector_with_grouping (trim tail) of (selector, by_labels, without_labels) \<Rightarrow>
              qbind (parse_selector rx selector) (\<lambda>nm.
                Inr ((plain_query nm (Some op))\<lparr>pq_topk_n := Some n, pq_by := by_labels, pq_without := without_labels\<rparr>))))"

definition parse_label_replace :: "regex_api \<Rightarrow> string \<Rightarrow> parsed_query qresult" where
  "parse_label_replace rx inner =
     (case split_args inner of
        [a0, a1, a2, a3, a4] \<Rightarrow>
          qbind (parse_selector rx (trim a0)) (\<lambda>nm.
          qbind (unquote (trim a1)) (\<lambda>dst. qbind (unquote (trim a2)) (\<lambda>repl.
          qbind (unquote (trim a3)) (\<lambda>src. qbind (unquote (trim a4)) (\<lambda>regex.
            Inr ((plain_query nm (Some PLabelReplace))\<lparr>pq_label_replace := Some (dst, repl, src, regex)\<rparr>))))))
      | _ \<Rightarrow> invalid ''label_replace requires 5 arguments'')"

definition parse_clamp :: "regex_api \<Rightarrow> string \<Rightarrow> plan_op \<Rightarrow> (f64 \<Rightarrow> f64 option \<times> f64 option) \<Rightarrow> string \<Rightarrow> parsed_query qresult" where
  "parse_clamp rx msg op bound inner =
     qbind (split_first_selector inner) (\<lambda>(selector, tail).
     qbind (parse_number msg tail) (\<lambda>x.
     qbind (parse_selector rx selector) (\<lambda>nm. Inr ((plain_query nm (Some op))\<lparr>pq_clamp := Some (bound x)\<rparr>))))"

definition parse_round :: "regex_api \<Rightarrow> string \<Rightarrow> parsed_query qresult" where
  "parse_round rx inner =
     qbind (if contains_str '','' inner
            then qbind (split_first_selector inner) (\<lambda>(sel, tail).
                 qbind (parse_number ''round: invalid to_nearest value'' tail) (\<lambda>s. Inr (sel, Some s)))
            else Inr (inner, None))
       (\<lambda>(selector, scalar).
          qbind (parse_selector rx (trim selector)) (\<lambda>nm. Inr ((plain_query nm (Some PRound))\<lparr>pq_scalar_param := scalar\<rparr>)))"

definition parse_range_fn :: "regex_api \<Rightarrow> plan_op \<Rightarrow> string \<Rightarrow> parsed_query qresult" where
  "parse_range_fn rx op inner =
     qbind (split_range inner) (\<lambda>(sel, range).
     qbind (parse_selector rx sel) (\<lambda>nm. Inr ((plain_query nm (Some op))\<lparr>pq_range_ns := range\<rparr>)))"

definition has_range_suffix :: "string \<Rightarrow> bool" where
  "has_range_suffix inner \<longleftrightarrow>
     (case rfind_char (CHR ''['') inner of None \<Rightarrow> False | Some idx \<Rightarrow> ends_with (trim_end (drop idx inner)) '']'')"

definition parse_agg_call :: "regex_api \<Rightarrow> string \<Rightarrow> plan_op \<Rightarrow> string \<Rightarrow> parsed_query qresult" where
  "parse_agg_call rx fname op inner =
     (if has_range_suffix inner then invalid (fname @ ''() does not accept a range selector'')
      else case parse_selector_with_grouping inner of (selector, by_labels, without_labels) \<Rightarrow>
             qbind (parse_selector rx selector) (\<lambda>nm.
               Inr ((plain_query nm (Some op))\<lparr>pq_by := by_labels, pq_without := without_labels\<rparr>)))"

definition parse_agg_leading :: "regex_api \<Rightarrow> string \<Rightarrow> plan_op \<Rightarrow> string \<Rightarrow> parsed_query qresult" where
  "parse_agg_leading rx fname op query =
     qbind (parse_leading_grouping query fname) (\<lambda>(labels, is_without, remainder).
       let inner = rev (dropWhile (\<lambda>c. c = CHR '')'') (rev (dropWhile (\<lambda>c. c = CHR ''('') (trim remainder))))
       in qbind (parse_selector rx inner) (\<lambda>nm.
            Inr ((plain_query nm (Some op))\<lparr>pq_by := (if is_without then [] else labels),
                                            pq_without := (if is_without then labels else [])\<rparr>)))"

fun parse_aggregations :: "regex_api \<Rightarrow> (string \<times> plan_op) list \<Rightarrow> string \<Rightarrow> parsed_query qresult option" where
  "parse_aggregations rx [] query = None"
| "parse_aggregations rx ((fname, op) # fs) query =
     (case strip_fn fname query of
        Some inner \<Rightarrow> Some (parse_agg_call rx fname op inner)
      | None \<Rightarrow>
          if starts_with query (fname @ '' by ('') \<or> starts_with query (fname @ '' without ('')
          then Some (parse_agg_leading rx fname op query)
          else parse_aggregations rx fs query)"

text \<open>The functions of the query in the order in which they are tried, with what reads their arguments.\<close>

definition QUERY_FUNCTIONS :: "regex_api \<Rightarrow> (string \<times> (string \<Rightarrow> parsed_query qresult)) list" where
  "QUERY_FUNCTIONS rx =
     [(''histogram_quantile'', \<lambda>inner.
         qbind (split_first_arg inner) (\<lambda>(head, tail).
         qbind (parse_number ''Invalid quantile value'' head) (\<lambda>q.
         qbind (parse_selector rx (trim tail)) (\<lambda>nm. Inr ((plain_query nm (Some PHistogramQuantile))\<lparr>pq_quantile := Some q\<rparr>))))),
      (''topk'', parse_ranked rx ''topk'' PTopK),
      (''bottomk'', parse_ranked rx ''bottomk'' PBottomK),
      (''label_replace'', parse_label_replace rx),
      (''clamp_min'', parse_clamp rx ''clamp_min: invalid min value'' PClampMin (\<lambda>x. (Some x, None))),
      (''clamp_max'', parse_clamp rx ''clamp_max: invalid max value'' PClampMax (\<lambda>x. (None, Some x))),
      (''round'', parse_round rx),
      (''abs'', \<lambda>inner. qbind (parse_selector rx (trim inner)) (\<lambda>nm. Inr (plain_query nm (Some PAbs)))),
      (''ceil'', \<lambda>inner. qbind (parse_selector rx (trim inner)) (\<lambda>nm. Inr (plain_query nm (Some PCeil)))),
      (''floor'', \<lambda>inner. qbind (parse_selector rx (trim inner)) (\<lambda>nm. Inr (plain_query nm (Some PFloor)))),
      (''irate'', parse_range_fn rx PIrate),
      (''increase'', parse_range_fn rx PIncrease),
      (''delta'', parse_range_fn rx PDelta),
      (''rate'', parse_range_fn rx PRate)]"

fun first_function :: "(string \<times> (string \<Rightarrow> parsed_query qresult)) list \<Rightarrow> string \<Rightarrow> parsed_query qresult option" where
  "first_function [] query = None"
| "first_function ((fname, read) # fs) query =
     (case strip_fn fname query of Some inner \<Rightarrow> Some (read inner) | None \<Rightarrow> first_function fs query)"

definition AGGREGATION_FUNCTIONS :: "(string \<times> plan_op) list" where
  "AGGREGATION_FUNCTIONS =
     [(''avg'', PAvg), (''sum'', PSum), (''min'', PMin), (''max'', PMax), (''count'', PCount), (''stddev'', PStddev), (''stdvar'', PStdvar)]"

definition parse_query :: "regex_api \<Rightarrow> string \<Rightarrow> parsed_query qresult" where
  "parse_query rx text_in =
     (let query = trim text_in
      in case first_function (QUERY_FUNCTIONS rx) query of
           Some r \<Rightarrow> r
         | None \<Rightarrow>
             (case parse_aggregations rx AGGREGATION_FUNCTIONS query of
                Some r \<Rightarrow> r
              | None \<Rightarrow> qbind (parse_selector rx query) (\<lambda>nm. Inr (plain_query nm None))))"

end
