(* ===== verification/Query_Text_Proofs.thy ===== *)
theory Query_Text_Proofs
  imports Query_Text
begin

section \<open>What the text parsers promise\<close>

text \<open>
  Durations written with units and selectors written with plain names and quoted values are read back as they
  were written. The theorems at the end show where the text operations go wrong: bare seconds wrap
  around, a comma inside quotes splits a matcher, and a lone quote panics.
\<close>

subsection \<open>Strings\<close>

lemma trim_plain: "s = [] \<or> \<not> is_space (hd s) \<and> \<not> is_space (last s) \<Longrightarrow> trim s = s"
proof (cases s rule: rev_cases)
  case (snoc ys y)
  assume "s = [] \<or> \<not> is_space (hd s) \<and> \<not> is_space (last s)"
  then show ?thesis using snoc by (cases ys) (auto simp: trim_def trim_start_def trim_end_def)
qed (simp add: trim_def trim_start_def trim_end_def)

lemma find_str_at: "p \<notin> set pre \<Longrightarrow> find_str (p # ps) (pre @ p # ps @ post) = Some (length pre)"
  by (induction pre) auto

lemma find_str_absent: "c \<in> set pat \<Longrightarrow> c \<notin> set s \<Longrightarrow> find_str pat s = None"
proof (induction s)
  case (Cons x xs)
  have "take (length pat) (x # xs) \<noteq> pat" using Cons.prems by (metis in_set_takeD)
  then show ?case using Cons by simp
qed auto

lemma find_pair_absent:
  "q \<notin> set xs \<Longrightarrow> q \<notin> set ys \<Longrightarrow> xs = [] \<or> last xs \<noteq> p \<Longrightarrow> p \<noteq> q \<Longrightarrow> find_str [p, q] (xs @ q # ys) = None"
proof (induction xs)
  case Nil
  then show ?case using find_str_absent [of q "[p, q]" ys] by simp
next
  case (Cons x xs)
  have "take (Suc (Suc 0)) (x # xs @ q # ys) \<noteq> [p, q]"
    using Cons.prems by (cases xs) (auto split: if_splits)
  then show ?case using Cons by (auto split: if_splits)
qed

lemma split_on_single: "c \<notin> set x \<Longrightarrow> split_on c x = [x]"
  by (induction x) auto

lemma split_on_append: "c \<notin> set x \<Longrightarrow> split_on c (x @ c # y) = x # split_on c y"
  by (induction x) auto

subsection \<open>Durations\<close>

definition show_duration :: "(nat \<times> string) list \<Rightarrow> string" where
  "show_duration parts = concat (map (\<lambda>(n, u). dec_string n @ u) parts)"

definition unit_value :: "string \<Rightarrow> i64" where
  "unit_value u = (case map_of UNITS u of None \<Rightarrow> 0 | Some v \<Rightarrow> v)"

definition duration_total :: "(nat \<times> string) list \<Rightarrow> int" where
  "duration_total parts = (\<Sum>(n, u)\<leftarrow>parts. int n * unit_value u)"

definition is_duration_unit :: "string \<Rightarrow> bool" where
  "is_duration_unit u \<longleftrightarrow> map_of UNITS u \<noteq> None"

lemma dec_string_digits: "list_all is_ascii_digit (dec_string n)"
  using dec_string_chars [of _ n] by (auto simp: list_all_iff is_ascii_digit_def)

lemma parse_int_digits_append: "parse_int_digits acc (xs @ ys) = Option.bind (parse_int_digits acc xs) (\<lambda>n. parse_int_digits n ys)"
  by (induction xs arbitrary: acc) auto

lemma parse_int_digits_dec: "parse_int_digits 0 (dec_string n) = Some n"
proof (induction n rule: dec_string.induct)
  case (1 n)
  show ?case
  proof (cases "n < 10")
    case True
    then show ?thesis by (simp add: dec_string.simps [of n])
  next
    case False
    then have "parse_int_digits 0 (dec_string (n div 10)) = Some (n div 10)" using 1 by simp
    moreover have "n mod 10 < 10" by simp
    ultimately show ?thesis using False
      by (simp add: dec_string.simps [of n] parse_int_digits_append mult.commute)
  qed
qed

lemma parse_int_digits_None: "\<not> list_all is_ascii_digit s \<Longrightarrow> parse_int_digits acc s = None"
  by (induction s arbitrary: acc) (auto simp: is_ascii_digit_def)

lemma dec_string_head: "\<exists>c cs. dec_string n = c # cs \<and> c \<noteq> CHR ''-'' \<and> c \<noteq> CHR ''+''"
  using dec_string_no_sign [of n] by (metis dec_string_nonempty list.exhaust list.set_intros (1))

lemma parse_i64_dec: "n < 2 ^ 63 \<Longrightarrow> parse_i64 (dec_string n) = Some (int n)"
proof -
  assume n: "n < 2 ^ 63"
  obtain c cs where c: "dec_string n = c # cs" "c \<noteq> CHR ''-''" "c \<noteq> CHR ''+''" using dec_string_head by blast
  have "int n < 2 ^ 63" using n by (metis of_nat_less_iff of_nat_numeral of_nat_power)
  moreover have "parse_int_digits 0 (c # cs) = Some n" using parse_int_digits_dec [of n] c (1) by simp
  ultimately show ?thesis using c by (simp add: parse_i64_def del: parse_int_digits.simps)
qed

lemma parse_i64_None: "s = c # cs \<Longrightarrow> c \<noteq> CHR ''-'' \<Longrightarrow> c \<noteq> CHR ''+'' \<Longrightarrow> \<not> list_all is_ascii_digit s \<Longrightarrow> parse_i64 s = None"
  using parse_int_digits_None [of s 0] by (simp add: parse_i64_def del: parse_int_digits.simps)

lemma next_unit_parts:
  assumes "is_duration_unit u" "rest = [] \<or> is_ascii_digit (hd rest)"
  shows "next_unit (dec_string n @ u @ rest) = Some (dec_string n, rest, unit_value u)"
proof -
  have u: "u \<in> {''ms'', ''s'', ''m'', ''h'', ''d'', ''w''}" using assms (1) by (auto simp: is_duration_unit_def UNITS_def split: if_splits)
  then have h: "u \<noteq> []" "\<not> is_ascii_digit (hd u)" by (auto simp: is_ascii_digit_def)
  have d: "\<forall>x\<in>set (dec_string n). is_ascii_digit x" using dec_string_digits by (simp add: list_all_iff)
  then have tw: "takeWhile is_ascii_digit (dec_string n @ u @ rest) = dec_string n"
    using h by (cases u) auto
  have dw: "dropWhile is_ascii_digit (dec_string n @ u @ rest) = u @ rest"
    using d h by (cases u) auto
  have "List.find (\<lambda>(suf, unit_ns). starts_with (u @ rest) suf) UNITS = Some (u, unit_value u)"
    using u assms (2) by (cases rest) (auto simp: UNITS_def starts_with_def unit_value_def is_ascii_digit_def)
  then show ?thesis using h by (simp add: next_unit_def tw dw)
qed

lemma show_duration_head: "show_duration parts = [] \<or> is_ascii_digit (hd (show_duration parts))"
proof (cases parts)
  case (Cons p ps)
  obtain n u where p: "p = (n, u)" by (cases p)
  obtain c cs where "dec_string n = c # cs" using dec_string_head by blast
  then show ?thesis using dec_string_digits [of n] by (simp add: show_duration_def Cons p)
qed (simp add: show_duration_def)

lemma duration_loop_parts:
  assumes "list_all (\<lambda>(n, u). is_duration_unit u) parts" "0 \<le> acc" "acc + duration_total parts < 2 ^ 63"
  shows "duration_loop acc (show_duration parts) = Inr (acc + duration_total parts)"
  using assms
proof (induction parts arbitrary: acc)
  case Nil
  then show ?case by (simp add: show_duration_def duration_loop.simps duration_total_def)
next
  case (Cons p ps)
  obtain n u where p: "p = (n, u)" by (cases p)
  have u: "is_duration_unit u" using Cons.prems (1) by (simp add: p)
  have pos: "1 \<le> unit_value v" if "is_duration_unit v" for v
    using that by (auto simp: is_duration_unit_def unit_value_def UNITS_def split: if_splits)
  have t0: "0 \<le> duration_total qs" if "list_all (\<lambda>(n, u). is_duration_unit u) qs" for qs
    using that order_trans [OF zero_le_one pos] by (fastforce simp: duration_total_def list_all_iff intro!: sum_list_nonneg mult_nonneg_nonneg)
  define x where "x = int n * unit_value u"
  have tot: "duration_total (p # ps) = x + duration_total ps" by (simp add: duration_total_def p x_def)
  have ps: "0 \<le> duration_total ps" using t0 Cons.prems (1) by simp
  have x0: "0 \<le> x" using pos [OF u] by (simp add: x_def)
  have x: "x < 2 ^ 63" "acc + x < 2 ^ 63" using Cons.prems (2,3) ps unfolding tot by linarith+
  have "int n \<le> x" using pos [OF u] unfolding x_def by (simp add: mult_le_cancel_left1)
  then have n: "n < 2 ^ 63" using x (1) by (metis of_nat_less_iff of_nat_numeral of_nat_power order_le_less_trans)
  have s: "show_duration (p # ps) = dec_string n @ u @ show_duration ps" by (simp add: show_duration_def p)
  have nu: "next_unit (show_duration (p # ps)) = Some (dec_string n, show_duration ps, unit_value u)"
    unfolding s by (rule next_unit_parts [OF u show_duration_head])
  have "checked_i64 x = Some x" "checked_i64 (acc + x) = Some (acc + x)" using x x0 Cons.prems (2) by (simp_all add: checked_i64_def)
  then have "duration_loop acc (show_duration (p # ps)) = duration_loop (acc + x) (show_duration ps)"
    using nu parse_i64_dec [OF n] s by (subst duration_loop.simps) (simp add: x_def)
  also have "\<dots> = Inr (acc + x + duration_total ps)" using Cons.prems x0 by (intro Cons.IH) (simp_all add: tot)
  finally show ?case by (simp add: tot)
qed

text \<open>C19: A duration written as numbers with units, such as one hour and thirty minutes, is read as the sum
  of its parts in nanoseconds, as long as the sum fits.\<close>

theorem duration_roundtrip:
  assumes "parts \<noteq> []" "list_all (\<lambda>(n, u). is_duration_unit u) parts" "duration_total parts < 2 ^ 63"
  shows "parse_duration_str (show_duration parts) = Inr (duration_total parts)"
proof -
  obtain n u ps where p: "parts = (n, u) # ps" using assms (1) by (metis list.exhaust surj_pair)
  obtain c cs where c: "dec_string n = c # cs" "c \<noteq> CHR ''-''" "c \<noteq> CHR ''+''" using dec_string_head by blast
  have s: "show_duration parts = c # cs @ u @ show_duration ps" by (simp add: p show_duration_def c)
  have "u \<noteq> []" "\<not> is_ascii_digit (hd u)" using assms (2) by (auto simp: p is_duration_unit_def UNITS_def is_ascii_digit_def split: if_splits)
  then have "\<not> list_all is_ascii_digit (show_duration parts)" unfolding s by (cases u) auto
  then have "parse_i64 (show_duration parts) = None" using parse_i64_None [OF s c (2,3)] by simp
  then show ?thesis using duration_loop_parts [OF assms (2), of 0] assms (3) s by (simp add: parse_duration_str_def)
qed

theorem duration_roundtrip_witness:
  "parse_duration_str (show_duration [(1, ''h''), (30, ''m'')]) = Inr 5400000000000 \<and> show_duration [(1, ''h''), (30, ''m'')] = ''1h30m''"
proof -
  have "show_duration [(1, ''h''), (30, ''m'')] = ''1h30m''" by code_simp
  moreover have "parse_duration_str (show_duration [(1, ''h''), (30, ''m'')]) = Inr (duration_total [(1, ''h''), (30, ''m'')])"
    by (rule duration_roundtrip) (simp_all add: is_duration_unit_def UNITS_def duration_total_def unit_value_def)
  moreover have "duration_total [(1, ''h''), (30, ''m'')] = 5400000000000" by (simp add: UNITS_def duration_total_def unit_value_def)
  ultimately show ?thesis by simp
qed

subsection \<open>Selectors\<close>

definition plain_char :: "char \<Rightarrow> bool" where
  "plain_char c \<longleftrightarrow> \<not> is_space c \<and> c \<notin> {CHR '','', CHR ''='', CHR ''!'', CHR ''~'', CHR ''{'', CH_QUOTE}"

definition quotable :: "char \<Rightarrow> bool" where
  "quotable c \<longleftrightarrow> c \<notin> {CHR '','', CHR ''!'', CHR ''~''}"

definition op_text :: "match_op \<Rightarrow> string" where
  "op_text op = (case op of MEqual \<Rightarrow> ''='' | MNotEqual \<Rightarrow> ''!='' | MRegexMatch \<Rightarrow> ''=~'' | MRegexNotMatch \<Rightarrow> ''!~'')"

definition print_matcher :: "label_matcher \<Rightarrow> string" where
  "print_matcher m = lm_name m @ op_text (lm_op m) @ [CH_QUOTE] @ lm_value m @ [CH_QUOTE]"

fun print_matchers :: "label_matcher list \<Rightarrow> string" where
  "print_matchers [] = []"
| "print_matchers [m] = print_matcher m"
| "print_matchers (m # ms) = print_matcher m @ '','' @ print_matchers ms"

definition print_selector :: "string \<Rightarrow> label_matcher list \<Rightarrow> string" where
  "print_selector name ms = name @ ''{'' @ print_matchers ms @ ''}''"

definition plain_matcher :: "regex_api \<Rightarrow> label_matcher \<Rightarrow> bool" where
  "plain_matcher rx m \<longleftrightarrow> list_all plain_char (lm_name m) \<and> list_all quotable (lm_value m) \<and>
     matcher_new rx (lm_name m) (lm_op m) (lm_value m) = Inr m"

lemma CH_QUOTE_char [simp]:
  "CHR ''~'' \<noteq> CH_QUOTE" "CHR ''='' \<noteq> CH_QUOTE" "CHR ''!'' \<noteq> CH_QUOTE" "CHR '','' \<noteq> CH_QUOTE" "\<not> is_space CH_QUOTE"
  by (simp_all add: CH_QUOTE_def is_space_def)

lemma plain_notin: "list_all plain_char s \<Longrightarrow> c \<in> {CHR '','', CHR ''='', CHR ''!'', CHR ''~'', CHR ''{''} \<Longrightarrow> c \<notin> set s"
  by (auto simp: list_all_iff plain_char_def)

lemma quotable_notin: "list_all quotable s \<Longrightarrow> c \<in> {CHR '','', CHR ''!'', CHR ''~''} \<Longrightarrow> c \<notin> set s"
  by (auto simp: list_all_iff quotable_def)

lemma trim_plain_chars: "list_all plain_char s \<Longrightarrow> trim s = s"
proof (cases "s = []")
  case False
  assume "list_all plain_char s"
  then have "\<forall>c\<in>set s. \<not> is_space c" by (simp add: list_all_iff plain_char_def)
  then show ?thesis using hd_in_set [OF False] last_in_set [OF False] by (intro trim_plain) blast
qed (simp add: trim_plain)

lemma matcher_operator_print:
  assumes "list_all plain_char name" "list_all quotable value"
  shows "matcher_operator (name @ op_text op @ [CH_QUOTE] @ value @ [CH_QUOTE]) = Some (op, length name)"
proof -
  let ?q = "[CH_QUOTE] @ value @ [CH_QUOTE]"
  have n: "CHR ''='' \<notin> set name" "CHR ''!'' \<notin> set name" "CHR ''~'' \<notin> set name" using plain_notin [OF assms (1)] by auto
  have v: "CHR ''!'' \<notin> set ?q" "CHR ''~'' \<notin> set ?q" using quotable_notin [OF assms (2), of "CHR ''!''"] quotable_notin [OF assms (2), of "CHR ''~''"] by simp_all
  show ?thesis
  proof (cases op)
    case MEqual
    let ?s = "name @ ''='' @ ?q"
    have "find_str ''=~'' ?s = None" "find_str ''!~'' ?s = None"
      using n v by (intro find_str_absent [of "CHR ''~''"]; simp)+
    moreover have "find_str ''!='' ?s = None" using n v by (intro find_str_absent [of "CHR ''!''"]; simp)
    moreover have "find_char (CHR ''='') ?s = Some (length name)"
      using find_str_at [OF n (1), of "[]" ?q] by (simp add: find_char_def)
    ultimately show ?thesis by (simp add: MEqual op_text_def matcher_operator_def)
  next
    case MNotEqual
    let ?s = "name @ ''!='' @ ?q"
    have "find_str ''=~'' ?s = None" "find_str ''!~'' ?s = None"
      using n v by (intro find_str_absent [of "CHR ''~''"]; simp)+
    moreover have "find_str ''!='' ?s = Some (length name)" using find_str_at [OF n (2), of "''=''" ?q] by simp
    ultimately show ?thesis by (simp add: MNotEqual op_text_def matcher_operator_def)
  next
    case MRegexMatch
    have "find_str ''=~'' (name @ ''=~'' @ ?q) = Some (length name)" using find_str_at [OF n (1), of "''~''" ?q] by simp
    then show ?thesis by (simp add: MRegexMatch op_text_def matcher_operator_def)
  next
    case MRegexNotMatch
    have "find_str ''=~'' ((name @ ''!'') @ CHR ''~'' # ?q) = None" using n v by (intro find_pair_absent) auto
    moreover have "find_str ''!~'' (name @ ''!~'' @ ?q) = Some (length name)" using find_str_at [OF n (2), of "''~''" ?q] by simp
    ultimately show ?thesis by (simp add: MRegexNotMatch op_text_def matcher_operator_def)
  qed
qed

lemma op_text_length: "length (op_text op) = (if op = MEqual then 1 else 2)"
  by (cases op) (simp_all add: op_text_def)

lemma parse_matcher_print: "plain_matcher rx m \<Longrightarrow> parse_matcher rx (print_matcher m) = Inr m"
proof -
  assume a: "plain_matcher rx m"
  let ?q = "[CH_QUOTE] @ lm_value m @ [CH_QUOTE]"
  have op: "matcher_operator (print_matcher m) = Some (lm_op m, length (lm_name m))"
    using a by (simp add: print_matcher_def matcher_operator_print [simplified] plain_matcher_def)
  have n: "trim (lm_name m) = lm_name m"
    using a by (simp add: plain_matcher_def trim_plain_chars)
  have q: "trim ?q = ?q" by (intro trim_plain) simp
  have "drop (length (lm_name m) + length (op_text (lm_op m))) (print_matcher m) = ?q" by (simp add: print_matcher_def)
  then have d: "trim (drop (length (lm_name m) + (if lm_op m = MEqual then 1 else 2)) (print_matcher m)) = ?q"
    using q unfolding op_text_length by simp
  have "starts_with ?q [CH_QUOTE]" "ends_with ?q [CH_QUOTE]" by (simp_all add: starts_with_def ends_with_def)
  moreover have "slice_inner ?q = Inr (lm_value m)" by (simp add: slice_inner_def butlast_append)
  moreover have "take (length (lm_name m)) (print_matcher m) = lm_name m" by (simp add: print_matcher_def)
  ultimately show ?thesis using a op n d by (simp add: parse_matcher_def Let_def plain_matcher_def del: append_Cons append_Nil)
qed

lemma print_matcher_facts:
  assumes "plain_matcher rx m"
  shows "CHR '','' \<notin> set (print_matcher m)" "trim (print_matcher m) = print_matcher m" "print_matcher m \<noteq> []"
proof -
  show "CHR '','' \<notin> set (print_matcher m)"
    using assms plain_notin [of "lm_name m" "CHR '',''"] quotable_notin [of "lm_value m" "CHR '',''"]
    by (auto simp: plain_matcher_def print_matcher_def op_text_def split: match_op.splits)
  show ne: "print_matcher m \<noteq> []" by (simp add: print_matcher_def)
  have "last (print_matcher m) = CH_QUOTE" by (simp add: print_matcher_def)
  moreover have "\<not> is_space (hd (print_matcher m))"
    using assms
    by (cases "lm_name m"; cases "lm_op m") (auto simp: plain_matcher_def print_matcher_def op_text_def plain_char_def is_space_def)
  ultimately show "trim (print_matcher m) = print_matcher m" by (intro trim_plain) simp
qed

lemma parse_matchers_print:
  "ms \<noteq> [] \<Longrightarrow> list_all (plain_matcher rx) ms \<Longrightarrow> parse_matchers rx (split_on (CHR '','') (print_matchers ms)) = Inr ms"
proof (induction ms rule: print_matchers.induct)
  case (2 m)
  then show ?case using print_matcher_facts [of rx m] parse_matcher_print [of rx m] by (simp add: split_on_single)
next
  case (3 m m2 ms)
  then have "parse_matchers rx (split_on (CHR '','') (print_matchers (m2 # ms))) = Inr (m2 # ms)" by simp
  then show ?case using 3 print_matcher_facts [of rx m] parse_matcher_print [of rx m] by (simp add: split_on_append)
qed simp

text \<open>C20: A selector printed with its name and its matchers in braces, values in quotes, is parsed back to
  them, as long as the names are plain and the values have no comma, tilde or exclamation mark and
  the regular expressions compile.\<close>

theorem selector_roundtrip:
  assumes "name \<noteq> []" "list_all plain_char name" "list_all (plain_matcher rx) ms"
  shows "parse_selector rx (print_selector name ms) = Inr (Some name, ms)"
proof -
  let ?s = "print_selector name ms"
  have "\<not> is_space (hd ?s)" "\<not> is_space (last ?s)" using assms (1,2) by (cases name; auto simp: print_selector_def plain_char_def is_space_def)+
  then have t: "trim ?s = ?s" by (intro trim_plain) simp
  have n: "trim name = name" using assms (2) by (rule trim_plain_chars)
  have "find_char (CHR ''{'') ?s = Some (length name)"
    using find_str_at [of "CHR ''{''" name "[]" "print_matchers ms @ ''}''"] plain_notin [OF assms (2), of "CHR ''{''"]
    by (simp add: find_char_def print_selector_def)
  moreover have "ends_with ?s ''}''" by (simp add: ends_with_def print_selector_def)
  moreover have "butlast (drop (length name + 1) ?s) = print_matchers ms" by (simp add: print_selector_def butlast_append)
  moreover have "print_matchers ms \<noteq> []" if "ms \<noteq> []" using that by (cases ms rule: print_matchers.cases) (auto simp: print_matcher_def)
  moreover have "take (length name) ?s = name" by (simp add: print_selector_def)
  moreover have "?s \<noteq> []" by (simp add: print_selector_def)
  ultimately show ?thesis
    using t n assms (1) parse_matchers_print [OF _ assms (3)] by (cases "ms = []") (simp_all add: parse_selector_def Let_def)
qed

definition any_regex :: regex_api where
  "any_regex = \<lparr>rx_ok = \<lambda>_. True, rx_is_match = \<lambda>p s. p = s, rx_captures = \<lambda>_ _. None, rx_replace = \<lambda>_ s _. s\<rparr>"

definition sample_matchers :: "label_matcher list" where
  "sample_matchers = [matcher_equal ''method'' ''GET'', \<lparr>lm_name = ''code'', lm_op = MRegexMatch, lm_value = ''5..'', lm_regex = Some ''5..''\<rparr>]"

theorem selector_roundtrip_witness:
  "parse_selector any_regex (print_selector ''http_requests'' sample_matchers) = Inr (Some ''http_requests'', sample_matchers)"
  by (rule selector_roundtrip)
    (simp_all add: sample_matchers_def plain_matcher_def matcher_equal_def plain_char_def quotable_def is_space_def CH_QUOTE_def matcher_new_def any_regex_def)

text \<open>Bare seconds are not checked for overflow as units are: a large number of seconds is read as a
  negative duration, while the same duration with its unit is refused.\<close>

theorem bare_seconds_wrap:
  "parse_duration_str ''9223372037'' = Inr (- 9223372036709551616) \<and>
   parse_duration_str ''9223372037s'' = invalid ''duration overflows''"
proof -
  have p: "parse_i64 ''9223372037'' = Some 9223372037" "parse_i64 ''9223372037s'' = None" by (simp_all add: parse_i64_def)
  have "next_unit ''9223372037s'' = Some (''9223372037'', [], 1000000000)"
    by (simp add: next_unit_def UNITS_def is_ascii_digit_def starts_with_def)
  moreover have "checked_i64 (9223372037 * 1000000000) = None" by (simp add: checked_i64_def)
  ultimately have "duration_loop 0 ''9223372037s'' = invalid ''duration overflows''"
    using p (1) by (subst duration_loop.simps) simp
  then show ?thesis using p by (simp add: parse_duration_str_def wrap_i64_def)
qed

text \<open>The matchers are split at every comma, also at one inside quotes: one matcher on a value with a
  comma becomes two on the pieces, quotes included. A value that is a single quote panics.\<close>

theorem quoted_comma_splits_matcher:
  "parse_selector any_regex (''x{a='' @ [CH_QUOTE] @ ''1,b=2'' @ [CH_QUOTE] @ ''}'') =
     Inr (Some ''x'', [matcher_equal ''a'' (CH_QUOTE # ''1''), matcher_equal ''b'' (''2'' @ [CH_QUOTE])]) \<and>
   parse_selector any_regex (''x{a='' @ [CH_QUOTE] @ ''}'') = Inl Panic"
  by code_simp

end
