(* ===== verification/Downsample.thy ===== *)
theory Downsample
  imports Query_Text
begin

section \<open>Aggregation of windows and downsampling\<close>

text \<open>
  \<^verbatim>\<open>parqtel-query/src/aggregation.rs\<close>: the value of a window for each operation of a plan, and the loops that cut a
  series into windows of a step, with or without a range to look back.

  Time is computed with 64 bits and wraps around, so a loop over the steps need not end: the loops are
  partial functions, \<open>None\<close> when they do not return. Only a histogram with more counts than its
  bounds allow makes an aggregation panic.
\<close>

definition v_to_float :: "metric_value \<Rightarrow> f64" where
  "v_to_float v = (case v of Double f \<Rightarrow> f | IntVal i \<Rightarrow> f64_of_int i | Histogram h \<Rightarrow> hv_sum h | Summary s \<Rightarrow> sv_sum s)"

type_synonym point = "i64 \<times> metric_value"

definition F64_TENTH :: f64 where "F64_TENTH = 0x3FB999999999999A"

definition seconds_between :: "i64 \<Rightarrow> i64 \<Rightarrow> f64" where
  "seconds_between earlier later = f64_div (f64_of_int (wrap_i64 (later - earlier))) F64_1E9"

subsection \<open>The value of a window\<close>

text \<open>\<open>min_by\<close> keeps the first of equal elements, \<open>max_by\<close> the last; numbers that do not compare count as equal.\<close>

definition min_by_value :: "f64 list \<Rightarrow> f64 option" where
  "min_by_value xs = (case xs of [] \<Rightarrow> None | y # ys \<Rightarrow> Some (foldl (\<lambda>x y. if f64_lt y x then y else x) y ys))"

definition max_by_value :: "f64 list \<Rightarrow> f64 option" where
  "max_by_value xs = (case xs of [] \<Rightarrow> None | y # ys \<Rightarrow> Some (foldl (\<lambda>x y. if f64_lt y x then x else y) y ys))"

definition variance_of :: "f64 list \<Rightarrow> f64" where
  "variance_of xs =
     (let n = f64_of_int (int (length xs)); mean = f64_div (f64_sum xs) n
      in f64_div (f64_sum (map (\<lambda>x. f64_square (f64_sub x mean)) xs)) n)"

fun estimate_loop :: "f64 \<Rightarrow> f64 list \<Rightarrow> f64 \<Rightarrow> nat \<Rightarrow> u64 list \<Rightarrow> f64 option qresult" where
  "estimate_loop target boundaries cumulative i [] = Inr None"
| "estimate_loop target boundaries cumulative i (c # cs) =
     (let prev = cumulative; cumulative' = f64_add cumulative (f64_of_u64 c)
      in if f64_le target cumulative'
         then if i \<noteq> 0 \<and> length boundaries < i then Inl Panic
              else let lower = (if i = 0 then 0 else boundaries ! (i - 1));
                       upper = (if i < length boundaries then boundaries ! i else f64_mul lower (f64_of_int 2));
                       frac = (if f64_eq cumulative' prev then 0 else f64_div (f64_sub target prev) (f64_sub cumulative' prev))
                   in Inr (Some (f64_add lower (f64_mul (f64_sub upper lower) frac)))
         else estimate_loop target boundaries cumulative' (i + 1) cs)"

definition estimate_quantile :: "f64 list \<Rightarrow> u64 list \<Rightarrow> f64 \<Rightarrow> f64 qresult" where
  "estimate_quantile boundaries counts q =
     (if counts = [] then Inr 0
      else let size = sum_list counts
           in if size = 0 then Inr 0
              else qbind (estimate_loop (f64_mul q (f64_of_u64 size)) boundaries 0 0 counts)
                     (\<lambda>r. Inr (case r of Some v \<Rightarrow> v | None \<Rightarrow> if boundaries = [] then 0 else last boundaries)))"

definition aggregate ::
  "plan_op \<Rightarrow> point list \<Rightarrow> f64 option \<Rightarrow> f64 option \<Rightarrow> (f64 option \<times> f64 option) option \<Rightarrow> f64 option qresult" where
  "aggregate op points quantile scalar_param clamp =
     (if points = [] then Inr None
      else let values = map (\<lambda>p. v_to_float (snd p)) points;
               n = f64_of_int (int (length points));
               first = hd points; final = last points; last_value = v_to_float (snd final)
           in case op of
                PAvg \<Rightarrow> Inr (Some (f64_div (f64_sum values) n))
              | PSum \<Rightarrow> Inr (Some (f64_sum values))
              | PMin \<Rightarrow> Inr (min_by_value values)
              | PMax \<Rightarrow> Inr (max_by_value values)
              | PCount \<Rightarrow> Inr (Some n)
              | PStddev \<Rightarrow> Inr (if length points < 2 then None else Some (f64_sqrt (variance_of values)))
              | PStdvar \<Rightarrow> Inr (if length points < 2 then None else Some (variance_of values))
              | PRate \<Rightarrow>
                  Inr (if length points < 2 then None
                       else let dt = seconds_between (fst first) (fst final)
                            in if f64_le dt 0 then None
                               else Some (f64_div (f64_sub last_value (v_to_float (snd first))) dt))
              | PIrate \<Rightarrow>
                  Inr (if length points < 2 then None
                       else let prev = points ! (length points - 2); dt = seconds_between (fst prev) (fst final)
                            in if f64_le dt 0 then None
                               else let dv = f64_sub last_value (v_to_float (snd prev))
                                    in Some (f64_div (if f64_lt dv 0 then last_value else dv) dt))
              | PIncrease \<Rightarrow>
                  Inr (if length points < 2 then None
                       else let dt = seconds_between (fst first) (fst final)
                            in if f64_le dt 0 then None
                               else let dv = f64_sub last_value (v_to_float (snd first))
                                    in Some (if f64_lt dv 0 then last_value else dv))
              | PDelta \<Rightarrow> Inr (if length points < 2 then None else Some (f64_sub last_value (v_to_float (snd first))))
              | PHistogramQuantile \<Rightarrow>
                  (case quantile of
                     None \<Rightarrow> Inr None
                   | Some q \<Rightarrow>
                       (case snd final of
                          Histogram h \<Rightarrow> qbind (estimate_quantile (hv_boundaries h) (hv_counts h) q) (\<lambda>v. Inr (Some v))
                        | _ \<Rightarrow> Inr None))
              | PAbs \<Rightarrow> Inr (Some (f64_abs last_value))
              | PCeil \<Rightarrow> Inr (Some (f64_ceil last_value))
              | PFloor \<Rightarrow> Inr (Some (f64_floor last_value))
              | PRound \<Rightarrow>
                  Inr (Some (case scalar_param of
                               Some to_nearest \<Rightarrow>
                                 if f64_eq to_nearest 0 then f64_round_int last_value
                                 else f64_mul (f64_round_int (f64_div last_value to_nearest)) to_nearest
                             | None \<Rightarrow> f64_round_int last_value))
              | PClampMin \<Rightarrow>
                  Inr (Some (f64_max last_value (case Option.bind clamp fst of Some lo \<Rightarrow> lo | None \<Rightarrow> F64_NEG_INFINITY)))
              | PClampMax \<Rightarrow>
                  Inr (Some (f64_min last_value (case Option.bind clamp snd of Some hi \<Rightarrow> hi | None \<Rightarrow> F64_INFINITY)))
              | PTopK \<Rightarrow> Inr (Some last_value)
              | PBottomK \<Rightarrow> Inr (Some last_value)
              | PLabelReplace \<Rightarrow> Inr (Some last_value))"

subsection \<open>Rates over a range\<close>

definition counter_increase :: "f64 list \<Rightarrow> f64" where
  "counter_increase vs =
     foldl (\<lambda>acc w. f64_add acc (if f64_le (fst w) (snd w) then f64_sub (snd w) (fst w) else snd w)) 0 (windows2 vs)"

definition windowed_rate :: "point list \<Rightarrow> f64 \<Rightarrow> f64 option" where
  "windowed_rate window range_ns =
     (if length window < 2 then None
      else let span = seconds_between (fst (hd window)) (fst (last window))
           in if f64_le span 0 then None
              else let rate = f64_div (counter_increase (map (\<lambda>p. v_to_float (snd p)) window)) span;
                       window_s = f64_div range_ns F64_1E9
                   in Some (if f64_lt span window_s
                            then let slack = f64_min (f64_div (f64_sub window_s span) (f64_of_int 2)) (f64_mul span F64_TENTH)
                                 in f64_div (f64_mul rate (f64_add span (f64_mul (f64_of_int 2) slack))) span
                            else rate))"

definition instant_rate :: "point \<Rightarrow> point \<Rightarrow> f64 option" where
  "instant_rate prev final =
     (let dt = seconds_between (fst prev) (fst final)
      in if f64_le dt 0 then None
         else let dv = f64_sub (v_to_float (snd final)) (v_to_float (snd prev))
              in Some (f64_div (if f64_lt dv 0 then v_to_float (snd final) else dv) dt))"

subsection \<open>The loops over the steps\<close>

text \<open>The points before the end of a window leave the queue; those before its start are dropped.\<close>

fun take_window :: "i64 \<Rightarrow> i64 \<Rightarrow> (i64 \<times> 'v) list \<Rightarrow> (i64 \<times> 'v) list \<times> (i64 \<times> 'v) list" where
  "take_window start fin [] = ([], [])"
| "take_window start fin (p # ps) =
     (if fst p < fin
      then case take_window start fin ps of (w, rest) \<Rightarrow> (if start \<le> fst p then p # w else w, rest)
      else ([], p # ps))"

definition sample_at :: "i64 \<Rightarrow> f64 option \<Rightarrow> sample list" where
  "sample_at ts v = (case v of None \<Rightarrow> [] | Some x \<Rightarrow> [\<lparr>sa_timestamp_ns = ts, sa_value = x\<rparr>])"

partial_function (option) step_loop ::
  "(point list \<Rightarrow> f64 option qresult) \<Rightarrow> i64 \<Rightarrow> i64 \<Rightarrow> i64 \<Rightarrow> point list \<Rightarrow> sample list \<Rightarrow> sample list qresult option" where
  "step_loop agg end_ns step_ns start points samples =
     (if start < end_ns
      then let window_end = wrap_i64 (start + step_ns); cut = take_window start window_end points
           in case agg (fst cut) of
                Inl e \<Rightarrow> Some (Inl e)
              | Inr v \<Rightarrow> step_loop agg end_ns step_ns window_end (snd cut) (samples @ sample_at start v)
      else Some (Inr samples))"

text \<open>The value at one step of the range path. \<open>Inr None\<close> is no sample; the flag is set when the operation does not take a
  range, which empties the result. The difference of the bounds wraps around when they are out of order.\<close>

definition range_value :: "plan_op \<Rightarrow> i64 \<Rightarrow> i64 \<Rightarrow> i64 \<Rightarrow> point list \<Rightarrow> (bool \<times> f64 option) qresult" where
  "range_value op rng step_ns start points =
     (let window_start = max (- (2 ^ 63)) (min (2 ^ 63 - 1) (start - rng));
          lo = partition_point (\<lambda>p. fst p < window_start) points;
          hi = partition_point (\<lambda>p. fst p < wrap_i64 (start + step_ns)) points;
          window = take (hi - lo) (drop lo points); range_f = f64_of_int rng
      in if op = PIrate
         then if hi < lo \<or> 2 \<le> hi - lo
              then if hi < 2 then Inl Panic else Inr (False, instant_rate (points ! (hi - 2)) (points ! (hi - 1)))
              else Inr (False, None)
         else if lo < hi
         then (case op of
                 PRate \<Rightarrow> Inr (False, windowed_rate window range_f)
               | PIncrease \<Rightarrow>
                   Inr (False, map_option (\<lambda>r. f64_div (f64_mul r range_f) F64_1E9) (windowed_rate window range_f))
               | PDelta \<Rightarrow> Inr (False, Some (f64_sub (v_to_float (snd (points ! (hi - 1)))) (v_to_float (snd (points ! lo)))))
               | _ \<Rightarrow> Inr (True, None))
         else Inr (False, None))"

partial_function (option) range_loop ::
  "(i64 \<Rightarrow> (bool \<times> f64 option) qresult) \<Rightarrow> i64 \<Rightarrow> i64 \<Rightarrow> i64 \<Rightarrow> sample list \<Rightarrow> sample list qresult option" where
  "range_loop val end_ns step_ns start samples =
     (if start < end_ns
      then case val start of
             Inl e \<Rightarrow> Some (Inl e)
           | Inr v \<Rightarrow> if fst v then Some (Inr [])
                      else range_loop val end_ns step_ns (wrap_i64 (start + step_ns)) (samples @ sample_at start (snd v))
      else Some (Inr samples))"

definition downsample_impl ::
  "point list \<Rightarrow> i64 \<Rightarrow> i64 \<Rightarrow> i64 \<Rightarrow> i64 option \<Rightarrow> plan_op \<Rightarrow> f64 option \<Rightarrow> f64 option \<Rightarrow> (f64 option \<times> f64 option) option
     \<Rightarrow> sample list qresult option" where
  "downsample_impl points start_ns end_ns step_ns range_ns op quantile scalar_param clamp =
     (case range_ns of
        None \<Rightarrow> step_loop (\<lambda>w. aggregate op w quantile scalar_param clamp) end_ns step_ns start_ns points []
      | Some rng \<Rightarrow> range_loop (\<lambda>t. range_value op rng step_ns t points) end_ns step_ns start_ns [])"

definition downsample ::
  "point list \<Rightarrow> i64 \<Rightarrow> i64 \<Rightarrow> i64 \<Rightarrow> plan_op \<Rightarrow> f64 option \<Rightarrow> f64 option \<Rightarrow> (f64 option \<times> f64 option) option
     \<Rightarrow> sample list qresult option" where
  "downsample points start_ns end_ns step_ns op quantile scalar_param clamp =
     downsample_impl points start_ns end_ns step_ns None op quantile scalar_param clamp"

definition downsample_windowed ::
  "point list \<Rightarrow> i64 \<Rightarrow> i64 \<Rightarrow> i64 \<Rightarrow> i64 \<Rightarrow> plan_op \<Rightarrow> f64 option \<Rightarrow> f64 option \<Rightarrow> (f64 option \<times> f64 option) option
     \<Rightarrow> sample list qresult option" where
  "downsample_windowed points start_ns end_ns step_ns range_ns op quantile scalar_param clamp =
     downsample_impl points start_ns end_ns step_ns (Some range_ns) op quantile scalar_param clamp"

definition downsample_plan ::
  "point list \<Rightarrow> i64 \<Rightarrow> i64 \<Rightarrow> i64 \<Rightarrow> i64 option \<Rightarrow> plan_op \<Rightarrow> f64 option \<Rightarrow> f64 option \<Rightarrow> (f64 option \<times> f64 option) option
     \<Rightarrow> sample list qresult option" where
  "downsample_plan points start_ns end_ns step_ns range_ns op quantile scalar_param clamp =
     (let windowed = op \<in> {PRate, PIncrease, PDelta, PIrate} \<and> range_ns \<noteq> None
      in if windowed then downsample_impl points start_ns end_ns step_ns range_ns op quantile scalar_param clamp
         else downsample_impl points start_ns end_ns step_ns None op quantile scalar_param clamp)"

end
