(* ===== verification/Downsample_Proofs.thy ===== *)
theory Downsample_Proofs
  imports Downsample
begin

section \<open>What downsampling promises\<close>

text \<open>
  As long as time does not overflow, the loops end and every step sees exactly the points of its window; the
  range path reads past the time it stamps. At the end of time the loops do not end. The rate of a
  counter is never negative, whatever resets it has.
\<close>

subsection \<open>Reference\<close>

text \<open>The times of the samples, and one evaluation at each of them up to the first error.\<close>

function step_times :: "i64 \<Rightarrow> i64 \<Rightarrow> i64 \<Rightarrow> i64 list" where
  "step_times start fin step = (if start < fin \<and> 0 < step then start # step_times (start + step) fin step else [])"
  by auto

termination by (relation "measure (\<lambda>(start, fin, _). nat (fin - start))") auto

declare step_times.simps [simp del]

primrec sample_each :: "(i64 \<Rightarrow> f64 option qresult) \<Rightarrow> i64 list \<Rightarrow> sample list qresult" where
  "sample_each val [] = Inr []"
| "sample_each val (t # ts) =
     qbind (val t) (\<lambda>v. qbind (sample_each val ts) (\<lambda>samples. Inr (sample_at t v @ samples)))"

definition in_window :: "i64 \<Rightarrow> i64 \<Rightarrow> point list \<Rightarrow> point list" where
  "in_window lo hi points = filter (\<lambda>p. lo \<le> fst p \<and> fst p < hi) points"

subsection \<open>Numbers that are not negative\<close>

definition nonneg :: "f64 \<Rightarrow> bool" where
  "nonneg x \<longleftrightarrow> \<not> f64_lt x 0"

lemma f64_zero [simp]: "f64_sign 0 = False" "f64_mag 0 = 0" "f64_is_nan 0 = False" "f64_key 0 = 0"
  by (simp_all add: f64_sign_def f64_mag_def f64_is_nan_def INF_MAG_def f64_key_def)

lemma nonneg_iff: "nonneg x \<longleftrightarrow> f64_is_nan x \<or> \<not> f64_sign x \<or> f64_mag x = 0"
  using f64_mag_range [of x] by (auto simp: nonneg_def f64_lt_def f64_key_def)

lemma F64_NAN_is_nan [simp]: "f64_is_nan F64_NAN"
  by (simp add: f64_is_nan_def F64_NAN_def INF_MAG_def f64_mag_def)

lemma nonneg_nan [simp]: "nonneg F64_NAN"
  by (simp add: nonneg_iff)

lemma round_half_even_nonneg: "0 \<le> r \<Longrightarrow> 0 \<le> round_half_even r"
  by (simp add: round_half_even_def Let_def)

lemma round_mag_range: "0 \<le> r \<Longrightarrow> 0 \<le> round_mag r \<and> round_mag r < 2 ^ 63"
proof -
  assume r: "0 \<le> r"
  have "0 \<le> round_exp r + 1074" by (simp add: round_exp_def)
  then have "0 \<le> (round_exp r + 1074) * 2 ^ 52" by (intro mult_nonneg_nonneg) simp_all
  moreover have "0 \<le> round_half_even (r / pow2 (round_exp r))"
    using r pow2_pos [of "round_exp r"] by (intro round_half_even_nonneg divide_nonneg_pos)
  ultimately show ?thesis by (auto simp: round_mag_def INF_MAG_def)
qed

lemma f64_round_sign: "f64_sign (f64_round neg r) = (if r = 0 then neg else r < 0)"
  using round_mag_range [of "\<bar>r\<bar>"] f64_make_sel (2) [of "round_mag \<bar>r\<bar>"] f64_make_sel (2) [of 0 neg] by (simp add: f64_round_def)

lemma nonneg_round: "0 \<le> r \<Longrightarrow> nonneg (f64_round neg r)"
  using f64_round_sign [of neg r] f64_make_sel (1) [of 0 neg] by (cases "r = 0") (auto simp: nonneg_iff f64_round_def)

lemma mag_val_pos: "0 \<le> m \<Longrightarrow> 0 \<le> mag_val m"
  using mag_val_mono [of 0 m] by (cases "m = 0") auto

lemma nonneg_val: "nonneg x \<Longrightarrow> \<not> f64_is_nan x \<Longrightarrow> 0 \<le> f64_val x"
  using mag_val_pos [of "f64_mag x"] f64_mag_range [of x] by (auto simp: nonneg_iff f64_val_def)

lemma nonneg_add: "nonneg x \<Longrightarrow> nonneg y \<Longrightarrow> nonneg (f64_add x y)"
  using nonneg_val [of x] nonneg_val [of y] by (auto simp: f64_add_def intro!: nonneg_round)

lemma INF_MAG_nonzero [simp]: "INF_MAG \<noteq> 0" "0 < INF_MAG"
  by (simp_all add: INF_MAG_def)

lemma nonneg_inf [simp]: "nonneg (f64_make False INF_MAG)"
  using f64_make_sel (2) [of INF_MAG False] by (simp add: nonneg_iff INF_MAG_def)

lemma nonneg_mul: "nonneg x \<Longrightarrow> nonneg y \<Longrightarrow> nonneg (f64_mul x y)"
proof -
  assume a: "nonneg x" "nonneg y"
  have "f64_sign x = f64_sign y" if "\<not> f64_is_nan x" "\<not> f64_is_nan y" "f64_mag x \<noteq> 0" "f64_mag y \<noteq> 0"
    using a that by (auto simp: nonneg_iff)
  then show ?thesis
    using nonneg_val [OF a (1)] nonneg_val [OF a (2)] by (auto simp: f64_mul_def Let_def intro!: nonneg_round)
qed

lemma nonneg_div: "nonneg x \<Longrightarrow> \<not> f64_le y 0 \<Longrightarrow> nonneg (f64_div x y)"
proof -
  assume a: "nonneg x" "\<not> f64_le y 0"
  have y: "\<not> f64_sign y \<and> 0 < f64_mag y" if "\<not> f64_is_nan y"
    using a (2) that f64_mag_range [of y] by (auto simp: f64_le_def f64_key_def split: if_splits)
  have v: "0 \<le> f64_val y" if "\<not> f64_is_nan y" using y [OF that] mag_val_pos [of "f64_mag y"] by (simp add: f64_val_def)
  have "nonneg (f64_make neg 0)" for neg using f64_make_sel (1) [of 0 neg] by (simp add: nonneg_iff)
  moreover have "\<not> f64_sign x" if "f64_is_inf x" "\<not> f64_is_nan x" using a (1) that by (auto simp: nonneg_iff f64_is_inf_def)
  ultimately show ?thesis
    using y v nonneg_val [OF a (1)] by (auto simp: f64_div_def Let_def zero_le_divide_iff intro!: nonneg_round)
qed

lemma f64_neg_sel [simp]: "f64_sign (f64_neg x) = (\<not> f64_sign x)" "f64_mag (f64_neg x) = f64_mag x" "f64_is_nan (f64_neg x) = f64_is_nan x"
  "f64_is_inf (f64_neg x) = f64_is_inf x" "f64_val (f64_neg x) = - f64_val x"
  using f64_make_sel [OF f64_mag_range (1,2) [of x], of "\<not> f64_sign x"]
  by (cases "f64_sign x"; simp add: f64_neg_def f64_is_nan_def f64_is_inf_def f64_val_def)+

lemma f64_finite_iff: "f64_finite x \<longleftrightarrow> \<not> f64_is_nan x \<and> \<not> f64_is_inf x"
  by (auto simp: f64_finite_def f64_is_nan_def f64_is_inf_def)

lemma f64_le_iff: "\<not> f64_is_nan x \<Longrightarrow> \<not> f64_is_nan y \<Longrightarrow> f64_le x y \<longleftrightarrow> \<not> f64_lt y x"
  by (auto simp: f64_le_def f64_lt_def)

lemma nonneg_sub: "f64_le y x \<Longrightarrow> nonneg (f64_sub x y)"
proof -
  assume a: "f64_le y x"
  then have n: "\<not> f64_is_nan x" "\<not> f64_is_nan y" "f64_key y \<le> f64_key x" by (auto simp: f64_le_def)
  show ?thesis
  proof (cases "f64_is_inf x \<or> f64_is_inf y")
    case True
    have m: "f64_mag x \<le> INF_MAG" "f64_mag y \<le> INF_MAG" using n by (simp_all add: f64_is_nan_def)
    have "\<not> f64_sign x" if "f64_is_inf x" "\<not> (f64_is_inf y \<and> f64_sign y)"
      using that n m f64_mag_range [of y] INF_MAG_nonzero (2) by (auto simp: f64_key_def f64_is_inf_def simp del: INF_MAG_nonzero split: if_splits)
    moreover have "f64_sign y" if "f64_is_inf y" "\<not> f64_is_inf x"
      using that n m f64_mag_range [of x] INF_MAG_nonzero (2) by (auto simp: f64_key_def f64_is_inf_def simp del: INF_MAG_nonzero split: if_splits)
    ultimately show ?thesis using True n by (auto simp: f64_sub_def f64_add_def nonneg_iff)
  next
    case False
    then have "f64_val y \<le> f64_val x"
      using a n f64_le_iff [of y x] f64_lt_val [of x y] by (simp add: f64_finite_iff)
    then show ?thesis using False n by (auto simp: f64_sub_def f64_add_def intro!: nonneg_round)
  qed
qed

lemma nonneg_min: "nonneg x \<Longrightarrow> nonneg y \<Longrightarrow> nonneg (f64_min x y)"
  by (simp add: f64_min_def)

lemma nonneg_of_nat: "nonneg (f64_of_int (int n))"
  unfolding f64_of_int_def by (rule nonneg_round) simp

lemma nonneg_of_pos: "\<not> f64_le x 0 \<Longrightarrow> nonneg x"
  by (auto simp: f64_le_def nonneg_def f64_lt_def)

lemma nonneg_increase:
  assumes "list_all nonneg vs"
  shows "nonneg (counter_increase vs)"
proof -
  have step: "nonneg (if f64_le (fst w) (snd w) then f64_sub (snd w) (fst w) else snd w)" if "nonneg (snd w)" for w
    using that nonneg_sub by simp
  have "nonneg (foldl (\<lambda>acc w. f64_add acc (if f64_le (fst w) (snd w) then f64_sub (snd w) (fst w) else snd w)) acc ws)"
    if "nonneg acc" "\<forall>w\<in>set ws. nonneg (snd w)" for acc ws
    using that by (induction ws arbitrary: acc) (simp_all add: nonneg_add step)
  moreover have "nonneg (snd w)" if "w \<in> set (windows2 vs)" for w
    using that assms by (induction vs rule: windows2.induct) auto
  moreover have "nonneg 0" by (simp add: nonneg_iff)
  ultimately show ?thesis by (simp add: counter_increase_def)
qed

lemma constants_positive: "\<not> f64_le F64_1E9 0" "\<not> f64_le (f64_of_int 2) 0" "nonneg (f64_of_int 2)" "nonneg F64_TENTH"
  by code_simp+

text \<open>C17: The rate of a series over a window is not negative when none of its values is, however often the
  counter was reset and however the result is extrapolated.\<close>

theorem rate_never_negative:
  assumes "list_all (\<lambda>p. \<not> f64_lt (v_to_float (snd p)) 0) window" "windowed_rate window range_ns = Some r"
  shows "\<not> f64_lt r 0"
proof -
  define span where "span = seconds_between (fst (hd window)) (fst (last window))"
  define rate where "rate = f64_div (counter_increase (map (\<lambda>p. v_to_float (snd p)) window)) span"
  define window_s where "window_s = f64_div range_ns F64_1E9"
  define slack where "slack = f64_min (f64_div (f64_sub window_s span) (f64_of_int 2)) (f64_mul span F64_TENTH)"
  have span: "\<not> f64_le span 0" and r: "r = (if f64_lt span window_s
      then f64_div (f64_mul rate (f64_add span (f64_mul (f64_of_int 2) slack))) span else rate)"
    using assms (2) by (auto simp: windowed_rate_def Let_def span_def rate_def window_s_def slack_def split: if_splits)
  have "nonneg (counter_increase (map (\<lambda>p. v_to_float (snd p)) window))"
    using assms (1) by (intro nonneg_increase) (simp add: list_all_iff nonneg_def)
  then have rate: "nonneg rate" unfolding rate_def by (rule nonneg_div) (rule span)
  have slack: "nonneg slack" if "f64_lt span window_s"
  proof -
    have "f64_le span window_s" using that by (auto simp: f64_lt_def f64_le_def)
    then show ?thesis unfolding slack_def
      using constants_positive nonneg_of_pos [OF span] by (intro nonneg_min nonneg_div nonneg_mul nonneg_sub)
  qed
  have "nonneg r"
  proof (cases "f64_lt span window_s")
    case True
    have "nonneg (f64_div (f64_mul rate (f64_add span (f64_mul (f64_of_int 2) slack))) span)"
      using slack [OF True] by (intro nonneg_div nonneg_mul nonneg_add rate span nonneg_of_pos [OF span] constants_positive (3))
    then show ?thesis using True by (simp add: r)
  qed (use rate in \<open>simp add: r\<close>)
  then show ?thesis by (simp add: nonneg_def)
qed

theorem rate_never_negative_witness:
  "\<exists>r. windowed_rate [(0, IntVal 5), (1000000000, IntVal 2), (2000000000, IntVal 4)] (f64_of_int 60000000000) = Some r \<and> \<not> f64_lt r 0"
proof -
  have "windowed_rate [(0, IntVal 5), (1000000000, IntVal 2), (2000000000, IntVal 4)] (f64_of_int 60000000000) \<noteq> None" by code_simp
  then obtain r where r: "windowed_rate [(0, IntVal 5), (1000000000, IntVal 2), (2000000000, IntVal 4)] (f64_of_int 60000000000) = Some r" by blast
  have vals: "list_all (\<lambda>p. \<not> f64_lt (v_to_float (snd p)) 0) [(0, IntVal 5), (1000000000, IntVal 2), (2000000000 :: int, IntVal 4)]" by code_simp
  show ?thesis using r rate_never_negative [OF vals r] by blast
qed

subsection \<open>The windows of the steps\<close>

lemma take_window_eq:
  assumes "sorted (map fst ps)"
  shows "take_window start fin ps = (filter (\<lambda>p. start \<le> fst p \<and> fst p < fin) ps, dropWhile (\<lambda>p. fst p < fin) ps)"
  using assms
proof (induction ps)
  case (Cons p ps)
  then have "filter (\<lambda>q. start \<le> fst q \<and> fst q < fin) ps = []" if "\<not> fst p < fin"
    using that by (force simp: filter_empty_conv)
  then show ?case using Cons by auto
qed simp

lemma in_window_dropWhile:
  assumes "lo \<le> t"
  shows "in_window t hi (dropWhile (\<lambda>p. fst p < lo) ps) = in_window t hi ps"
  using assms by (induction ps) (auto simp: in_window_def)

lemma sorted_dropWhile_fst: "sorted (map fst ps) \<Longrightarrow> sorted (map fst (dropWhile P ps))"
  by (induction ps) auto

lemma step_times_bounds: "t \<in> set (step_times start fin step) \<Longrightarrow> start \<le> t \<and> t < fin"
  by (induction start fin step rule: step_times.induct) (subst (asm) (2) step_times.simps, fastforce split: if_splits)

lemma sample_each_cong:
  "(\<And>t. t \<in> set ts \<Longrightarrow> f t = g t) \<Longrightarrow> sample_each f ts = sample_each g ts"
  by (induction ts) (auto intro!: arg_cong2 [where f = qbind])

lemma step_loop_eq:
  assumes "0 < step" "- (2 ^ 63) \<le> start" "fin + step \<le> 2 ^ 63" "sorted (map fst points)"
  shows "step_loop agg fin step start points samples =
           Some (qbind (sample_each (\<lambda>t. agg (in_window t (t + step) points)) (step_times start fin step))
                   (\<lambda>more. Inr (samples @ more)))"
  using assms
proof (induction start fin step arbitrary: points samples rule: step_times.induct)
  case (1 start fin step)
  show ?case
  proof (cases "start < fin")
    case True
    have wrap: "wrap_i64 (start + step) = start + step" using 1 (2-4) True by (intro wrap_i64_id) auto
    let ?rest = "dropWhile (\<lambda>p. fst p < start + step) points"
    have same: "sample_each (\<lambda>t. agg (in_window t (t + step) ?rest)) (step_times (start + step) fin step) =
        sample_each (\<lambda>t. agg (in_window t (t + step) points)) (step_times (start + step) fin step)"
      by (rule sample_each_cong) (simp add: in_window_dropWhile step_times_bounds)
    have rec: "step_loop agg fin step (start + step) ?rest more =
        Some (qbind (sample_each (\<lambda>t. agg (in_window t (t + step) points)) (step_times (start + step) fin step))
                (\<lambda>later. Inr (more @ later)))" for more
      using 1 (1) [of ?rest more] 1 (2-5) True by (simp add: sorted_dropWhile_fst same)
    show ?thesis
      by (subst step_loop.simps, subst step_times.simps)
         (simp add: True 1 (2) wrap take_window_eq [OF 1 (5)] rec in_window_def [symmetric] qbind_def
           split: sum.split)
  qed (simp add: step_loop.simps [of _ _ _ start] step_times.simps [of start] qbind_def)
qed



subsection \<open>The end of time\<close>

lemma even_wrap: "even (wrap_i64 x) \<longleftrightarrow> even x"
proof -
  have "even ((x + 2 ^ 63) mod 2 ^ 64) \<longleftrightarrow> even (x + 2 ^ 63)"
    by (intro dvd_mod_iff) simp
  then show ?thesis by (simp add: wrap_i64_def)
qed

lemma sum_never_fails: "\<exists>v. aggregate PSum w quantile scalar clamp = Inr v"
  by (simp add: aggregate_def Let_def)

lemma step_loop_never_returns:
  assumes "step_loop agg fin step start points samples = Some r"
  shows "\<not> (agg = (\<lambda>w. aggregate PSum w None None None) \<and> fin = 2 ^ 63 - 1 \<and> even step \<and> even start \<and> start < 2 ^ 63)"
proof (rule step_loop.raw_induct [where P = "\<lambda>agg fin step start points samples r.
    \<not> (agg = (\<lambda>w. aggregate PSum w None None None) \<and> fin = 2 ^ 63 - 1 \<and> even step \<and> even start \<and> start < 2 ^ 63)", OF _ assms])
  fix loop agg fin step start points samples r
  assume IH: "\<And>agg fin step start points samples r. loop agg fin step start points samples = Some r \<Longrightarrow>
      \<not> (agg = (\<lambda>w. aggregate PSum w None None None) \<and> fin = 2 ^ 63 - 1 \<and> even step \<and> even start \<and> start < 2 ^ 63)"
    and loop: "(if start < fin
        then let window_end = wrap_i64 (start + step); cut = take_window start window_end points
             in case agg (fst cut) of
                  Inl e \<Rightarrow> Some (Inl e)
                | Inr v \<Rightarrow> loop agg fin step window_end (snd cut) (samples @ sample_at start v)
        else Some (Inr samples)) = Some r"
  show "\<not> (agg = (\<lambda>w. aggregate PSum w None None None) \<and> fin = 2 ^ 63 - 1 \<and> even step \<and> even start \<and> start < 2 ^ 63)"
  proof
    assume a: "agg = (\<lambda>w. aggregate PSum w None None None) \<and> fin = 2 ^ 63 - 1 \<and> even step \<and> even start \<and> start < 2 ^ 63"
    then have "start \<noteq> 2 ^ 63 - 1" by auto
    then have lt: "start < fin" using a by linarith
    let ?cut = "take_window start (wrap_i64 (start + step)) points"
    obtain v where v: "agg (fst ?cut) = Inr v" using a sum_never_fails by blast
    have "loop agg fin step (wrap_i64 (start + step)) (snd ?cut) (samples @ sample_at start v) = Some r"
      using loop lt v by (simp add: Let_def)
    from IH [OF this] a show False
      using wrap_i64_range [of "start + step"] by (auto simp: even_wrap)
  qed
qed

text \<open>A query up to the last nanosecond an \<open>i64\<close> holds does not end when its start and its step are even: the time of the step
  wraps around and never meets the end.\<close>

theorem downsample_diverges_at_end_of_time:
  assumes "even start" "even step" "start < 2 ^ 63"
  shows "downsample points start (2 ^ 63 - 1) step PSum None None None = None"
proof -
  have "step_loop (\<lambda>w. aggregate PSum w None None None) (2 ^ 63 - 1) step start points [] \<noteq> Some r" for r
    using step_loop_never_returns [of "\<lambda>w. aggregate PSum w None None None" "2 ^ 63 - 1" step start points "[]" r] assms by auto
  then show ?thesis unfolding downsample_def downsample_impl_def option.case by (metis not_Some_eq)
qed

theorem downsample_diverges_at_end_of_time_witness: "downsample [] 0 (2 ^ 63 - 1) 60000000000 PSum None None None = None"
  by (rule downsample_diverges_at_end_of_time) simp_all

subsection \<open>The windows of a range\<close>

lemma partition_point_sorted:
  assumes "sorted (map fst ps)"
  shows "partition_point (\<lambda>p. fst p < c) ps = length (takeWhile (\<lambda>p. fst p < c) ps)"
  using assms by (intro partition_point_eq) (auto simp: sorted_iff_nth_mono_less intro: le_less_trans)

lemma takeWhile_mono_length:
  assumes "a \<le> (b :: int)"
  shows "length (takeWhile (\<lambda>p. fst p < a) ps) \<le> length (takeWhile (\<lambda>p. fst p < b) ps)"
  using assms by (induction ps) auto

lemma window_slice:
  assumes "sorted (map fst ps)" "a \<le> (b :: int)"
  shows "take (partition_point (\<lambda>p. fst p < b) ps - partition_point (\<lambda>p. fst p < a) ps)
      (drop (partition_point (\<lambda>p. fst p < a) ps) ps) = filter (\<lambda>p. a \<le> fst p \<and> fst p < b) ps"
  unfolding partition_point_sorted [OF assms (1)] using assms
proof (induction ps)
  case (Cons p ps)
  have none: "filter (\<lambda>q. a \<le> fst q \<and> fst q < b) ps = []" if "\<not> fst p < b"
    using that Cons.prems by (force simp: filter_empty_conv)
  have "takeWhile (\<lambda>p. fst p < a) ps = []" if "\<not> fst p < a"
    using that Cons.prems by (cases ps) auto
  then show ?case using Cons none by auto
qed simp

text \<open>The rate at a step reads the points of the range before it and also those of the step after it: its window
  ends at the next step, not at the time of the sample.\<close>

theorem range_rate_reads_ahead:
  assumes "sorted (map fst points)" "0 < step" "0 \<le> rng" "- (2 ^ 63) \<le> t - rng" "t + step < 2 ^ 63"
  shows "range_value PRate rng step t points =
      Inr (False, windowed_rate (in_window (t - rng) (t + step) points) (f64_of_int rng))"
proof -
  let ?lo = "partition_point (\<lambda>p. fst p < t - rng) points" and ?hi = "partition_point (\<lambda>p. fst p < t + step) points"
  have w: "max (- (2 ^ 63)) (min (2 ^ 63 - 1) (t - rng)) = t - rng" "wrap_i64 (t + step) = t + step"
    using assms by (auto intro!: wrap_i64_id)
  have win: "take (?hi - ?lo) (drop ?lo points) = in_window (t - rng) (t + step) points"
    unfolding in_window_def by (rule window_slice) (use assms in auto)
  have "windowed_rate (in_window (t - rng) (t + step) points) (f64_of_int rng) = None" if "\<not> ?lo < ?hi"
    using that unfolding win [symmetric] by (simp add: windowed_rate_def)
  then show ?thesis unfolding range_value_def Let_def w win by simp
qed

theorem range_rate_reads_ahead_witness:
  "range_value PRate 5000000000 1000000000 0 [(0, IntVal 0), (500000000, IntVal 8)] =
      Inr (False, windowed_rate [(0, IntVal 0), (500000000, IntVal 8)] (f64_of_int 5000000000))"
  using range_rate_reads_ahead [of "[(0, IntVal 0), (500000000, IntVal 8)]" 1000000000 5000000000 0] by (simp add: in_window_def)

end
