(* ===== verification/Spec2Isabelle.thy ===== *)
theory Spec2Isabelle
  imports Labels Text_Search Wal_Recovery Buffer Writers Rotator_Proofs Serial_Rotator Tail_Sampling Ingest_Proofs Maintenance_Proofs
    Alert_Proofs Alert_Router Query_Text_Proofs Downsample_Proofs
begin

text \<open>
  \<^bold>\<open>A verification of parqtel-oss\<close>

  parqtel stores metrics, logs and traces. A batch that arrives over OTLP is appended to a write-ahead log, put
  into an in-memory buffer that queries read, and handed to a writer that cuts the rows into blocks.
  A finished block is written as a Parquet file and entered into an index, the buffer drops the
  rows, and the log may forget them. Background passes delete old blocks and merge small ones. An
  alert loop evaluates rules on query results and routes what fires. The development models these
  parts as functions on explicit states, and proves that they compose: what was acknowledged is
  never lost, what is visible stays visible, and what maintenance rewrites is still there.

  \<^bold>\<open>Theories\<close>

  \<^item> \<open>Prelude\<close>: collections of facts, lemmas on lists, options and maps, and the interfaces that several
    components share: \<open>finite_map_api\<close> and \<open>canonical_map_api\<close> (lookup after insertion, equal contents
    give equal representations) and \<open>state_machine\<close> (an invariant of a step relation holds in every
    reachable state).
  \<^item> \<open>Labels\<close> (\<open>parqtel-core/src/labels.rs\<close>): sorted label sets, their serialisation and the interner.
  \<^item> \<open>Text_Search\<close> (\<open>text.rs\<close>): the case-insensitive search of log bodies.
  \<^item> \<open>Models\<close> (\<open>models/*.rs\<close>, \<open>error.rs\<close>): points, log records, spans and errors.
  \<^item> \<open>Wal\<close>, \<open>Wal_Log\<close>, \<open>Wal_Recovery\<close> (\<open>storage/wal.rs\<close>): segments as byte lists with checksummed records, append with
    rotation, commit, the persisted offset, opening and replay.
  \<^item> \<open>Buffer\<close> (\<open>storage/buffer.rs\<close>): the epoch buffer of recent points.
  \<^item> \<open>Writers\<close> (\<open>storage/writer.rs\<close>): the metric, log and trace block writers.
  \<^item> \<open>Flush_Order\<close>, \<open>Rotator\<close>, \<open>Rotator_Proofs\<close>, \<open>Serial_Rotator\<close> (\<open>parqtel-ingest/src/service.rs\<close>): the rotators, the flush
    workers and the order in which finished flushes release the log. The concurrent rotator is a
    step relation over tasks that push, seal, write and commit.
  \<^item> \<open>Tail_Sampling\<close>, \<open>Ingest\<close>, \<open>Ingest_Proofs\<close> (\<open>tail_sampling.rs\<close>, \<open>span_metrics.rs\<close>, \<open>service.rs\<close>): the ingestion services.
  \<^item> \<open>Block_Index\<close>, \<open>Block_Index_Proofs\<close> (\<open>storage/index.rs\<close>, \<open>storage/persist.rs\<close>, parts of \<open>storage/mod.rs\<close> and \<open>main.rs\<close>):
    the index of the blocks, its sidecar file, its persistence task and the reconciliation of the
    index with the directory at the start.
  \<^item> \<open>Maintenance\<close>, \<open>Maintenance_Proofs\<close> (\<open>storage/retention.rs\<close>, \<open>storage/compactor.rs\<close>): retention and compaction.
  \<^item> \<open>Float64\<close>: the IEEE 754 double of the language, executable: a number is its 64 bits, an operation
    computes the exact rational result and rounds half to even.
  \<^item> \<open>Alert_Rules\<close>, \<open>Alerts\<close>, \<open>Alert_Proofs\<close>, \<open>Alert_Router\<close> (\<open>parqtel-alert\<close>, \<open>handlers/alerts.rs\<close>, the alert loop of \<open>main.rs\<close>):
    rules, packs, the state machine of an alert, its store, the handlers, routes and silences.

  \<^bold>\<open>How the code is represented\<close>

  A struct is a record, an enum a datatype, a machine integer a word or an integer with the wrap-around of
  a release build written out, a string a list of characters. A fallible operation returns a sum
  whose left part is the error. A hash map is an association list, and where the code iterates over
  one the order is an argument. Locks are not modelled where the guard spans the whole operation; where an
  operation releases a lock in between, it is split into the steps of a relation, so that the
  interleavings of the tasks are runs of that relation.

  What the sources only call is an argument of the definitions that use it: the checksum of the log,
  the codecs of its payloads, the Parquet reader and writer, the JSON and YAML decoders, hash functions,
  fresh identifiers, clocks, the outcome of every file operation and of every request. The
  theorems name what they need of them, mostly that a decoder reads what its encoder wrote, and
  their witnesses instantiate them with concrete functions.

  \<^bold>\<open>What the lemmas show\<close>

  \<^item> Log: a replay returns exactly the records that no commit covers, in order; an acknowledged record
    survives every later append, commit and crash, also in the middle of a write; an offset that
    outlived its segments can skip records, which is shown on a concrete run.
  \<^item> Buffer and writers: a flush drops exactly the sealed rows; a scan is a filter of the contents; a
    writer returns as blocks and rest exactly the rows that were pushed, on every error path.
  \<^item> Rotators and ingestion: in every reachable state each acknowledged point is in the log, in the
    buffer or in a published block; the log is committed only over a finished prefix of the flushes,
    and every finished flush is released; an acknowledged batch is recovered after a crash.
  \<^item> Index and maintenance: the index stays sorted, its queries are exact on blocks of bounded length,
    no update is lost between the dirty flag and the sidecar, the reconciled index matches the
    directory, and a compaction pass conserves the rows queries reach, also when it fails.
  \<^item> Alerts: the log of a stored alert is a path of the state machine, a firing event needs the
    duration of its rule, saved alerts survive a restart, user rules win over packs, and no alert
    is delivered twice within its repeat window.

  \<^bold>\<open>Bounds and termination\<close>

  No definition uses fuel: the loops are structural recursions over the rows, records, blocks or rules that are
  left, or functions whose termination is proved by the length of the rest. Loops that wait for a
  timer, a channel or a connection are step relations or are left out.

  \<^bold>\<open>Not modelled\<close>

  \<^item> The query languages and their execution (\<open>parqtel-query\<close>), the Parquet scanner and the codecs of the
    columns: what they return is an argument where a modelled part uses it.
  \<^item> The OTLP decoders, which read structures generated from protocol buffer definitions.
  \<^item> The HTTP and gRPC servers with their routing, metrics and telemetry, except the handlers of the
    alerts; the connectors that expose tools to other programs; benchmarks, examples and tests.
\<close>

end
